(* ===== verification/Prelude.thy ===== *)
theory Prelude
  imports
    Main
    "HOL-Library.Word"
    "HOL-Library.FSet"
    "HOL-Library.Finite_Map"
    "HOL-Library.List_Lexorder"
    "HOL-Library.Multiset"
begin

text \<open>
  Shared vocabulary of the development: the machine types of the Rust sources, the
  conventions for errors and panics, the standard-library operations the components call
  (saturating arithmetic, \<open>Vec::swap_remove\<close>, \<open>Ordering\<close>, hash iteration) and the lemmas
  about them.

  Conventions.
  \<^item> \<open>Result<T, E>\<close> is the sum \<open>'e + 'a\<close>, with \<open>Inl\<close> for \<open>Err\<close> and \<open>Inr\<close> for \<open>Ok\<close>.
  \<^item> A panic (\<open>assert!\<close>, \<open>expect\<close>, \<open>unwrap\<close>) is \<open>None\<close> of an option around the whole result.
  \<^item> A \<open>HashMap\<close> is a finite map, a \<open>HashSet\<close> a finite set. The order in which they are iterated
    is not specified by the standard library: it is the parameter \<open>hash_orders\<close> of every
    operation whose source iterates one.
\<close>

section \<open>Machine types\<close>

type_synonym u8 = "8 word"
type_synonym u32 = "32 word"
type_synonym u64 = "64 word"
type_synonym u128 = "128 word"
type_synonym u256 = "256 word"
type_synonym i256 = "256 word"
type_synonym b256 = "256 word"
type_synonym address = "160 word"
type_synonym bytes = "8 word list"
type_synonym tx_hash = b256

named_theorems arith_defs \<open>definitions of the fixed-width operations\<close>

definition saturating_add :: "'a::len word \<Rightarrow> 'a word \<Rightarrow> 'a word" where
  [arith_defs]: "saturating_add a b = (if unat a + unat b < 2 ^ LENGTH('a) then a + b else - 1)"

definition saturating_sub :: "'a::len word \<Rightarrow> 'a word \<Rightarrow> 'a word" where
  [arith_defs]: "saturating_sub a b = (if a < b then 0 else a - b)"

lemma unat_max_word: "unat (- 1 :: 'a::len word) = 2 ^ LENGTH('a) - 1"
  by (simp add: unsigned_minus_1_eq_mask mask_eq_exp_minus_1)

lemma unat_below: "unat (w :: 'a::len word) < 2 ^ LENGTH('a)"
  by (rule unsigned_less)

lemma uint_below: "uint (w :: 'a::len word) < 2 ^ LENGTH('a)"
  by (rule unsigned_less)

lemma unat_of_nat_below: "n < 2 ^ LENGTH('a) \<Longrightarrow> unat (of_nat n :: 'a::len word) = n"
  by (simp add: unsigned_of_nat take_bit_nat_eq_self)

lemma below_not_max: "a < b \<Longrightarrow> a \<noteq> - 1" for a b :: "'a::len word"
  using word_order.extremum_strict by blast

lemma unat_plus_one: "n \<noteq> - 1 \<Longrightarrow> unat (n + 1) = Suc (unat n)" for n :: "'a::len word"
  using unatSuc [of n] by (simp add: add.commute add_eq_0_iff)

lemma uint_add_no_wrap:
  "uint a + uint b < 2 ^ LENGTH('a) \<Longrightarrow> uint (a + b) = uint a + uint (b :: 'a::len word)"
  by (simp add: uint_word_ariths)

lemma unat_saturating_add:
  "unat (saturating_add a (b :: 'a::len word)) = min (unat a + unat b) (2 ^ LENGTH('a) - 1)"
  by (auto simp: saturating_add_def unat_word_ariths unat_max_word min_def)

lemma unat_saturating_sub: "unat (saturating_sub a b) = unat a - unat b"
  by (auto simp: saturating_sub_def word_less_nat_alt unat_sub_if')

text \<open>\<open>i128\<close> is an integer kept in range by the saturating operations the code uses.\<close>

definition sat_i128 :: "int \<Rightarrow> int" where
  [arith_defs]: "sat_i128 x = max (- (2 ^ 127)) (min (2 ^ 127 - 1) x)"

lemma sat_i128_bounds: "- (2 ^ 127) \<le> sat_i128 x" "sat_i128 x \<le> 2 ^ 127 - 1"
  by (auto simp: sat_i128_def)

lemma sat_i128_id: "- (2 ^ 127) \<le> x \<Longrightarrow> x < 2 ^ 127 \<Longrightarrow> sat_i128 x = x"
  by (simp add: sat_i128_def)

section \<open>Ordering\<close>

text \<open>\<open>std::cmp::Ordering\<close> with \<open>cmp\<close>, \<open>reverse\<close> and \<open>then_with\<close>.\<close>

datatype Ordering = Less | Equal | Greater

definition cmp :: "'a::linorder \<Rightarrow> 'a \<Rightarrow> Ordering" where
  "cmp a b = (if a < b then Less else if a = b then Equal else Greater)"

fun ordering_reverse :: "Ordering \<Rightarrow> Ordering" where
  "ordering_reverse Less = Greater"
| "ordering_reverse Equal = Equal"
| "ordering_reverse Greater = Less"

fun then_with :: "Ordering \<Rightarrow> Ordering \<Rightarrow> Ordering" where
  "then_with Equal b = b"
| "then_with a b = a"

lemma cmp_iff [simp]:
  "cmp a b = Less \<longleftrightarrow> a < b" "cmp a b = Equal \<longleftrightarrow> a = b" "cmp a b = Greater \<longleftrightarrow> b < a"
  by (auto simp: cmp_def)

lemma then_with_iff:
  "then_with a b = Equal \<longleftrightarrow> a = Equal \<and> b = Equal"
  "then_with a b = Less \<longleftrightarrow> a = Less \<or> (a = Equal \<and> b = Less)"
  "then_with a b = Greater \<longleftrightarrow> a = Greater \<or> (a = Equal \<and> b = Greater)"
  by (cases a; simp)+

section \<open>Vectors\<close>

text \<open>\<open>iter().position(p)\<close>: the index of the first element that satisfies \<open>p\<close>.\<close>

fun position :: "('a \<Rightarrow> bool) \<Rightarrow> 'a list \<Rightarrow> nat option" where
  "position p [] = None"
| "position p (x # xs) = (if p x then Some 0 else map_option Suc (position p xs))"

lemma position_None [simp]: "position p xs = None \<longleftrightarrow> (\<forall>x \<in> set xs. \<not> p x)"
  by (induction xs) auto

lemma position_SomeD: "position p xs = Some i \<Longrightarrow> i < length xs \<and> p (xs ! i) \<and> (\<forall>j < i. \<not> p (xs ! j))"
proof (induction xs arbitrary: i)
  case (Cons x xs)
  show ?case
  proof (cases "p x")
    case False
    with Cons.prems obtain k where k: "position p xs = Some k" "i = Suc k" by auto
    from Cons.IH [OF k(1)] k(2) False show ?thesis by (auto simp: nth_Cons split: nat.splits)
  qed (use Cons.prems in auto)
qed simp

text \<open>\<open>Vec::swap_remove(i)\<close>: the last element takes the place of the removed one.\<close>

definition swap_remove :: "nat \<Rightarrow> 'a list \<Rightarrow> 'a list" where
  "swap_remove i xs = butlast (xs[i := last xs])"

lemma set_swap_remove: "set (swap_remove i xs) \<subseteq> set xs"
proof (cases "xs = []")
  case False
  have "set (swap_remove i xs) \<subseteq> set (xs[i := last xs])"
    by (auto simp: swap_remove_def dest: in_set_butlastD)
  also have "\<dots> \<subseteq> insert (last xs) (set xs)" by (rule set_update_subset_insert)
  finally show ?thesis using False by auto
qed (simp add: swap_remove_def)

lemma length_swap_remove [simp]: "length (swap_remove i xs) = length xs - 1"
  by (simp add: swap_remove_def)

lemma in_set_swap_remove:
  assumes "i < length xs" and "y \<in> set xs" and "y \<noteq> xs ! i"
  shows "y \<in> set (swap_remove i xs)"
proof -
  from assms(2) obtain j where j: "j < length xs" "xs ! j = y" by (auto simp: in_set_conv_nth)
  with assms have ne: "j \<noteq> i" "xs \<noteq> []" by auto
  let ?l = "length xs - 1"
  have last: "last xs = xs ! ?l" using ne by (simp add: last_conv_nth)
  show ?thesis
  proof (cases "j = ?l")
    case True
    with ne assms(1) j(1) have "i < ?l" by simp
    moreover from this have "swap_remove i xs ! i = y"
      using True j last by (simp add: swap_remove_def nth_butlast)
    ultimately show ?thesis by (metis length_swap_remove nth_mem)
  next
    case False
    with j(1) have "j < ?l" by simp
    moreover from this have "swap_remove i xs ! j = y"
      using ne j by (simp add: swap_remove_def nth_butlast)
    ultimately show ?thesis by (metis length_swap_remove nth_mem)
  qed
qed

lemma mset_swap_remove:
  assumes "i < length xs"
  shows "add_mset (xs ! i) (mset (swap_remove i xs)) = mset xs"
proof -
  have ne: "xs \<noteq> []" using assms by auto
  have "last (xs[i := last xs]) = last xs" using ne assms by (simp add: last_list_update)
  then have "xs[i := last xs] = swap_remove i xs @ [last xs]"
    unfolding swap_remove_def by (metis append_butlast_last_id list_update_nonempty ne)
  then have "add_mset (last xs) (mset (swap_remove i xs)) = mset (xs[i := last xs])" by simp
  also have "\<dots> = add_mset (last xs) (mset xs - {#xs ! i#})"
    using assms by (simp add: mset_update)
  finally show ?thesis using assms by simp
qed

section \<open>Finite maps\<close>

text \<open>\<open>HashMap::len\<close>.\<close>

definition fmsize :: "('a, 'b) fmap \<Rightarrow> nat" where
  "fmsize m = fcard (fmdom m)"

lemma fmsize_empty [simp]: "fmsize fmempty = 0"
  by (simp add: fmsize_def)

lemma fmsize_fmupd:
  "fmsize (fmupd k v m) = (if fmlookup m k = None then Suc (fmsize m) else fmsize m)"
proof (cases "fmlookup m k = None")
  case True
  then have "k |\<notin>| fmdom m" by (simp add: fmdom_notI)
  with True show ?thesis by (simp add: fmsize_def fcard_finsert_disjoint)
next
  case False
  then have "finsert k (fmdom m) = fmdom m" by (auto simp: fmlookup_dom_iff)
  with False show ?thesis by (simp add: fmsize_def)
qed

lemma fmsize_fmdrop: "fmlookup m k = Some v \<Longrightarrow> Suc (fmsize (fmdrop k m)) = fmsize m"
proof -
  assume "fmlookup m k = Some v"
  then have "fmupd k v (fmdrop k m) = m" by (intro fmap_ext) auto
  then show ?thesis using fmsize_fmupd [of k v "fmdrop k m"] by simp
qed

lemma fmdrop_id: "fmlookup m k = None \<Longrightarrow> fmdrop k m = m"
  by (rule fmap_ext) auto

section \<open>Iteration order of hash containers\<close>

text \<open>
  The order of a \<open>HashSet\<close> or of the keys of a \<open>HashMap\<close> is some enumeration without
  repetition of its elements.
\<close>

record hash_orders =
  hash_order :: "tx_hash fset \<Rightarrow> tx_hash list"
  marker_order :: "bytes fset \<Rightarrow> bytes list"

definition enumerates :: "('a fset \<Rightarrow> 'a list) \<Rightarrow> bool" where
  "enumerates ord \<longleftrightarrow> (\<forall>S. fset_of_list (ord S) = S \<and> distinct (ord S))"

definition hash_orders_ok :: "hash_orders \<Rightarrow> bool" where
  "hash_orders_ok ho \<longleftrightarrow> enumerates (hash_order ho) \<and> enumerates (marker_order ho)"

lemma enumerates_set: "enumerates ord \<Longrightarrow> set (ord S) = fset S"
  by (metis enumerates_def fset_of_list.rep_eq)

lemma enumerates_distinct: "enumerates ord \<Longrightarrow> distinct (ord S)"
  by (simp add: enumerates_def)

lemma hash_orders_okD:
  assumes "hash_orders_ok ho"
  shows "set (hash_order ho S) = fset S" "distinct (hash_order ho S)"
    and "set (marker_order ho M) = fset M" "distinct (marker_order ho M)"
  using assms by (auto simp: hash_orders_ok_def enumerates_set enumerates_distinct)

text \<open>Ascending order is one such order; the witnesses use it.\<close>

definition ascending_orders :: hash_orders where
  "ascending_orders = \<lparr>hash_order = sorted_list_of_fset, marker_order = sorted_list_of_fset\<rparr>"

lemma enumerates_sorted_list_of_fset: "enumerates sorted_list_of_fset"
proof -
  have "distinct (sorted_list_of_fset S)" for S :: "'a::linorder fset"
    by (simp add: sorted_list_of_fset.rep_eq)
  then show ?thesis by (simp add: enumerates_def)
qed

lemma ascending_orders_ok: "hash_orders_ok ascending_orders"
  by (simp add: hash_orders_ok_def ascending_orders_def enumerates_sorted_list_of_fset)

lemma sorted_list_of_fset_empty [simp]: "sorted_list_of_fset {||} = []"
  by (simp add: sorted_list_of_fset.rep_eq)

lemma sorted_list_of_fset_insert [simp]:
  "sorted_list_of_fset (finsert x S) = insort x (sorted_list_of_fset (S |-| {|x|}))"
  by (simp add: sorted_list_of_fset.rep_eq sorted_list_of_set_insert_remove)

section \<open>Sequences of operations that keep an invariant\<close>

text \<open>
  A component with state is driven by a sequence of operations, each of which may panic
  (\<open>None\<close>). The interface below is what a component has to promise of one operation; what
  follows for whole sequences is proved once.
\<close>

fun run_ops :: "('op \<Rightarrow> 's \<Rightarrow> 's option) \<Rightarrow> 'op list \<Rightarrow> 's \<Rightarrow> 's option" where
  "run_ops step [] s = Some s"
| "run_ops step (x # xs) s = (case step x s of None \<Rightarrow> None | Some s' \<Rightarrow> run_ops step xs s')"

lemma run_ops_append:
  "run_ops step (xs @ ys) s = Option.bind (run_ops step xs s) (run_ops step ys)"
  by (induction xs arbitrary: s) (auto split: option.splits)

locale op_system =
  fixes step :: "'op \<Rightarrow> 's \<Rightarrow> 's option"
    and admissible :: "'op \<Rightarrow> bool"
    and inv :: "'s \<Rightarrow> bool"
  assumes step_inv: "inv s \<Longrightarrow> admissible x \<Longrightarrow> \<exists>s'. step x s = Some s' \<and> inv s'"
begin

lemma run_inv: "inv s \<Longrightarrow> list_all admissible xs \<Longrightarrow> \<exists>s'. run_ops step xs s = Some s' \<and> inv s'"
proof (induction xs arbitrary: s)
  case (Cons x xs)
  from Cons.prems step_inv [of s x] obtain s1 where "step x s = Some s1" "inv s1" by auto
  with Cons show ?case by auto
qed simp

lemma run_never_panics: "inv s \<Longrightarrow> list_all admissible xs \<Longrightarrow> run_ops step xs s \<noteq> None"
  using run_inv by fastforce

lemma run_reaches_inv: "inv s \<Longrightarrow> list_all admissible xs \<Longrightarrow> run_ops step xs s = Some s' \<Longrightarrow> inv s'"
  using run_inv by fastforce

end

end
