(* ===== verification/Transactions.thy ===== *)
theory Transactions
  imports Prelude
begin

text \<open>
  Typed transactions (anvil/core/src/eth/transaction/mod.rs): the variants with the fields of the
  structures of the alloy crates, their accessors, the conversion of RPC requests and the conversion to
  the environment of the EVM. Signatures and the recovery of the signer belong to those crates: what
  the code asks of them is \<open>signing_ops\<close>. The blob gas of a blob transaction and the chain id of a
  deposit are computed there too and appear as fields.
\<close>

section \<open>Variants\<close>

datatype TxKind = Create | Call address

type_synonym access_list = "(address \<times> b256 list) list"

record SignedAuthorization =
  auth_chain_id :: u256
  auth_address :: address
  auth_nonce :: u64
  auth_signature :: bytes

record BlobTransactionSidecar =
  sidecar_blobs :: "bytes list"
  sidecar_commitments :: "bytes list"
  sidecar_proofs :: "bytes list"

record TxLegacy =
  legacy_chain_id :: "u64 option"
  legacy_nonce :: u64
  legacy_gas_price :: u128
  legacy_gas_limit :: u64
  legacy_to :: TxKind
  legacy_value :: u256
  legacy_input :: bytes

record TxEip2930 =
  eip2930_chain_id :: u64
  eip2930_nonce :: u64
  eip2930_gas_price :: u128
  eip2930_gas_limit :: u64
  eip2930_to :: TxKind
  eip2930_value :: u256
  eip2930_access_list :: access_list
  eip2930_input :: bytes

record TxEip1559 =
  eip1559_chain_id :: u64
  eip1559_nonce :: u64
  eip1559_gas_limit :: u64
  eip1559_max_fee :: u128
  eip1559_max_priority_fee :: u128
  eip1559_to :: TxKind
  eip1559_value :: u256
  eip1559_access_list :: access_list
  eip1559_input :: bytes

record TxEip4844 =
  eip4844_chain_id :: u64
  eip4844_nonce :: u64
  eip4844_gas_limit :: u64
  eip4844_max_fee :: u128
  eip4844_max_priority_fee :: u128
  eip4844_to :: address
  eip4844_value :: u256
  eip4844_access_list :: access_list
  eip4844_blob_versioned_hashes :: "b256 list"
  eip4844_max_fee_per_blob_gas :: u128
  eip4844_input :: bytes
  eip4844_blob_gas :: u64

datatype TxEip4844Variant =
    PlainTxEip4844 (variant_tx: TxEip4844)
  | TxEip4844WithSidecar (variant_tx: TxEip4844) BlobTransactionSidecar

record TxEip7702 =
  eip7702_chain_id :: u64
  eip7702_nonce :: u64
  eip7702_gas_limit :: u64
  eip7702_max_fee :: u128
  eip7702_max_priority_fee :: u128
  eip7702_to :: address
  eip7702_value :: u256
  eip7702_access_list :: access_list
  eip7702_authorization_list :: "SignedAuthorization list"
  eip7702_input :: bytes

record TxDeposit =
  deposit_source_hash :: b256
  deposit_from :: address
  deposit_to :: TxKind
  deposit_mint :: u128
  deposit_value :: u256
  deposit_gas_limit :: u64
  deposit_is_system_transaction :: bool
  deposit_input :: bytes
  deposit_chain_id :: "u64 option"

datatype TypedTransaction =
    Legacy TxLegacy
  | EIP2930 TxEip2930
  | EIP1559 TxEip1559
  | EIP4844 TxEip4844Variant
  | EIP7702 TxEip7702
  | Deposit TxDeposit

section \<open>Accessors\<close>

fun gas_price :: "TypedTransaction \<Rightarrow> u128" where
  "gas_price (Legacy t) = legacy_gas_price t"
| "gas_price (EIP2930 t) = eip2930_gas_price t"
| "gas_price (EIP1559 t) = eip1559_max_fee t"
| "gas_price (EIP4844 t) = eip4844_max_fee (variant_tx t)"
| "gas_price (EIP7702 t) = eip7702_max_fee t"
| "gas_price (Deposit t) = 0"

fun tx_gas_limit :: "TypedTransaction \<Rightarrow> u64" where
  "tx_gas_limit (Legacy t) = legacy_gas_limit t"
| "tx_gas_limit (EIP2930 t) = eip2930_gas_limit t"
| "tx_gas_limit (EIP1559 t) = eip1559_gas_limit t"
| "tx_gas_limit (EIP4844 t) = eip4844_gas_limit (variant_tx t)"
| "tx_gas_limit (EIP7702 t) = eip7702_gas_limit t"
| "tx_gas_limit (Deposit t) = deposit_gas_limit t"

fun tx_value :: "TypedTransaction \<Rightarrow> u256" where
  "tx_value (Legacy t) = legacy_value t"
| "tx_value (EIP2930 t) = eip2930_value t"
| "tx_value (EIP1559 t) = eip1559_value t"
| "tx_value (EIP4844 t) = eip4844_value (variant_tx t)"
| "tx_value (EIP7702 t) = eip7702_value t"
| "tx_value (Deposit t) = deposit_value t"

fun tx_data :: "TypedTransaction \<Rightarrow> bytes" where
  "tx_data (Legacy t) = legacy_input t"
| "tx_data (EIP2930 t) = eip2930_input t"
| "tx_data (EIP1559 t) = eip1559_input t"
| "tx_data (EIP4844 t) = eip4844_input (variant_tx t)"
| "tx_data (EIP7702 t) = eip7702_input t"
| "tx_data (Deposit t) = deposit_input t"

fun tx_type :: "TypedTransaction \<Rightarrow> u8 option" where
  "tx_type (Legacy t) = None"
| "tx_type (EIP2930 t) = Some 1"
| "tx_type (EIP1559 t) = Some 2"
| "tx_type (EIP4844 t) = Some 3"
| "tx_type (EIP7702 t) = Some 4"
| "tx_type (Deposit t) = Some 0x7E"

fun blob_gas :: "TypedTransaction \<Rightarrow> u64 option" where
  "blob_gas (EIP4844 t) = Some (eip4844_blob_gas (variant_tx t))"
| "blob_gas _ = None"

fun tx_sidecar :: "TypedTransaction \<Rightarrow> (TxEip4844 \<times> BlobTransactionSidecar) option" where
  "tx_sidecar (EIP4844 (TxEip4844WithSidecar t sidecar)) = Some (t, sidecar)"
| "tx_sidecar _ = None"

fun max_fee_per_blob_gas :: "TypedTransaction \<Rightarrow> u128 option" where
  "max_fee_per_blob_gas (EIP4844 t) = Some (eip4844_max_fee_per_blob_gas (variant_tx t))"
| "max_fee_per_blob_gas _ = None"

fun tx_nonce :: "TypedTransaction \<Rightarrow> u64" where
  "tx_nonce (Legacy t) = legacy_nonce t"
| "tx_nonce (EIP2930 t) = eip2930_nonce t"
| "tx_nonce (EIP1559 t) = eip1559_nonce t"
| "tx_nonce (EIP4844 t) = eip4844_nonce (variant_tx t)"
| "tx_nonce (EIP7702 t) = eip7702_nonce t"
| "tx_nonce (Deposit t) = 0"

fun tx_chain_id :: "TypedTransaction \<Rightarrow> u64 option" where
  "tx_chain_id (Legacy t) = legacy_chain_id t"
| "tx_chain_id (EIP2930 t) = Some (eip2930_chain_id t)"
| "tx_chain_id (EIP1559 t) = Some (eip1559_chain_id t)"
| "tx_chain_id (EIP4844 t) = Some (eip4844_chain_id (variant_tx t))"
| "tx_chain_id (EIP7702 t) = Some (eip7702_chain_id t)"
| "tx_chain_id (Deposit t) = deposit_chain_id t"

fun tx_is_eip4844 :: "TypedTransaction \<Rightarrow> bool" where
  "tx_is_eip4844 (EIP4844 t) = True"
| "tx_is_eip4844 _ = False"

fun is_deposit :: "TypedTransaction \<Rightarrow> bool" where
  "is_deposit (Deposit t) = True"
| "is_deposit _ = False"

fun tx_kind :: "TypedTransaction \<Rightarrow> TxKind" where
  "tx_kind (Legacy t) = legacy_to t"
| "tx_kind (EIP2930 t) = eip2930_to t"
| "tx_kind (EIP1559 t) = eip1559_to t"
| "tx_kind (EIP4844 t) = Call (eip4844_to (variant_tx t))"
| "tx_kind (EIP7702 t) = Call (eip7702_to t)"
| "tx_kind (Deposit t) = deposit_to t"

definition tx_to :: "TypedTransaction \<Rightarrow> address option" where
  "tx_to t = (case tx_kind t of Call a \<Rightarrow> Some a | Create \<Rightarrow> None)"

section \<open>Cost\<close>

definition saturating_mul :: "'a::len word \<Rightarrow> 'a word \<Rightarrow> 'a word" where
  [arith_defs]: "saturating_mul a b = (if unat a * unat b < 2 ^ LENGTH('a) then a * b else - 1)"

text \<open>The blob part is a plain product, which wraps in a release build.\<close>

definition max_cost :: "TypedTransaction \<Rightarrow> u128" where
  "max_cost t =
     (let cost = saturating_mul (ucast (tx_gas_limit t)) (gas_price t)
      in if tx_is_eip4844 t
         then saturating_add cost
           ((case blob_gas t of Some g \<Rightarrow> ucast g | None \<Rightarrow> 0) *
            (case max_fee_per_blob_gas t of Some f \<Rightarrow> f | None \<Rightarrow> 0))
         else cost)"

section \<open>Essentials\<close>

record TransactionEssentials =
  ess_kind :: TxKind
  ess_input :: bytes
  ess_nonce :: u64
  ess_gas_limit :: u64
  ess_gas_price :: "u128 option"
  ess_max_fee_per_gas :: "u128 option"
  ess_max_priority_fee_per_gas :: "u128 option"
  ess_max_fee_per_blob_gas :: "u128 option"
  ess_blob_versioned_hashes :: "b256 list option"
  ess_value :: u256
  ess_chain_id :: "u64 option"
  ess_access_list :: access_list

fun essentials :: "TypedTransaction \<Rightarrow> TransactionEssentials" where
  "essentials (Legacy t) =
     \<lparr>ess_kind = legacy_to t, ess_input = legacy_input t, ess_nonce = legacy_nonce t,
      ess_gas_limit = legacy_gas_limit t, ess_gas_price = Some (legacy_gas_price t), ess_max_fee_per_gas = None,
      ess_max_priority_fee_per_gas = None, ess_max_fee_per_blob_gas = None, ess_blob_versioned_hashes = None,
      ess_value = legacy_value t, ess_chain_id = legacy_chain_id t, ess_access_list = []\<rparr>"
| "essentials (EIP2930 t) =
     \<lparr>ess_kind = eip2930_to t, ess_input = eip2930_input t, ess_nonce = eip2930_nonce t,
      ess_gas_limit = eip2930_gas_limit t, ess_gas_price = Some (eip2930_gas_price t), ess_max_fee_per_gas = None,
      ess_max_priority_fee_per_gas = None, ess_max_fee_per_blob_gas = None, ess_blob_versioned_hashes = None,
      ess_value = eip2930_value t, ess_chain_id = Some (eip2930_chain_id t), ess_access_list = eip2930_access_list t\<rparr>"
| "essentials (EIP1559 t) =
     \<lparr>ess_kind = eip1559_to t, ess_input = eip1559_input t, ess_nonce = eip1559_nonce t,
      ess_gas_limit = eip1559_gas_limit t, ess_gas_price = None, ess_max_fee_per_gas = Some (eip1559_max_fee t),
      ess_max_priority_fee_per_gas = Some (eip1559_max_priority_fee t), ess_max_fee_per_blob_gas = None,
      ess_blob_versioned_hashes = None, ess_value = eip1559_value t, ess_chain_id = Some (eip1559_chain_id t),
      ess_access_list = eip1559_access_list t\<rparr>"
| "essentials (EIP4844 v) =
     (let t = variant_tx v in
      \<lparr>ess_kind = Call (eip4844_to t), ess_input = eip4844_input t, ess_nonce = eip4844_nonce t,
       ess_gas_limit = eip4844_gas_limit t, ess_gas_price = None, ess_max_fee_per_gas = Some (eip4844_max_fee t),
       ess_max_priority_fee_per_gas = Some (eip4844_max_priority_fee t),
       ess_max_fee_per_blob_gas = Some (eip4844_max_fee_per_blob_gas t),
       ess_blob_versioned_hashes = Some (eip4844_blob_versioned_hashes t), ess_value = eip4844_value t,
       ess_chain_id = Some (eip4844_chain_id t), ess_access_list = eip4844_access_list t\<rparr>)"
| "essentials (EIP7702 t) =
     \<lparr>ess_kind = Call (eip7702_to t), ess_input = eip7702_input t, ess_nonce = eip7702_nonce t,
      ess_gas_limit = eip7702_gas_limit t, ess_gas_price = None, ess_max_fee_per_gas = Some (eip7702_max_fee t),
      ess_max_priority_fee_per_gas = Some (eip7702_max_priority_fee t), ess_max_fee_per_blob_gas = None,
      ess_blob_versioned_hashes = None, ess_value = eip7702_value t, ess_chain_id = Some (eip7702_chain_id t),
      ess_access_list = eip7702_access_list t\<rparr>"
| "essentials (Deposit t) =
     \<lparr>ess_kind = deposit_to t, ess_input = deposit_input t, ess_nonce = 0, ess_gas_limit = deposit_gas_limit t,
      ess_gas_price = Some 0, ess_max_fee_per_gas = None, ess_max_priority_fee_per_gas = None,
      ess_max_fee_per_blob_gas = None, ess_blob_versioned_hashes = None, ess_value = deposit_value t,
      ess_chain_id = deposit_chain_id t, ess_access_list = []\<rparr>"

section \<open>Pending transactions\<close>

record MaybeImpersonatedTransaction =
  mi_transaction :: TypedTransaction
  impersonated_sender :: "address option"

record PendingTransaction =
  maybe_transaction :: MaybeImpersonatedTransaction
  sender :: address
  pending_hash :: tx_hash

abbreviation typed_transaction :: "PendingTransaction \<Rightarrow> TypedTransaction" where
  "typed_transaction p \<equiv> mi_transaction (maybe_transaction p)"

record 'e signing_ops =
  recover_signer :: "TypedTransaction \<Rightarrow> 'e + address"
  signed_hash :: "TypedTransaction \<Rightarrow> tx_hash"
  impersonated_hash :: "TypedTransaction \<Rightarrow> address \<Rightarrow> tx_hash"

fun tx_recover :: "'e signing_ops \<Rightarrow> TypedTransaction \<Rightarrow> 'e + address" where
  "tx_recover ops (Deposit t) = Inr (deposit_from t)"
| "tx_recover ops t = recover_signer ops t"

definition maybe_recover :: "'e signing_ops \<Rightarrow> MaybeImpersonatedTransaction \<Rightarrow> 'e + address" where
  "maybe_recover ops m =
     (case impersonated_sender m of Some a \<Rightarrow> Inr a | None \<Rightarrow> tx_recover ops (mi_transaction m))"

definition maybe_hash :: "'e signing_ops \<Rightarrow> MaybeImpersonatedTransaction \<Rightarrow> tx_hash" where
  "maybe_hash ops m =
     (case impersonated_sender m of
        Some a \<Rightarrow> impersonated_hash ops (mi_transaction m) a
      | None \<Rightarrow> signed_hash ops (mi_transaction m))"

definition PendingTransaction_new :: "'e signing_ops \<Rightarrow> TypedTransaction \<Rightarrow> 'e + PendingTransaction" where
  "PendingTransaction_new ops t =
     (case tx_recover ops t of
        Inl e \<Rightarrow> Inl e
      | Inr a \<Rightarrow>
          Inr \<lparr>maybe_transaction = \<lparr>mi_transaction = t, impersonated_sender = None\<rparr>, sender = a,
               pending_hash = signed_hash ops t\<rparr>)"

definition with_impersonated :: "'e signing_ops \<Rightarrow> TypedTransaction \<Rightarrow> address \<Rightarrow> PendingTransaction" where
  "with_impersonated ops t a =
     \<lparr>maybe_transaction = \<lparr>mi_transaction = t, impersonated_sender = Some a\<rparr>, sender = a,
      pending_hash = impersonated_hash ops t a\<rparr>"

definition from_maybe_impersonated :: "'e signing_ops \<Rightarrow> MaybeImpersonatedTransaction \<Rightarrow> 'e + PendingTransaction" where
  "from_maybe_impersonated ops m =
     (case impersonated_sender m of
        Some a \<Rightarrow> Inr (with_impersonated ops (mi_transaction m) a)
      | None \<Rightarrow> PendingTransaction_new ops (mi_transaction m))"

section \<open>The environment of the EVM\<close>

record TxEnv =
  txe_caller :: address
  txe_kind :: TxKind
  txe_data :: bytes
  txe_chain_id :: "u64 option"
  txe_nonce :: u64
  txe_value :: u256
  txe_gas_price :: u128
  txe_gas_priority_fee :: "u128 option"
  txe_gas_limit :: u64
  txe_access_list :: access_list
  txe_tx_type :: u8
  txe_max_fee_per_blob_gas :: u128
  txe_blob_hashes :: "b256 list"
  txe_authorization_list :: "SignedAuthorization list"

record DepositTransactionParts =
  dtp_source_hash :: b256
  dtp_mint :: "u128 option"
  dtp_is_system_transaction :: bool

record OpTransaction =
  op_base :: TxEnv
  op_deposit :: "DepositTransactionParts option"
  op_enveloped_tx :: "bytes option"

text \<open>\<open>OpTransaction::new\<close>: no deposit. The remaining fields of \<open>TxEnv\<close> are its defaults.\<close>

definition OpTransaction_new :: "TxEnv \<Rightarrow> OpTransaction" where
  "OpTransaction_new e = \<lparr>op_base = e, op_deposit = None, op_enveloped_tx = None\<rparr>"

fun typed_to_revm :: "address \<Rightarrow> TypedTransaction \<Rightarrow> OpTransaction" where
  "typed_to_revm caller (Legacy t) = OpTransaction_new
     \<lparr>txe_caller = caller, txe_kind = legacy_to t, txe_data = legacy_input t, txe_chain_id = legacy_chain_id t,
      txe_nonce = legacy_nonce t, txe_value = legacy_value t, txe_gas_price = legacy_gas_price t,
      txe_gas_priority_fee = None, txe_gas_limit = legacy_gas_limit t, txe_access_list = [], txe_tx_type = 0,
      txe_max_fee_per_blob_gas = 0, txe_blob_hashes = [], txe_authorization_list = []\<rparr>"
| "typed_to_revm caller (EIP2930 t) = OpTransaction_new
     \<lparr>txe_caller = caller, txe_kind = eip2930_to t, txe_data = eip2930_input t,
      txe_chain_id = Some (eip2930_chain_id t), txe_nonce = eip2930_nonce t, txe_value = eip2930_value t,
      txe_gas_price = eip2930_gas_price t, txe_gas_priority_fee = None, txe_gas_limit = eip2930_gas_limit t,
      txe_access_list = eip2930_access_list t, txe_tx_type = 1,
      txe_max_fee_per_blob_gas = 0, txe_blob_hashes = [], txe_authorization_list = []\<rparr>"
| "typed_to_revm caller (EIP1559 t) = OpTransaction_new
     \<lparr>txe_caller = caller, txe_kind = eip1559_to t, txe_data = eip1559_input t,
      txe_chain_id = Some (eip1559_chain_id t), txe_nonce = eip1559_nonce t, txe_value = eip1559_value t,
      txe_gas_price = eip1559_max_fee t, txe_gas_priority_fee = Some (eip1559_max_priority_fee t),
      txe_gas_limit = eip1559_gas_limit t, txe_access_list = eip1559_access_list t, txe_tx_type = 2,
      txe_max_fee_per_blob_gas = 0, txe_blob_hashes = [], txe_authorization_list = []\<rparr>"
| "typed_to_revm caller (EIP4844 v) =
     (let t = variant_tx v in OpTransaction_new
     \<lparr>txe_caller = caller, txe_kind = Call (eip4844_to t), txe_data = eip4844_input t,
      txe_chain_id = Some (eip4844_chain_id t), txe_nonce = eip4844_nonce t, txe_value = eip4844_value t,
      txe_gas_price = eip4844_max_fee t, txe_gas_priority_fee = Some (eip4844_max_priority_fee t),
      txe_gas_limit = eip4844_gas_limit t, txe_access_list = eip4844_access_list t, txe_tx_type = 3,
      txe_max_fee_per_blob_gas = eip4844_max_fee_per_blob_gas t, txe_blob_hashes = eip4844_blob_versioned_hashes t,
      txe_authorization_list = []\<rparr>)"
| "typed_to_revm caller (EIP7702 t) = OpTransaction_new
     \<lparr>txe_caller = caller, txe_kind = Call (eip7702_to t), txe_data = eip7702_input t,
      txe_chain_id = Some (eip7702_chain_id t), txe_nonce = eip7702_nonce t, txe_value = eip7702_value t,
      txe_gas_price = eip7702_max_fee t, txe_gas_priority_fee = Some (eip7702_max_priority_fee t),
      txe_gas_limit = eip7702_gas_limit t, txe_access_list = eip7702_access_list t, txe_tx_type = 4,
      txe_max_fee_per_blob_gas = 0, txe_blob_hashes = [], txe_authorization_list = eip7702_authorization_list t\<rparr>"
| "typed_to_revm caller (Deposit t) =
     \<lparr>op_base =
        \<lparr>txe_caller = caller, txe_kind = deposit_to t, txe_data = deposit_input t, txe_chain_id = deposit_chain_id t,
         txe_nonce = 0, txe_value = deposit_value t, txe_gas_price = 0, txe_gas_priority_fee = None,
         txe_gas_limit = deposit_gas_limit t, txe_access_list = [], txe_tx_type = 0x7E,
         txe_max_fee_per_blob_gas = 0, txe_blob_hashes = [], txe_authorization_list = []\<rparr>,
      op_deposit = Some \<lparr>dtp_source_hash = deposit_source_hash t, dtp_mint = Some (deposit_mint t),
        dtp_is_system_transaction = deposit_is_system_transaction t\<rparr>,
      op_enveloped_tx = None\<rparr>"

definition to_revm_tx_env :: "PendingTransaction \<Rightarrow> OpTransaction" where
  "to_revm_tx_env p = typed_to_revm (sender p) (typed_transaction p)"

section \<open>Requests\<close>

text \<open>
  \<open>req_input\<close> is what \<open>into_input\<close> of the request returns. The fields of \<open>OtherFields\<close> are absent, fail to
  deserialize or have a value.
\<close>

record 'e TransactionRequest =
  req_from :: "address option"
  req_to :: "TxKind option"
  req_gas_price :: "u128 option"
  req_max_fee_per_gas :: "u128 option"
  req_max_priority_fee_per_gas :: "u128 option"
  req_max_fee_per_blob_gas :: "u128 option"
  req_blob_versioned_hashes :: "b256 list option"
  req_gas :: "u64 option"
  req_value :: "u256 option"
  req_input :: "bytes option"
  req_nonce :: "u64 option"
  req_access_list :: "access_list option"
  req_sidecar :: "BlobTransactionSidecar option"
  req_transaction_type :: "u8 option"
  req_authorization_list :: "SignedAuthorization list option"
  other_source_hash :: "('e + b256) option"
  other_mint :: "('e + u256) option"
  other_is_system_tx :: "('e + bool) option"

datatype TypedTransactionRequest =
    ReqLegacy TxLegacy
  | ReqEIP2930 TxEip2930
  | ReqEIP1559 TxEip1559
  | ReqEIP7702 TxEip7702
  | ReqEIP4844 TxEip4844Variant
  | ReqDeposit TxDeposit

definition or_zero :: "'a::zero option \<Rightarrow> 'a" where
  "or_zero x = (case x of Some v \<Rightarrow> v | None \<Rightarrow> 0)"

definition or_empty :: "'a list option \<Rightarrow> 'a list" where
  "or_empty x = (case x of Some v \<Rightarrow> v | None \<Rightarrow> [])"

definition or_create :: "TxKind option \<Rightarrow> TxKind" where
  "or_create x = (case x of Some k \<Rightarrow> k | None \<Rightarrow> Create)"

definition has_optimism_fields :: "'e TransactionRequest \<Rightarrow> bool" where
  "has_optimism_fields r \<longleftrightarrow> other_source_hash r \<noteq> None \<and> other_mint r \<noteq> None \<and> other_is_system_tx r \<noteq> None"

text \<open>
  The deposit branch. \<open>None\<close> is the panic of the conversion to \<open>u128\<close>, \<open>Some None\<close> the missing field.
  The chain id and the blob gas that a built structure has are parameters.
\<close>

definition request_to_deposit ::
    "u64 option \<Rightarrow> 'e TransactionRequest \<Rightarrow> TypedTransactionRequest option option" where
  "request_to_deposit deposit_chain r =
     (case other_mint r of
        Some (Inr m) \<Rightarrow>
          if 2 ^ 128 \<le> unat m then None
          else
            (case (other_source_hash r, other_is_system_tx r) of
               (Some (Inr h), Some (Inr sys)) \<Rightarrow>
                 Some (Some (ReqDeposit
                   \<lparr>deposit_source_hash = h, deposit_from = or_zero (req_from r), deposit_to = or_create (req_to r),
                    deposit_mint = ucast m, deposit_value = or_zero (req_value r), deposit_gas_limit = or_zero (req_gas r),
                    deposit_is_system_transaction = sys, deposit_input = or_empty (req_input r),
                    deposit_chain_id = deposit_chain\<rparr>))
             | _ \<Rightarrow> Some None)
      | _ \<Rightarrow> Some None)"

definition request_to_7702 :: "'e TransactionRequest \<Rightarrow> TypedTransactionRequest option" where
  "request_to_7702 r =
     (case req_to r of
        Some (Call a) \<Rightarrow>
          Some (ReqEIP7702
            \<lparr>eip7702_chain_id = 0, eip7702_nonce = or_zero (req_nonce r), eip7702_gas_limit = or_zero (req_gas r),
             eip7702_max_fee = or_zero (req_max_fee_per_gas r),
             eip7702_max_priority_fee = or_zero (req_max_priority_fee_per_gas r), eip7702_to = a,
             eip7702_value = or_zero (req_value r), eip7702_access_list = or_empty (req_access_list r),
             eip7702_authorization_list = or_empty (req_authorization_list r), eip7702_input = or_empty (req_input r)\<rparr>)
      | _ \<Rightarrow> None)"

definition request_to_legacy :: "'e TransactionRequest \<Rightarrow> TypedTransactionRequest" where
  "request_to_legacy r = ReqLegacy
     \<lparr>legacy_chain_id = None, legacy_nonce = or_zero (req_nonce r), legacy_gas_price = or_zero (req_gas_price r),
      legacy_gas_limit = or_zero (req_gas r), legacy_to = or_create (req_to r), legacy_value = or_zero (req_value r),
      legacy_input = or_empty (req_input r)\<rparr>"

definition request_to_2930 :: "'e TransactionRequest \<Rightarrow> TypedTransactionRequest" where
  "request_to_2930 r = ReqEIP2930
     \<lparr>eip2930_chain_id = 0, eip2930_nonce = or_zero (req_nonce r), eip2930_gas_price = or_zero (req_gas_price r),
      eip2930_gas_limit = or_zero (req_gas r), eip2930_to = or_create (req_to r), eip2930_value = or_zero (req_value r),
      eip2930_access_list = or_empty (req_access_list r), eip2930_input = or_empty (req_input r)\<rparr>"

definition request_to_1559 :: "'e TransactionRequest \<Rightarrow> TypedTransactionRequest" where
  "request_to_1559 r = ReqEIP1559
     \<lparr>eip1559_chain_id = 0, eip1559_nonce = or_zero (req_nonce r), eip1559_gas_limit = or_zero (req_gas r),
      eip1559_max_fee = or_zero (req_max_fee_per_gas r),
      eip1559_max_priority_fee = or_zero (req_max_priority_fee_per_gas r), eip1559_to = or_create (req_to r),
      eip1559_value = or_zero (req_value r), eip1559_access_list = or_empty (req_access_list r),
      eip1559_input = or_empty (req_input r)\<rparr>"

definition request_to_4844 :: "(b256 list \<Rightarrow> u64) \<Rightarrow> 'e TransactionRequest \<Rightarrow> TypedTransactionRequest" where
  "request_to_4844 gas_of_blobs r =
     (let tx =
        \<lparr>eip4844_chain_id = 0, eip4844_nonce = or_zero (req_nonce r), eip4844_gas_limit = or_zero (req_gas r),
         eip4844_max_fee = or_zero (req_max_fee_per_gas r),
         eip4844_max_priority_fee = or_zero (req_max_priority_fee_per_gas r),
         eip4844_to = (case or_create (req_to r) of Call a \<Rightarrow> a | Create \<Rightarrow> 0), eip4844_value = or_zero (req_value r),
         eip4844_access_list = or_empty (req_access_list r),
         eip4844_blob_versioned_hashes = or_empty (req_blob_versioned_hashes r),
         eip4844_max_fee_per_blob_gas = or_zero (req_max_fee_per_blob_gas r), eip4844_input = or_empty (req_input r),
         eip4844_blob_gas = gas_of_blobs (or_empty (req_blob_versioned_hashes r))\<rparr>
      in ReqEIP4844 (case req_sidecar r of Some s \<Rightarrow> TxEip4844WithSidecar tx s | None \<Rightarrow> PlainTxEip4844 tx))"

definition transaction_request_to_typed ::
    "u64 option \<Rightarrow> (b256 list \<Rightarrow> u64) \<Rightarrow> 'e TransactionRequest \<Rightarrow> TypedTransactionRequest option option" where
  "transaction_request_to_typed deposit_chain gas_of_blobs r =
     (let ty = req_transaction_type r; price = req_gas_price r; fee = req_max_fee_per_gas r;
          tip = req_max_priority_fee_per_gas r; al = req_access_list r; blob_fee = req_max_fee_per_blob_gas r;
          blobs = req_blob_versioned_hashes r; sidecar = req_sidecar r
      in if ty = Some 0x7E \<or> has_optimism_fields r then request_to_deposit deposit_chain r
         else if ty = Some 4 \<or> req_authorization_list r \<noteq> None then Some (request_to_7702 r)
         else if (ty = Some 0 \<or> ty = None \<and> price \<noteq> None) \<and> fee = None \<and> tip = None \<and> al = None \<and> blob_fee = None \<and>
             blobs = None \<and> sidecar = None
         then Some (Some (request_to_legacy r))
         else if (ty = Some 1 \<or> ty = None \<and> al \<noteq> None) \<and> fee = None \<and> tip = None \<and> blob_fee = None \<and> blobs = None \<and>
             sidecar = None
         then Some (Some (request_to_2930 r))
         else if (ty = Some 2 \<or> ty = None \<and> (fee \<noteq> None \<or> tip \<noteq> None \<or> fee = None \<and> tip = None \<and> al = None)) \<and>
             price = None \<and> blobs = None \<and> sidecar = None
         then Some (Some (request_to_1559 r))
         else if ty = Some 3 \<and> price = None \<and> blobs \<noteq> None
         then Some (Some (request_to_4844 gas_of_blobs r))
         else Some None)"

fun request_type :: "TypedTransactionRequest \<Rightarrow> u8" where
  "request_type (ReqLegacy t) = 0"
| "request_type (ReqEIP2930 t) = 1"
| "request_type (ReqEIP1559 t) = 2"
| "request_type (ReqEIP4844 t) = 3"
| "request_type (ReqEIP7702 t) = 4"
| "request_type (ReqDeposit t) = 0x7E"

section \<open>Properties\<close>

text \<open>
  C36. The type a request asks for is the type it gets, unless it carries an authorization list or the
  fields of a deposit, which take precedence. A request that names no type gets the newest type that
  its fields determine.
\<close>

theorem request_type_respected:
  assumes "transaction_request_to_typed deposit_chain gas_of_blobs r = Some (Some t)"
  shows "request_type t =
    (if req_transaction_type r = Some 0x7E \<or> has_optimism_fields r then 0x7E
     else if req_transaction_type r = Some 4 \<or> req_authorization_list r \<noteq> None then 4
     else case req_transaction_type r of
       Some ty \<Rightarrow> ty
     | None \<Rightarrow> if req_max_fee_per_gas r \<noteq> None \<or> req_max_priority_fee_per_gas r \<noteq> None then 2
         else if req_access_list r \<noteq> None then 1
         else if req_gas_price r \<noteq> None then 0 else 2)"
proof -
  have "request_type t = 0x7E" if "request_to_deposit deposit_chain r = Some (Some t)"
    using that by (auto simp: request_to_deposit_def split: option.splits sum.splits if_splits)
  moreover have "request_type t = 4" if "request_to_7702 r = Some t"
    using that by (auto simp: request_to_7702_def split: option.splits TxKind.splits)
  moreover have "request_type (request_to_legacy r) = 0" "request_type (request_to_2930 r) = 1"
    "request_type (request_to_1559 r) = 2" "request_type (request_to_4844 gas_of_blobs r) = 3"
    by (simp_all add: request_to_legacy_def request_to_2930_def request_to_1559_def request_to_4844_def Let_def)
  ultimately show ?thesis
    using assms unfolding transaction_request_to_typed_def Let_def
    by (cases "req_transaction_type r"; simp split: if_split_asm; fastforce)
qed

definition sample_request :: "unit TransactionRequest" where
  "sample_request =
     \<lparr>req_from = Some 7, req_to = Some (Call 1), req_gas_price = Some 5, req_max_fee_per_gas = None,
      req_max_priority_fee_per_gas = None, req_max_fee_per_blob_gas = None, req_blob_versioned_hashes = None,
      req_gas = Some 21000, req_value = None, req_input = None, req_nonce = Some 2, req_access_list = Some [],
      req_sidecar = None, req_transaction_type = None, req_authorization_list = None, other_source_hash = None,
      other_mint = None, other_is_system_tx = None\<rparr>"

theorem request_type_respected_witness: "request_type (request_to_2930 sample_request) = 1"
proof -
  have "transaction_request_to_typed None (\<lambda>_. 0) sample_request = Some (Some (request_to_2930 sample_request))"
    by (simp add: transaction_request_to_typed_def sample_request_def has_optimism_fields_def)
  from request_type_respected [OF this] show ?thesis
    by (simp add: sample_request_def has_optimism_fields_def)
qed

lemma revm_fields:
  "txe_caller (op_base (typed_to_revm a t)) = a"
  "txe_kind (op_base (typed_to_revm a t)) = tx_kind t"
  "txe_data (op_base (typed_to_revm a t)) = tx_data t"
  "txe_nonce (op_base (typed_to_revm a t)) = tx_nonce t"
  "txe_value (op_base (typed_to_revm a t)) = tx_value t"
  "txe_gas_limit (op_base (typed_to_revm a t)) = tx_gas_limit t"
  "txe_gas_price (op_base (typed_to_revm a t)) = gas_price t"
  "txe_chain_id (op_base (typed_to_revm a t)) = tx_chain_id t"
  "txe_tx_type (op_base (typed_to_revm a t)) = or_zero (tx_type t)"
  "txe_access_list (op_base (typed_to_revm a t)) = ess_access_list (essentials t)"
  "txe_gas_priority_fee (op_base (typed_to_revm a t)) = ess_max_priority_fee_per_gas (essentials t)"
  by (cases t; simp add: OpTransaction_new_def Let_def or_zero_def)+

lemma essentials_fields:
  "ess_kind (essentials t) = tx_kind t"
  "ess_input (essentials t) = tx_data t"
  "ess_nonce (essentials t) = tx_nonce t"
  "ess_value (essentials t) = tx_value t"
  "ess_gas_limit (essentials t) = tx_gas_limit t"
  "ess_chain_id (essentials t) = tx_chain_id t"
  "ess_max_fee_per_blob_gas (essentials t) = max_fee_per_blob_gas t"
  by (cases t; simp add: Let_def)+

text \<open>The accessors, the essentials and the environment of the EVM agree on every variant.\<close>

theorem tx_env_agrees:
  "let e = op_base (to_revm_tx_env p); t = typed_transaction p; es = essentials t in
   txe_caller e = sender p \<and> txe_kind e = tx_kind t \<and> txe_data e = tx_data t \<and> txe_nonce e = tx_nonce t \<and>
   txe_value e = tx_value t \<and> txe_gas_limit e = tx_gas_limit t \<and> txe_gas_price e = gas_price t \<and>
   txe_chain_id e = tx_chain_id t \<and> txe_tx_type e = or_zero (tx_type t) \<and>
   ess_kind es = txe_kind e \<and> ess_input es = txe_data e \<and> ess_nonce es = txe_nonce e \<and> ess_value es = txe_value e \<and>
   ess_gas_limit es = txe_gas_limit e \<and> ess_chain_id es = txe_chain_id e \<and> ess_access_list es = txe_access_list e \<and>
   ess_max_priority_fee_per_gas es = txe_gas_priority_fee e \<and>
   ess_max_fee_per_blob_gas es = max_fee_per_blob_gas t"
  by (simp add: to_revm_tx_env_def revm_fields essentials_fields Let_def)

text \<open>
  The largest cost of a transaction saturates, but its blob part is reduced modulo \<open>2 ^ 128\<close> before it is
  added, so a blob fee can be chosen for which it vanishes.
\<close>

lemma unat_saturating_mul:
  "unat (saturating_mul a (b :: 'a::len word)) = min (unat a * unat b) (2 ^ LENGTH('a) - 1)"
proof (cases "unat a * unat b < 2 ^ LENGTH('a)")
  case True
  then have "unat (a * b) = unat a * unat b" "unat a * unat b \<le> 2 ^ LENGTH('a) - 1"
    by (simp_all add: unat_word_ariths)
  with True show ?thesis by (simp only: saturating_mul_def min_absorb1 if_True)
next
  case False
  then have "2 ^ LENGTH('a) - 1 \<le> unat a * unat b" by linarith
  with False show ?thesis by (simp only: saturating_mul_def unat_max_word min_absorb2 if_False)
qed

lemma unat_ucast_u128: "unat (ucast w :: u128) = unat (w :: u64)"
  using unat_below [of w] by (simp add: unsigned_ucast_eq take_bit_nat_eq_self)

lemma min_plus_min: "min (min a m + b) m = min m (a + b)" for a b m :: nat
  by (simp add: min_def)

lemma max_cost_value:
  "unat (max_cost t) = min (2 ^ 128 - 1)
     (unat (tx_gas_limit t) * unat (gas_price t) +
      (case (blob_gas t, max_fee_per_blob_gas t) of
         (Some g, Some f) \<Rightarrow> (unat g * unat f) mod 2 ^ 128
       | _ \<Rightarrow> 0))"
proof -
  have gas: "unat (saturating_mul (ucast (tx_gas_limit t)) (gas_price t)) =
      min (unat (tx_gas_limit t) * unat (gas_price t)) (2 ^ 128 - 1)"
    by (simp add: unat_saturating_mul unat_ucast_u128)
  show ?thesis
  proof (cases "tx_is_eip4844 t")
    case True
    then obtain v where t: "t = EIP4844 v" by (cases t) auto
    let ?g = "eip4844_blob_gas (variant_tx v)" and ?f = "eip4844_max_fee_per_blob_gas (variant_tx v)"
    have blob: "unat ((ucast ?g :: u128) * ?f) = (unat ?g * unat ?f) mod 2 ^ 128"
      by (simp add: unat_word_ariths unat_ucast_u128)
    have "max_cost t = saturating_add (saturating_mul (ucast (tx_gas_limit t)) (gas_price t)) (ucast ?g * ?f)"
      unfolding t by (simp add: max_cost_def Let_def)
    then have "unat (max_cost t) =
        min (unat (saturating_mul (ucast (tx_gas_limit t)) (gas_price t)) + unat ((ucast ?g :: u128) * ?f)) (2 ^ 128 - 1)"
      by (simp add: unat_saturating_add)
    also have "\<dots> = min (2 ^ 128 - 1) (unat (tx_gas_limit t) * unat (gas_price t) + (unat ?g * unat ?f) mod 2 ^ 128)"
      unfolding gas blob by (rule min_plus_min)
    finally show ?thesis by (simp only: t blob_gas.simps max_fee_per_blob_gas.simps prod.case option.case)
  next
    case False
    then have "blob_gas t = None" by (cases t) auto
    moreover have "max_cost t = saturating_mul (ucast (tx_gas_limit t)) (gas_price t)"
      using False by (simp add: max_cost_def)
    ultimately show ?thesis using gas by (simp add: min.commute)
  qed
qed

text \<open>A plain transfer, for the examples of the components.\<close>

definition sample_legacy :: "u128 \<Rightarrow> u64 \<Rightarrow> TypedTransaction" where
  "sample_legacy price nonce = Legacy
     \<lparr>legacy_chain_id = None, legacy_nonce = nonce, legacy_gas_price = price, legacy_gas_limit = 21000,
      legacy_to = Call 1, legacy_value = 0, legacy_input = []\<rparr>"

definition sample_pending :: "u128 \<Rightarrow> u64 \<Rightarrow> tx_hash \<Rightarrow> PendingTransaction" where
  "sample_pending price nonce h =
     \<lparr>maybe_transaction = \<lparr>mi_transaction = sample_legacy price nonce, impersonated_sender = None\<rparr>, sender = 7,
      pending_hash = h\<rparr>"

lemma sample_pending_simps [simp]:
  "typed_transaction (sample_pending price nonce h) = sample_legacy price nonce"
  "sender (sample_pending price nonce h) = 7" "pending_hash (sample_pending price nonce h) = h"
  "gas_price (sample_legacy price nonce) = price" "tx_gas_limit (sample_legacy price nonce) = 21000"
  "tx_nonce (sample_legacy price nonce) = nonce"
  by (simp_all add: sample_pending_def sample_legacy_def)

lemma sample_legacy_eq: "sample_legacy p n = sample_legacy p' n' \<longleftrightarrow> p = p' \<and> n = n'"
  by (auto simp: sample_legacy_def)

lemma sample_pending_eq: "sample_pending p n h = sample_pending p' n' h' \<longleftrightarrow> p = p' \<and> n = n' \<and> h = h'"
  by (auto simp: sample_pending_def sample_legacy_eq)

end
