(* ===== verification/Pool_Types.thy ===== *)
theory Pool_Types
  imports Transactions
begin

text \<open>
  What the mempool handles: \<open>PoolTransaction\<close>, its markers and priorities
  (anvil/src/eth/pool/transactions.rs) and how the RPC layer builds one.
\<close>

section \<open>Markers\<close>

type_synonym tx_marker = bytes

definition le_bytes :: "nat \<Rightarrow> 'a::len word \<Rightarrow> bytes" where
  "le_bytes n w = map (\<lambda>i. ucast (drop_bit (8 * i) w)) [0..<n]"

definition to_marker :: "u64 \<Rightarrow> address \<Rightarrow> tx_marker" where
  "to_marker nonce from = le_bytes 8 nonce @ rev (le_bytes 20 from)"

lemma length_le_bytes [simp]: "length (le_bytes n w) = n"
  by (simp add: le_bytes_def)

lemma le_bytes_inject:
  fixes v w :: "'a::len word"
  assumes "LENGTH('a) \<le> 8 * n" and "le_bytes n v = le_bytes n w"
  shows "v = w"
proof (rule bit_eqI)
  fix k
  assume "possible_bit TYPE('a word) k"
  then have k: "k < LENGTH('a)" by simp
  then have i: "k div 8 < n" using assms(1) by simp
  then have "le_bytes n v ! (k div 8) = le_bytes n w ! (k div 8)" using assms(2) by simp
  then have "(ucast (drop_bit (8 * (k div 8)) v) :: u8) = ucast (drop_bit (8 * (k div 8)) w)"
    using i by (simp add: le_bytes_def)
  then have "bit (ucast (drop_bit (8 * (k div 8)) v) :: u8) (k mod 8) =
             bit (ucast (drop_bit (8 * (k div 8)) w) :: u8) (k mod 8)" by simp
  then show "bit v k = bit w k"
    by (simp add: bit_ucast_iff bit_drop_bit_eq)
qed

section \<open>Pool transactions\<close>

datatype TransactionOrder = Fifo | Fees

fun order_priority :: "TransactionOrder \<Rightarrow> TypedTransaction \<Rightarrow> u128" where
  "order_priority Fifo tx = 0"
| "order_priority Fees tx = gas_price tx"

record PoolTransaction =
  pending_transaction :: PendingTransaction
  requires :: "tx_marker list"
  provides :: "tx_marker list"
  priority :: u128

definition PoolTransaction_new :: "PendingTransaction \<Rightarrow> PoolTransaction" where
  "PoolTransaction_new tx =
     \<lparr>pending_transaction = tx, requires = [], provides = [], priority = 0\<rparr>"

definition tx_hash_of :: "PoolTransaction \<Rightarrow> tx_hash" where
  "tx_hash_of tx = pending_hash (pending_transaction tx)"

definition tx_gas_price :: "PoolTransaction \<Rightarrow> u128" where
  "tx_gas_price tx = gas_price (typed_transaction (pending_transaction tx))"

datatype PoolError =
    CyclicTransaction
  | ReplacementUnderpriced PoolTransaction
  | AlreadyImported PoolTransaction

text \<open>
  The RPC layer (\<open>EthApi::required_marker\<close>, anvil/src/eth/api.rs) gives a transaction with a
  nonce above the account's on-chain nonce the marker of the preceding nonce as its only
  requirement.
\<close>

definition required_marker :: "u64 \<Rightarrow> u64 \<Rightarrow> address \<Rightarrow> tx_marker list" where
  "required_marker provided_nonce on_chain_nonce from =
     (if provided_nonce = on_chain_nonce then []
      else let prev_nonce = saturating_sub provided_nonce 1
           in if on_chain_nonce \<le> prev_nonce then [to_marker prev_nonce from] else [])"

text \<open>
  What the RPC layer submits (\<open>EthApi::add_pending_transaction\<close> with the markers its callers
  compute): the priority follows the configured order.
\<close>

definition rpc_pool_transaction ::
    "TransactionOrder \<Rightarrow> PendingTransaction \<Rightarrow> u64 \<Rightarrow> u64 \<Rightarrow> PoolTransaction" where
  "rpc_pool_transaction order pending nonce on_chain_nonce =
     \<lparr>pending_transaction = pending,
      requires = required_marker nonce on_chain_nonce (sender pending),
      provides = [to_marker nonce (sender pending)],
      priority = order_priority order (typed_transaction pending)\<rparr>"

text \<open>
  Well-formed pool transactions: what the RPC layer constructs. The markers it provides are
  distinct and it does not require a marker it provides itself.
\<close>

definition wf_pool_tx :: "PoolTransaction \<Rightarrow> bool" where
  "wf_pool_tx tx \<longleftrightarrow> distinct (provides tx) \<and> set (requires tx) \<inter> set (provides tx) = {}"

section \<open>Properties\<close>

lemma to_marker_inject_iff: "to_marker n a = to_marker n' a' \<longleftrightarrow> n = n' \<and> a = a'"
proof
  assume "to_marker n a = to_marker n' a'"
  then have "le_bytes 8 n = le_bytes 8 n'" "le_bytes 20 a = le_bytes 20 a'"
    by (auto simp: to_marker_def)
  then show "n = n' \<and> a = a'" by (auto dest: le_bytes_inject [rotated])
qed simp

lemma required_marker_below:
  assumes "m \<in> set (required_marker n c a)"
  shows "\<exists>k. m = to_marker k a \<and> k < n"
proof -
  from assms have n: "n \<noteq> c" "c \<le> saturating_sub n 1" and m: "m = to_marker (saturating_sub n 1) a"
    by (auto simp: required_marker_def Let_def split: if_splits)
  have "n \<noteq> 0" using n by (auto simp: saturating_sub_def)
  then have "0 < unat n" by (simp add: unat_gt_0)
  then have "saturating_sub n 1 < n" by (simp add: word_less_nat_alt unat_saturating_sub)
  with m show ?thesis by blast
qed

lemma rpc_tx_wf: "wf_pool_tx (rpc_pool_transaction order p n c)"
proof -
  have "to_marker n (sender p) \<notin> set (required_marker n c (sender p))"
    using required_marker_below [of "to_marker n (sender p)" n c "sender p"]
    by (auto simp: to_marker_inject_iff)
  then show ?thesis by (simp add: wf_pool_tx_def rpc_pool_transaction_def)
qed

end
