(* ===== verification/Pending_Pool.thy ===== *)
theory Pending_Pool
  imports Pool_Types
begin

text \<open>
  The waiting half of the mempool: \<open>PendingPoolTransaction\<close> and \<open>PendingTransactions\<close> of
  anvil/src/eth/pool/transactions.rs, their bookkeeping invariant, and the proof that every
  operation keeps it and never runs into the \<open>assert!\<close>s and \<open>expect\<close>s of the source.
  The insertion time \<open>added_at\<close> of a pending transaction is only printed and is left out.
\<close>

section \<open>State\<close>

record PendingPoolTransaction =
  pool_tx :: PoolTransaction
  missing_markers :: "tx_marker fset"

record PendingTransactions =
  required_markers :: "(tx_marker, tx_hash fset) fmap"
  waiting_markers :: "(tx_marker list, tx_hash) fmap"
  waiting_queue :: "(tx_hash, PendingPoolTransaction) fmap"

section \<open>Operations\<close>

definition PendingPoolTransaction_new ::
    "PoolTransaction \<Rightarrow> (tx_marker, tx_hash) fmap \<Rightarrow> PendingPoolTransaction" where
  "PendingPoolTransaction_new tx provided =
     \<lparr>pool_tx = tx,
      missing_markers = fset_of_list (filter (\<lambda>m. fmlookup provided m = None) (requires tx))\<rparr>"

definition mark :: "tx_marker \<Rightarrow> PendingPoolTransaction \<Rightarrow> PendingPoolTransaction" where
  "mark m tx = tx\<lparr>missing_markers := missing_markers tx |-| {|m|}\<rparr>"

definition is_ready :: "PendingPoolTransaction \<Rightarrow> bool" where
  "is_ready tx \<longleftrightarrow> missing_markers tx = {||}"

definition pending_empty :: PendingTransactions where
  "pending_empty =
     \<lparr>required_markers = fmempty, waiting_markers = fmempty, waiting_queue = fmempty\<rparr>"

definition pending_len :: "PendingTransactions \<Rightarrow> nat" where
  "pending_len P = fmsize (waiting_queue P)"

definition pending_is_empty :: "PendingTransactions \<Rightarrow> bool" where
  "pending_is_empty P \<longleftrightarrow> pending_len P = 0"

definition pending_clear :: "PendingTransactions \<Rightarrow> PendingTransactions" where
  "pending_clear P =
     P\<lparr>required_markers := fmempty, waiting_markers := fmempty, waiting_queue := fmempty\<rparr>"

definition pending_transactions_iter :: "hash_orders \<Rightarrow> PendingTransactions \<Rightarrow> PoolTransaction list" where
  "pending_transactions_iter ho P =
     map (\<lambda>h. pool_tx (the (fmlookup (waiting_queue P) h))) (hash_order ho (fmdom (waiting_queue P)))"

definition pending_contains :: "PendingTransactions \<Rightarrow> tx_hash \<Rightarrow> bool" where
  "pending_contains P h \<longleftrightarrow> fmlookup (waiting_queue P) h \<noteq> None"

definition pending_get :: "PendingTransactions \<Rightarrow> tx_hash \<Rightarrow> PendingPoolTransaction option" where
  "pending_get P h = fmlookup (waiting_queue P) h"

text \<open>\<open>required_markers.entry(marker).or_default().insert(hash)\<close> for each missing marker.\<close>

fun require_markers ::
    "tx_hash \<Rightarrow> tx_marker list \<Rightarrow> (tx_marker, tx_hash fset) fmap \<Rightarrow> (tx_marker, tx_hash fset) fmap" where
  "require_markers h [] r = r"
| "require_markers h (m # ms) r =
     require_markers h ms
       (fmupd m (finsert h (case fmlookup r m of None \<Rightarrow> {||} | Some s \<Rightarrow> s)) r)"

definition pending_add_transaction ::
    "hash_orders \<Rightarrow> PendingPoolTransaction \<Rightarrow> PendingTransactions
       \<Rightarrow> (PendingTransactions \<times> (PoolError + unit)) option" where
  "pending_add_transaction ho tx P =
     (let h = tx_hash_of (pool_tx tx) in
      if is_ready tx then None
      else if fmlookup (waiting_queue P) h \<noteq> None then None
      else
        case Option.bind (fmlookup (waiting_markers P) (provides (pool_tx tx)))
               (fmlookup (waiting_queue P)) of
          Some replace \<Rightarrow>
            if tx_gas_price (pool_tx tx) < tx_gas_price (pool_tx replace)
            then Some (P, Inl (ReplacementUnderpriced (pool_tx tx)))
            else Some (P\<lparr>required_markers :=
                           require_markers h (marker_order ho (missing_markers tx)) (required_markers P),
                         waiting_markers := fmupd (provides (pool_tx tx)) h (waiting_markers P),
                         waiting_queue := fmupd h tx (waiting_queue P)\<rparr>, Inr ())
        | None \<Rightarrow>
            Some (P\<lparr>required_markers :=
                      require_markers h (marker_order ho (missing_markers tx)) (required_markers P),
                    waiting_markers := fmupd (provides (pool_tx tx)) h (waiting_markers P),
                    waiting_queue := fmupd h tx (waiting_queue P)\<rparr>, Inr ()))"

text \<open>The inner loop of \<open>mark_and_unlock\<close>: the transactions waiting for one marker.\<close>

fun mark_hashes ::
    "tx_marker \<Rightarrow> tx_hash list \<Rightarrow> PendingTransactions
       \<Rightarrow> (PendingPoolTransaction list \<times> PendingTransactions) option" where
  "mark_hashes m [] P = Some ([], P)"
| "mark_hashes m (h # hs) P =
     (case fmlookup (waiting_queue P) h of
        None \<Rightarrow> None
      | Some tx0 \<Rightarrow>
          let tx = mark m tx0 in
          if is_ready tx
          then map_option (\<lambda>(txs, P'). (tx # txs, P'))
                 (mark_hashes m hs
                    (P\<lparr>waiting_markers := fmdrop (provides (pool_tx tx)) (waiting_markers P),
                       waiting_queue := fmdrop h (waiting_queue P)\<rparr>))
          else mark_hashes m hs (P\<lparr>waiting_queue := fmupd h tx (waiting_queue P)\<rparr>))"

fun mark_and_unlock ::
    "hash_orders \<Rightarrow> tx_marker list \<Rightarrow> PendingTransactions
       \<Rightarrow> (PendingPoolTransaction list \<times> PendingTransactions) option" where
  "mark_and_unlock ho [] P = Some ([], P)"
| "mark_and_unlock ho (m # ms) P =
     (case fmlookup (required_markers P) m of
        None \<Rightarrow> mark_and_unlock ho ms P
      | Some hs \<Rightarrow>
          (case mark_hashes m (hash_order ho hs)
                  (P\<lparr>required_markers := fmdrop m (required_markers P)\<rparr>) of
             None \<Rightarrow> None
           | Some (txs, P') \<Rightarrow>
               map_option (\<lambda>(txs', P''). (txs @ txs', P'')) (mark_and_unlock ho ms P')))"

text \<open>The bookkeeping of \<open>remove\<close>: the hash leaves the sets of the markers it was waiting for.\<close>

fun unrequire_markers ::
    "tx_hash \<Rightarrow> tx_marker list \<Rightarrow> (tx_marker, tx_hash fset) fmap \<Rightarrow> (tx_marker, tx_hash fset) fmap" where
  "unrequire_markers h [] r = r"
| "unrequire_markers h (m # ms) r =
     unrequire_markers h ms
       (case fmlookup r m of
          None \<Rightarrow> r
        | Some s \<Rightarrow> (if s |-| {|h|} = {||} then fmdrop m r else fmupd m (s |-| {|h|}) r))"

fun pending_remove ::
    "hash_orders \<Rightarrow> tx_hash list \<Rightarrow> PendingTransactions \<Rightarrow> PoolTransaction list \<times> PendingTransactions" where
  "pending_remove ho [] P = ([], P)"
| "pending_remove ho (h # hs) P =
     (case fmlookup (waiting_queue P) h of
        None \<Rightarrow> pending_remove ho hs P
      | Some tx \<Rightarrow>
          (let (removed, P') =
             pending_remove ho hs
               (P\<lparr>required_markers :=
                     unrequire_markers h (marker_order ho (missing_markers tx)) (required_markers P),
                   waiting_markers := fmdrop (provides (pool_tx tx)) (waiting_markers P),
                   waiting_queue := fmdrop h (waiting_queue P)\<rparr>)
           in (pool_tx tx # removed, P')))"

section \<open>The bookkeeping invariant\<close>

definition waits_for :: "(tx_marker, tx_hash fset) fmap \<Rightarrow> tx_marker \<Rightarrow> tx_hash \<Rightarrow> bool" where
  "waits_for r m h \<longleftrightarrow> (\<exists>s. fmlookup r m = Some s \<and> h |\<in>| s)"

definition no_empty_sets :: "(tx_marker, tx_hash fset) fmap \<Rightarrow> bool" where
  "no_empty_sets r \<longleftrightarrow> (\<forall>m. fmlookup r m \<noteq> Some {||})"

text \<open>
  Every waiting transaction is filed under its own hash and misses some marker that it requires;
  the index \<open>required_markers\<close> lists exactly the waiting transactions that miss a marker and has
  no empty entry.
\<close>

definition pending_inv :: "PendingTransactions \<Rightarrow> bool" where
  "pending_inv P \<longleftrightarrow>
     (\<forall>h tx. fmlookup (waiting_queue P) h = Some tx \<longrightarrow>
        tx_hash_of (pool_tx tx) = h \<and> \<not> is_ready tx \<and> wf_pool_tx (pool_tx tx)) \<and>
     (\<forall>m h. waits_for (required_markers P) m h \<longleftrightarrow>
        (\<exists>tx. fmlookup (waiting_queue P) h = Some tx \<and> m |\<in>| missing_markers tx)) \<and>
     no_empty_sets (required_markers P)"

lemma pending_inv_queueD:
  assumes "pending_inv P" and "fmlookup (waiting_queue P) h = Some tx"
  shows "tx_hash_of (pool_tx tx) = h" "\<not> is_ready tx" "wf_pool_tx (pool_tx tx)"
  using assms by (auto simp: pending_inv_def)

lemma pending_inv_waits:
  "pending_inv P \<Longrightarrow> waits_for (required_markers P) m h \<longleftrightarrow>
     (\<exists>tx. fmlookup (waiting_queue P) h = Some tx \<and> m |\<in>| missing_markers tx)"
  by (simp add: pending_inv_def)

lemma pending_inv_required:
  assumes "pending_inv P" and "fmlookup (required_markers P) m \<noteq> None"
  shows "\<exists>h. waits_for (required_markers P) m h"
proof -
  obtain s where s: "fmlookup (required_markers P) m = Some s" using assms(2) by blast
  moreover have "s \<noteq> {||}" using assms(1) s by (metis pending_inv_def no_empty_sets_def)
  ultimately show ?thesis by (auto simp: waits_for_def)
qed

lemma pending_inv_empty: "pending_inv pending_empty"
  by (simp add: pending_inv_def pending_empty_def waits_for_def no_empty_sets_def)

lemma pending_clear_eq: "pending_clear P = pending_empty"
  by (simp add: pending_clear_def pending_empty_def)

lemma pool_tx_mark [simp]: "pool_tx (mark m tx) = pool_tx tx"
  by (simp add: mark_def)

subsection \<open>The index\<close>

lemma waits_for_require_markers:
  "waits_for (require_markers h ms r) m h' \<longleftrightarrow> waits_for r m h' \<or> (h' = h \<and> m \<in> set ms)"
  by (induction ms arbitrary: r) (auto simp: waits_for_def split: option.splits)

lemma no_empty_sets_require_markers:
  "no_empty_sets r \<Longrightarrow> no_empty_sets (require_markers h ms r)"
  by (induction ms arbitrary: r) (auto simp: no_empty_sets_def)

lemma waits_for_unrequire_markers:
  "waits_for (unrequire_markers h ms r) m h' \<longleftrightarrow> waits_for r m h' \<and> \<not> (h' = h \<and> m \<in> set ms)"
proof (induction ms arbitrary: r)
  case (Cons k ms)
  show ?case
    unfolding unrequire_markers.simps Cons.IH
    by (fastforce simp: waits_for_def split: option.splits if_splits)
qed simp

lemma no_empty_sets_unrequire_markers:
  "no_empty_sets r \<Longrightarrow> no_empty_sets (unrequire_markers h ms r)"
proof (induction ms arbitrary: r)
  case (Cons k ms)
  from Cons.prems show ?case
    unfolding unrequire_markers.simps
    by (intro Cons.IH) (auto simp: no_empty_sets_def split: option.splits)
qed simp

section \<open>Adding and removing\<close>

lemma pending_add_transaction_ok:
  assumes inv: "pending_inv P" and ho: "hash_orders_ok ho"
    and wf: "wf_pool_tx (pool_tx tx)" and nr: "\<not> is_ready tx"
    and new: "fmlookup (waiting_queue P) (tx_hash_of (pool_tx tx)) = None"
  shows "\<exists>P' r. pending_add_transaction ho tx P = Some (P', r) \<and> pending_inv P' \<and>
           (case r of Inl e \<Rightarrow> P' = P \<and> e = ReplacementUnderpriced (pool_tx tx)
            | Inr _ \<Rightarrow> waiting_queue P' = fmupd (tx_hash_of (pool_tx tx)) tx (waiting_queue P) \<and>
                (\<forall>m. fmlookup (required_markers P') m \<noteq> None \<longrightarrow>
                   fmlookup (required_markers P) m \<noteq> None \<or> m |\<in>| missing_markers tx))"
proof -
  let ?h = "tx_hash_of (pool_tx tx)"
  let ?P' = "P\<lparr>required_markers :=
               require_markers ?h (marker_order ho (missing_markers tx)) (required_markers P),
             waiting_markers := fmupd (provides (pool_tx tx)) ?h (waiting_markers P),
             waiting_queue := fmupd ?h tx (waiting_queue P)\<rparr>"
  have inv': "pending_inv ?P'"
    using inv nr new wf
    by (auto simp: pending_inv_def waits_for_require_markers no_empty_sets_require_markers
        hash_orders_okD [OF ho])
  have dom: "fmlookup (required_markers P) m \<noteq> None \<or> m |\<in>| missing_markers tx"
    if "fmlookup (required_markers ?P') m \<noteq> None" for m
  proof -
    from pending_inv_required [OF inv' that] obtain h'
      where "waits_for (required_markers ?P') m h'" by blast
    then show ?thesis
      by (auto simp: waits_for_require_markers hash_orders_okD [OF ho]) (auto simp: waits_for_def)
  qed
  show ?thesis
    using inv inv' dom nr new
    by (auto simp: pending_add_transaction_def Let_def split: option.splits)
qed

lemma pending_remove_ok:
  assumes inv: "pending_inv P" and ho: "hash_orders_ok ho"
    and res: "pending_remove ho hs P = (removed, P')"
  shows "pending_inv P' \<and>
         (\<forall>h. fmlookup (waiting_queue P') h =
               (if h \<in> set hs then None else fmlookup (waiting_queue P) h)) \<and>
         set removed = {pool_tx tx |h tx. h \<in> set hs \<and> fmlookup (waiting_queue P) h = Some tx} \<and>
         (\<forall>m. fmlookup (required_markers P') m \<noteq> None \<longrightarrow> fmlookup (required_markers P) m \<noteq> None)"
  using inv res
proof (induction hs arbitrary: P removed P')
  case Nil
  then show ?case by simp
next
  case (Cons h hs)
  show ?case
  proof (cases "fmlookup (waiting_queue P) h")
    case None
    with Cons.prems have "pending_remove ho hs P = (removed, P')" by simp
    from Cons.IH [OF Cons.prems(1) this] None show ?thesis by auto
  next
    case (Some tx)
    let ?P1 = "P\<lparr>required_markers :=
                   unrequire_markers h (marker_order ho (missing_markers tx)) (required_markers P),
                 waiting_markers := fmdrop (provides (pool_tx tx)) (waiting_markers P),
                 waiting_queue := fmdrop h (waiting_queue P)\<rparr>"
    have inv1: "pending_inv ?P1"
      using Cons.prems(1) Some
      by (auto simp: pending_inv_def waits_for_unrequire_markers no_empty_sets_unrequire_markers
          hash_orders_okD [OF ho])
    have dom1: "fmlookup (required_markers P) m \<noteq> None"
      if "fmlookup (required_markers ?P1) m \<noteq> None" for m
    proof -
      from pending_inv_required [OF inv1 that] obtain h'
        where "waits_for (required_markers ?P1) m h'" by blast
      then show ?thesis by (auto simp: waits_for_unrequire_markers) (auto simp: waits_for_def)
    qed
    obtain removed1 where r1: "pending_remove ho hs ?P1 = (removed1, P')"
      and r: "removed = pool_tx tx # removed1"
      using Cons.prems(2) Some by (auto split: prod.splits)
    from Cons.IH [OF inv1 r1] dom1 Some r show ?thesis by (auto split: if_splits)
  qed
qed

section \<open>Checking off markers\<close>

text \<open>Every transaction that leaves the queue is returned: what drives the pool's loops.\<close>

lemma mark_hashes_len:
  "mark_hashes m hs P = Some (txs, P') \<Longrightarrow> length txs + pending_len P' = pending_len P"
proof (induction hs arbitrary: P txs P')
  case (Cons h hs)
  then obtain tx where tx: "fmlookup (waiting_queue P) h = Some tx" by (auto split: option.splits)
  show ?case
  proof (cases "is_ready (mark m tx)")
    case True
    with Cons.prems tx obtain txs1 where
      "mark_hashes m hs (P\<lparr>waiting_markers := fmdrop (provides (pool_tx tx)) (waiting_markers P),
         waiting_queue := fmdrop h (waiting_queue P)\<rparr>) = Some (txs1, P')"
      and "txs = mark m tx # txs1"
      by (auto simp: Let_def)
    from Cons.IH [OF this(1)] this(2) fmsize_fmdrop [OF tx] show ?thesis
      by (simp add: pending_len_def)
  next
    case False
    with Cons.prems tx have
      "mark_hashes m hs (P\<lparr>waiting_queue := fmupd h (mark m tx) (waiting_queue P)\<rparr>) = Some (txs, P')"
      by (simp add: Let_def)
    from Cons.IH [OF this] tx show ?thesis by (simp add: pending_len_def fmsize_fmupd)
  qed
qed simp

lemma mark_and_unlock_len:
  "mark_and_unlock ho ms P = Some (txs, P') \<Longrightarrow> length txs + pending_len P' = pending_len P"
proof (induction ms arbitrary: P txs P')
  case (Cons m ms)
  show ?case
  proof (cases "fmlookup (required_markers P) m")
    case None
    with Cons show ?thesis by simp
  next
    case (Some hs)
    with Cons.prems obtain txs1 P1 txs2 where
      1: "mark_hashes m (hash_order ho hs) (P\<lparr>required_markers := fmdrop m (required_markers P)\<rparr>)
            = Some (txs1, P1)" and
      2: "mark_and_unlock ho ms P1 = Some (txs2, P')" and "txs = txs1 @ txs2"
      by (auto split: option.splits)
    with Cons.IH [OF 2] mark_hashes_len [OF 1] show ?thesis by (simp add: pending_len_def)
  qed
qed simp

text \<open>What one pass over the transactions waiting for a marker does.\<close>

definition check_off :: "tx_marker list \<Rightarrow> PendingPoolTransaction \<Rightarrow> PendingPoolTransaction" where
  "check_off ms tx = tx\<lparr>missing_markers := missing_markers tx |-| fset_of_list ms\<rparr>"

lemma check_off_Nil [simp]: "check_off [] tx = tx"
  by (simp add: check_off_def)

lemma check_off_single: "check_off [m] tx = mark m tx"
  by (simp add: check_off_def mark_def)

lemma check_off_Cons: "check_off ms (mark m tx) = check_off (m # ms) tx"
proof -
  have "missing_markers tx |-| {|m|} |-| fset_of_list ms =
        missing_markers tx |-| finsert m (fset_of_list ms)" by auto
  then show ?thesis by (simp add: check_off_def mark_def)
qed

lemma check_off_ready: "is_ready tx \<Longrightarrow> check_off ms tx = tx"
  by (simp add: check_off_def is_ready_def)

lemma mark_absent: "m |\<notin>| missing_markers tx \<Longrightarrow> mark m tx = tx"
  by (simp add: mark_def)

lemma pool_tx_check_off [simp]: "pool_tx (check_off ms tx) = pool_tx tx"
  by (simp add: check_off_def)

definition keep_waiting :: "PendingPoolTransaction \<Rightarrow> PendingPoolTransaction option" where
  "keep_waiting tx = (if is_ready tx then None else Some tx)"

lemma mark_hashes_spec:
  assumes "distinct hs" and "\<forall>h \<in> set hs. fmlookup (waiting_queue P) h \<noteq> None"
  shows "\<exists>txs P'. mark_hashes m hs P = Some (txs, P') \<and>
           required_markers P' = required_markers P \<and>
           (\<forall>h. fmlookup (waiting_queue P') h =
              (if h \<in> set hs then keep_waiting (mark m (the (fmlookup (waiting_queue P) h)))
               else fmlookup (waiting_queue P) h)) \<and>
           txs = filter is_ready (map (\<lambda>h. mark m (the (fmlookup (waiting_queue P) h))) hs)"
  using assms
proof (induction hs arbitrary: P)
  case (Cons h hs)
  from Cons.prems obtain tx where tx: "fmlookup (waiting_queue P) h = Some tx" by auto
  let ?P1 = "if is_ready (mark m tx)
             then P\<lparr>waiting_markers := fmdrop (provides (pool_tx tx)) (waiting_markers P),
                    waiting_queue := fmdrop h (waiting_queue P)\<rparr>
             else P\<lparr>waiting_queue := fmupd h (mark m tx) (waiting_queue P)\<rparr>"
  have same: "fmlookup (waiting_queue ?P1) h' = fmlookup (waiting_queue P) h'" if "h' \<noteq> h" for h'
    using that by simp
  have "\<forall>h' \<in> set hs. fmlookup (waiting_queue ?P1) h' \<noteq> None"
    using Cons.prems same by (metis distinct.simps(2) list.set_intros(2))
  with Cons.prems Cons.IH [of ?P1] obtain txs P' where
    IH: "mark_hashes m hs ?P1 = Some (txs, P')" "required_markers P' = required_markers ?P1"
      "\<And>h'. fmlookup (waiting_queue P') h' =
         (if h' \<in> set hs then keep_waiting (mark m (the (fmlookup (waiting_queue ?P1) h')))
          else fmlookup (waiting_queue ?P1) h')"
      "txs = filter is_ready (map (\<lambda>h. mark m (the (fmlookup (waiting_queue ?P1) h))) hs)"
    by auto
  have txs: "txs = filter is_ready (map (\<lambda>h. mark m (the (fmlookup (waiting_queue P) h))) hs)"
    unfolding IH(4) using Cons.prems(1) same by (intro arg_cong [where f = "filter is_ready"] map_cong) auto
  have q: "fmlookup (waiting_queue P') h' =
      (if h' \<in> set (h # hs) then keep_waiting (mark m (the (fmlookup (waiting_queue P) h')))
       else fmlookup (waiting_queue P) h')" for h'
    unfolding IH(3) using Cons.prems(1) same [of h'] tx by (auto simp: keep_waiting_def)
  show ?case
    using IH(1,2) txs q tx by (auto simp: Let_def split: if_splits)
qed simp

text \<open>The effect of one marker, under the invariant.\<close>

definition queue_after :: "tx_marker list \<Rightarrow> PendingTransactions \<Rightarrow> tx_hash \<Rightarrow> PendingPoolTransaction option" where
  "queue_after ms P h =
     Option.bind (fmlookup (waiting_queue P) h) (\<lambda>tx. keep_waiting (check_off ms tx))"

definition unlocked :: "tx_marker list \<Rightarrow> PendingTransactions \<Rightarrow> PendingPoolTransaction set" where
  "unlocked ms P = {check_off ms tx |h tx. fmlookup (waiting_queue P) h = Some tx \<and> is_ready (check_off ms tx)}"

lemma keep_waiting_simps:
  "keep_waiting tx = Some tx' \<longleftrightarrow> \<not> is_ready tx \<and> tx' = tx"
  "keep_waiting tx = None \<longleftrightarrow> is_ready tx"
  by (auto simp: keep_waiting_def)

lemma mark_and_unlock_one:
  assumes inv: "pending_inv P" and ho: "hash_orders_ok ho"
    and req: "fmlookup (required_markers P) m = Some hs"
  shows "\<exists>txs P'. mark_hashes m (hash_order ho hs)
             (P\<lparr>required_markers := fmdrop m (required_markers P)\<rparr>) = Some (txs, P') \<and>
           pending_inv P' \<and> required_markers P' = fmdrop m (required_markers P) \<and>
           (\<forall>h. fmlookup (waiting_queue P') h = queue_after [m] P h) \<and>
           set txs = unlocked [m] P \<and> distinct (map (tx_hash_of \<circ> pool_tx) txs)"
proof -
  let ?P0 = "P\<lparr>required_markers := fmdrop m (required_markers P)\<rparr>"
  let ?q = "\<lambda>h. the (fmlookup (waiting_queue P) h)"
  note ho' = hash_orders_okD [OF ho]
  have mem: "h |\<in>| hs \<longleftrightarrow> (\<exists>tx. fmlookup (waiting_queue P) h = Some tx \<and> m |\<in>| missing_markers tx)" for h
    using pending_inv_waits [OF inv, of m h] req by (simp add: waits_for_def)
  have "\<forall>h \<in> set (hash_order ho hs). fmlookup (waiting_queue ?P0) h \<noteq> None"
    using mem by (auto simp: ho')
  from mark_hashes_spec [OF ho'(2) this, of m] obtain txs P' where
    run: "mark_hashes m (hash_order ho hs) ?P0 = Some (txs, P')" and
    rm: "required_markers P' = fmdrop m (required_markers P)" and
    q: "\<And>h. fmlookup (waiting_queue P') h =
          (if h |\<in>| hs then keep_waiting (mark m (?q h)) else fmlookup (waiting_queue P) h)" and
    txs: "txs = filter is_ready (map (\<lambda>h. mark m (?q h)) (hash_order ho hs))"
    by (auto simp: ho')
  have after: "fmlookup (waiting_queue P') h = queue_after [m] P h" for h
  proof (cases "h |\<in>| hs")
    case True
    then obtain tx where "fmlookup (waiting_queue P) h = Some tx" using mem by blast
    with True show ?thesis by (simp add: q queue_after_def check_off_single)
  next
    case False
    then show ?thesis
      using mem [of h] pending_inv_queueD(2) [OF inv]
      by (cases "fmlookup (waiting_queue P) h")
        (auto simp: q queue_after_def check_off_single mark_absent keep_waiting_def)
  qed
  have hash: "tx_hash_of (pool_tx (?q h)) = h" if "h |\<in>| hs" for h
    using that mem [of h] pending_inv_queueD(1) [OF inv] by auto
  have "map (tx_hash_of \<circ> pool_tx) txs =
        map (\<lambda>h. h) (filter (\<lambda>h. is_ready (mark m (?q h))) (hash_order ho hs))"
    unfolding txs filter_map map_map
    by (rule map_cong) (auto simp: ho' hash comp_def)
  then have dist: "distinct (map (tx_hash_of \<circ> pool_tx) txs)"
    using ho'(2) by simp
  have "x \<in> unlocked [m] P \<longleftrightarrow> is_ready x \<and> (\<exists>h. h |\<in>| hs \<and> x = mark m (?q h))" for x
  proof
    assume "x \<in> unlocked [m] P"
    then obtain h tx where tx: "fmlookup (waiting_queue P) h = Some tx" "x = mark m tx" "is_ready x"
      by (auto simp: unlocked_def check_off_single)
    then have "m |\<in>| missing_markers tx"
      using pending_inv_queueD(2) [OF inv tx(1)] mark_absent [of m tx] tx(2,3) by metis
    with tx mem [of h] show "is_ready x \<and> (\<exists>h. h |\<in>| hs \<and> x = mark m (?q h))" by force
  next
    assume "is_ready x \<and> (\<exists>h. h |\<in>| hs \<and> x = mark m (?q h))"
    then show "x \<in> unlocked [m] P"
      using mem by (fastforce simp: unlocked_def check_off_single)
  qed
  then have set: "set txs = unlocked [m] P"
    by (auto simp: txs ho')
  have "pending_inv P'"
    unfolding pending_inv_def
  proof (intro conjI allI impI)
    fix h tx
    assume "fmlookup (waiting_queue P') h = Some tx"
    then show "tx_hash_of (pool_tx tx) = h" "\<not> is_ready tx" "wf_pool_tx (pool_tx tx)"
      using pending_inv_queueD [OF inv]
      by (auto simp: after queue_after_def keep_waiting_simps bind_eq_Some_conv)
  next
    fix k h
    show "waits_for (required_markers P') k h \<longleftrightarrow>
        (\<exists>tx. fmlookup (waiting_queue P') h = Some tx \<and> k |\<in>| missing_markers tx)"
      using pending_inv_waits [OF inv, of k h]
      by (auto simp: rm waits_for_def after queue_after_def check_off_def keep_waiting_simps
          bind_eq_Some_conv is_ready_def)
  next
    show "no_empty_sets (required_markers P')"
      using inv by (auto simp: rm pending_inv_def no_empty_sets_def)
  qed
  with run rm after set dist show ?thesis by blast
qed

text \<open>Composing the effect of one marker with the effect of the others.\<close>

lemma queue_after_step:
  assumes "\<And>h. fmlookup (waiting_queue P1) h = queue_after [m] P h"
  shows "queue_after ms P1 h = queue_after (m # ms) P h"
proof (cases "fmlookup (waiting_queue P) h")
  case (Some tx)
  show ?thesis
  proof (cases "is_ready (mark m tx)")
    case True
    then have "check_off (m # ms) tx = mark m tx" by (metis check_off_Cons check_off_ready)
    with True Some show ?thesis
      by (simp add: queue_after_def assms keep_waiting_def check_off_single)
  qed (use Some in \<open>simp add: queue_after_def assms keep_waiting_def check_off_single check_off_Cons\<close>)
qed (simp add: queue_after_def assms)

lemma unlocked_step:
  assumes "\<And>h. fmlookup (waiting_queue P1) h = queue_after [m] P h"
  shows "unlocked [m] P \<union> unlocked ms P1 = unlocked (m # ms) P"
proof (intro set_eqI iffI)
  fix x
  assume "x \<in> unlocked (m # ms) P"
  then obtain h tx where tx: "fmlookup (waiting_queue P) h = Some tx"
    "x = check_off ms (mark m tx)" "is_ready x"
    by (auto simp: unlocked_def check_off_Cons)
  show "x \<in> unlocked [m] P \<union> unlocked ms P1"
  proof (cases "is_ready (mark m tx)")
    case True
    with tx show ?thesis by (auto simp: unlocked_def check_off_single check_off_ready)
  next
    case False
    with tx have "fmlookup (waiting_queue P1) h = Some (mark m tx)"
      by (simp add: assms queue_after_def keep_waiting_def check_off_single)
    with tx show ?thesis by (auto simp: unlocked_def)
  qed
next
  fix x
  assume "x \<in> unlocked [m] P \<union> unlocked ms P1"
  then consider h tx where "fmlookup (waiting_queue P) h = Some tx" "x = mark m tx" "is_ready x"
    | h tx where "fmlookup (waiting_queue P) h = Some tx" "x = check_off ms (mark m tx)" "is_ready x"
    by (auto simp: unlocked_def assms queue_after_def keep_waiting_simps bind_eq_Some_conv
        check_off_single)
  then obtain h tx where "fmlookup (waiting_queue P) h = Some tx" "x = check_off (m # ms) tx" "is_ready x"
    by cases (metis check_off_Cons check_off_ready)+
  then show "x \<in> unlocked (m # ms) P" unfolding unlocked_def mem_Collect_eq by metis
qed

lemma unlocked_disjoint:
  assumes "pending_inv P" and "pending_inv P1"
    and "\<And>h. fmlookup (waiting_queue P1) h = queue_after [m] P h"
    and "x \<in> unlocked [m] P" and "y \<in> unlocked ms P1"
  shows "tx_hash_of (pool_tx x) \<noteq> tx_hash_of (pool_tx y)"
proof -
  have "fmlookup (waiting_queue P1) (tx_hash_of (pool_tx x)) = None"
    using assms(4) pending_inv_queueD(1) [OF assms(1)]
    by (auto simp: assms(3) unlocked_def queue_after_def keep_waiting_def)
  moreover have "fmlookup (waiting_queue P1) (tx_hash_of (pool_tx y)) \<noteq> None"
    using assms(5) pending_inv_queueD(1) [OF assms(2)] by (auto simp: unlocked_def)
  ultimately show ?thesis by metis
qed

text \<open>A marker nobody waits for.\<close>

lemma check_off_absent:
  assumes "pending_inv P" and "fmlookup (required_markers P) m = None"
  shows "queue_after (m # ms) P h = queue_after ms P h" and "unlocked (m # ms) P = unlocked ms P"
proof -
  have absent: "check_off (m # ms) tx = check_off ms tx"
    if "fmlookup (waiting_queue P) h = Some tx" for h tx
  proof -
    have "m |\<notin>| missing_markers tx"
      using pending_inv_waits [OF assms(1), of m h] assms(2) that by (auto simp: waits_for_def)
    then show ?thesis by (metis check_off_Cons mark_absent)
  qed
  show "queue_after (m # ms) P h = queue_after ms P h"
    using absent by (cases "fmlookup (waiting_queue P) h") (auto simp: queue_after_def)
  show "unlocked (m # ms) P = unlocked ms P"
    unfolding unlocked_def using absent by metis
qed

lemma mark_and_unlock_none:
  "\<forall>m \<in> set ms. fmlookup (required_markers P) m = None \<Longrightarrow> mark_and_unlock ho ms P = Some ([], P)"
  by (induction ms) auto

lemma mark_and_unlock_spec:
  assumes "pending_inv P" and ho: "hash_orders_ok ho"
  shows "\<exists>txs P'. mark_and_unlock ho ms P = Some (txs, P') \<and> pending_inv P' \<and>
           (\<forall>h. fmlookup (waiting_queue P') h = queue_after ms P h) \<and>
           set txs = unlocked ms P \<and> distinct (map (tx_hash_of \<circ> pool_tx) txs) \<and>
           (\<forall>m. fmlookup (required_markers P') m =
              (if m \<in> set ms then None else fmlookup (required_markers P) m))"
  using assms(1)
proof (induction ms arbitrary: P)
  case Nil
  have "queue_after [] P h = fmlookup (waiting_queue P) h" for h
    using pending_inv_queueD(2) [OF Nil]
    by (cases "fmlookup (waiting_queue P) h") (auto simp: queue_after_def keep_waiting_def)
  moreover have "unlocked [] P = {}"
    using pending_inv_queueD(2) [OF Nil] by (auto simp: unlocked_def)
  ultimately show ?case using Nil by simp
next
  case (Cons m ms)
  show ?case
  proof (cases "fmlookup (required_markers P) m")
    case None
    with Cons.IH [OF Cons.prems] check_off_absent [OF Cons.prems None] show ?thesis by auto
  next
    case (Some hs)
    from mark_and_unlock_one [OF Cons.prems ho Some] obtain txs1 P1 where
      1: "mark_hashes m (hash_order ho hs)
            (P\<lparr>required_markers := fmdrop m (required_markers P)\<rparr>) = Some (txs1, P1)"
        "pending_inv P1" "required_markers P1 = fmdrop m (required_markers P)"
        "\<And>h. fmlookup (waiting_queue P1) h = queue_after [m] P h"
        "set txs1 = unlocked [m] P" "distinct (map (tx_hash_of \<circ> pool_tx) txs1)"
      by blast
    from Cons.IH [OF 1(2)] obtain txs2 P2 where
      2: "mark_and_unlock ho ms P1 = Some (txs2, P2)" "pending_inv P2"
        "\<And>h. fmlookup (waiting_queue P2) h = queue_after ms P1 h"
        "set txs2 = unlocked ms P1" "distinct (map (tx_hash_of \<circ> pool_tx) txs2)"
        "\<And>k. fmlookup (required_markers P2) k =
           (if k \<in> set ms then None else fmlookup (required_markers P1) k)"
      by blast
    have "distinct (map (tx_hash_of \<circ> pool_tx) (txs1 @ txs2))"
      using 1(5,6) 2(4,5) unlocked_disjoint [OF Cons.prems 1(2,4)] by (fastforce simp: comp_def)
    moreover have "set (txs1 @ txs2) = unlocked (m # ms) P"
      using unlocked_step [OF 1(4), of ms] by (simp add: 1(5) 2(4))
    moreover have "mark_and_unlock ho (m # ms) P = Some (txs1 @ txs2, P2)"
      by (simp add: Some 1(1) 2(1))
    ultimately show ?thesis
      using 1(3) 2(2,3,6) queue_after_step [OF 1(4), of ms] by (auto simp: comp_def)
  qed
qed

end
