(* ===== verification/Ready_Pool.thy ===== *)
theory Ready_Pool
  imports Pending_Pool
begin

text \<open>
  The ready half of the mempool: \<open>ReadyTransactions\<close>, \<open>PoolTransactionRef\<close> and the
  \<open>TransactionsIterator\<close> of anvil/src/eth/pool/transactions.rs. Vectors the source uses as
  stacks (\<open>pop\<close>, \<open>append\<close>) are lists whose head is the end of the vector.
\<close>

section \<open>State\<close>

record PoolTransactionRef =
  ref_tx :: PoolTransaction
  ref_id :: u64

record ReadyTransaction =
  rt_ref :: PoolTransactionRef
  unlocks :: "tx_hash list"
  requires_offset :: nat

record ReadyTransactions =
  next_ref_id :: u64
  provided_markers :: "(tx_marker, tx_hash) fmap"
  ready_tx :: "(tx_hash, ReadyTransaction) fmap"
  independent_transactions :: "PoolTransactionRef list"

abbreviation rt_tx :: "ReadyTransaction \<Rightarrow> PoolTransaction" where
  "rt_tx rt \<equiv> ref_tx (rt_ref rt)"

section \<open>The ordered set of independent transactions\<close>

definition ref_cmp :: "PoolTransactionRef \<Rightarrow> PoolTransactionRef \<Rightarrow> Ordering" where
  "ref_cmp a b =
     then_with (cmp (priority (ref_tx a)) (priority (ref_tx b))) (cmp (ref_id b) (ref_id a))"

text \<open>\<open>BTreeSet<PoolTransactionRef>\<close>: ascending, without two elements that compare equal.\<close>

fun btree_insert :: "PoolTransactionRef \<Rightarrow> PoolTransactionRef list \<Rightarrow> PoolTransactionRef list" where
  "btree_insert r [] = [r]"
| "btree_insert r (x # xs) =
     (case ref_cmp r x of
        Less \<Rightarrow> r # x # xs
      | Equal \<Rightarrow> x # xs
      | Greater \<Rightarrow> x # btree_insert r xs)"

definition btree_remove :: "PoolTransactionRef \<Rightarrow> PoolTransactionRef list \<Rightarrow> PoolTransactionRef list" where
  "btree_remove r xs = filter (\<lambda>x. ref_cmp x r \<noteq> Equal) xs"

section \<open>Removal\<close>

definition ready_empty :: ReadyTransactions where
  "ready_empty =
     \<lparr>next_ref_id = 0, provided_markers = fmempty, ready_tx = fmempty, independent_transactions = []\<rparr>"

definition ready_clear :: "ReadyTransactions \<Rightarrow> ReadyTransactions" where
  "ready_clear R =
     R\<lparr>provided_markers := fmempty, ready_tx := fmempty, independent_transactions := []\<rparr>"

definition ready_contains :: "ReadyTransactions \<Rightarrow> tx_hash \<Rightarrow> bool" where
  "ready_contains R h \<longleftrightarrow> fmlookup (ready_tx R) h \<noteq> None"

definition ready_get :: "ReadyTransactions \<Rightarrow> tx_hash \<Rightarrow> ReadyTransaction option" where
  "ready_get R h = fmlookup (ready_tx R) h"

definition next_id :: "ReadyTransactions \<Rightarrow> u64 \<times> ReadyTransactions" where
  "next_id R = (next_ref_id R, R\<lparr>next_ref_id := next_ref_id R + 1\<rparr>)"

text \<open>
  The loop over the requirements of a removed transaction. The \<open>hash\<close> the source compares the
  unlock list with is the one bound by the innermost pattern: the hash of the providing
  transaction.
\<close>

fun unlink_requires ::
    "(tx_marker, tx_hash) fmap \<Rightarrow> tx_marker list \<Rightarrow> (tx_hash, ReadyTransaction) fmap
       \<Rightarrow> (tx_hash, ReadyTransaction) fmap" where
  "unlink_requires prov [] ready = ready"
| "unlink_requires prov (m # ms) ready =
     unlink_requires prov ms
       (case fmlookup prov m of
          None \<Rightarrow> ready
        | Some hash \<Rightarrow>
            (case fmlookup ready hash of
               None \<Rightarrow> ready
             | Some tx \<Rightarrow>
                 (case position (\<lambda>i. i = hash) (unlocks tx) of
                    None \<Rightarrow> ready
                  | Some idx \<Rightarrow>
                      fmupd hash (tx\<lparr>unlocks := swap_remove idx (unlocks tx)\<rparr>) ready)))"

definition invalidated_marks :: "tx_marker fset option \<Rightarrow> PoolTransaction \<Rightarrow> tx_marker list" where
  "invalidated_marks marker_filter tx =
     filter (\<lambda>m. case marker_filter of None \<Rightarrow> True | Some f \<Rightarrow> m |\<notin>| f) (provides tx)"

text \<open>One round of \<open>remove_with_markers\<close> for a transaction that is in the queue.\<close>

definition remove_entry ::
    "tx_marker fset option \<Rightarrow> tx_hash \<Rightarrow> ReadyTransaction \<Rightarrow> ReadyTransactions \<Rightarrow> ReadyTransactions" where
  "remove_entry marker_filter hash tx R =
     (let prov = fold fmdrop (invalidated_marks marker_filter (rt_tx tx)) (provided_markers R)
      in R\<lparr>provided_markers := prov,
           ready_tx := unlink_requires prov (requires (rt_tx tx)) (fmdrop hash (ready_tx R)),
           independent_transactions := btree_remove (rt_ref tx) (independent_transactions R)\<rparr>)"

lemma fmsize_unlink_requires [simp]: "fmsize (unlink_requires prov ms ready) = fmsize ready"
  by (induction ms arbitrary: ready) (auto simp: fmsize_fmupd split: option.splits)

lemma fmsize_remove_entry:
  "fmlookup (ready_tx R) hash = Some tx \<Longrightarrow>
     fmsize (ready_tx (remove_entry marker_filter hash tx R)) < fmsize (ready_tx R)"
  using fmsize_fmdrop [of "ready_tx R" hash tx] by (simp add: remove_entry_def Let_def)

function remove_loop ::
    "tx_marker fset option \<Rightarrow> tx_hash list \<Rightarrow> ReadyTransactions
       \<Rightarrow> PoolTransaction list \<times> ReadyTransactions" where
  "remove_loop marker_filter [] R = ([], R)"
| "remove_loop marker_filter (hash # stack) R =
     (case fmlookup (ready_tx R) hash of
        None \<Rightarrow> remove_loop marker_filter stack R
      | Some tx \<Rightarrow>
          (let (removed, R') =
             remove_loop marker_filter
               ((if invalidated_marks marker_filter (rt_tx tx) \<noteq> [] then rev (unlocks tx) else []) @ stack)
               (remove_entry marker_filter hash tx R)
           in (rt_tx tx # removed, R')))"
  by pat_completeness auto
termination
  by (relation "measures [\<lambda>(f, stack, R). fmsize (ready_tx R), \<lambda>(f, stack, R). length stack]")
    (auto simp: fmsize_remove_entry)

definition remove_with_markers ::
    "tx_hash list \<Rightarrow> tx_marker fset option \<Rightarrow> ReadyTransactions
       \<Rightarrow> PoolTransaction list \<times> ReadyTransactions" where
  "remove_with_markers tx_hashes marker_filter R = remove_loop marker_filter (rev tx_hashes) R"

definition clear_transactions ::
    "tx_hash list \<Rightarrow> ReadyTransactions \<Rightarrow> PoolTransaction list \<times> ReadyTransactions" where
  "clear_transactions tx_hashes R = remove_with_markers tx_hashes None R"

section \<open>Insertion\<close>

fun filter_map :: "('a \<Rightarrow> 'b option) \<Rightarrow> 'a list \<Rightarrow> 'b list" where
  "filter_map f [] = []"
| "filter_map f (x # xs) = (case f x of None \<Rightarrow> filter_map f xs | Some y \<Rightarrow> y # filter_map f xs)"

text \<open>
  The loop over the transactions to be replaced: \<open>None\<close> when the replacement is underpriced,
  otherwise the transactions they unlock.
\<close>

fun replaced_unlocks :: "PoolTransaction \<Rightarrow> ReadyTransaction list \<Rightarrow> tx_hash list option" where
  "replaced_unlocks tx [] = Some []"
| "replaced_unlocks tx (to_remove # rest) =
     (if provides (rt_tx to_remove) = provides tx \<and> tx_gas_price tx \<le> tx_gas_price (rt_tx to_remove)
      then None
      else map_option (\<lambda>us. unlocks to_remove @ us) (replaced_unlocks tx rest))"

definition replaced_transactions ::
    "hash_orders \<Rightarrow> PoolTransaction \<Rightarrow> ReadyTransactions
       \<Rightarrow> ReadyTransactions \<times> (PoolError + PoolTransaction list \<times> tx_hash list)" where
  "replaced_transactions ho tx R =
     (let remove_hashes = fset_of_list (filter_map (fmlookup (provided_markers R)) (provides tx)) in
      if remove_hashes = {||} then (R, Inr ([], []))
      else
        case replaced_unlocks tx (filter_map (fmlookup (ready_tx R)) (hash_order ho remove_hashes)) of
          None \<Rightarrow> (R, Inl (ReplacementUnderpriced tx))
        | Some unlocked_tx \<Rightarrow>
            (let (removed_tx, R') =
               remove_with_markers (hash_order ho remove_hashes) (Some (fset_of_list (provides tx))) R
             in (R', Inr (removed_tx, unlocked_tx))))"

text \<open>Links to the transactions that unlock the new one; \<open>None\<close> is the panic of \<open>expect\<close>.\<close>

fun link_requires ::
    "tx_hash \<Rightarrow> (tx_marker, tx_hash) fmap \<Rightarrow> tx_marker list
       \<Rightarrow> (tx_hash, ReadyTransaction) fmap \<times> bool \<times> nat
       \<Rightarrow> ((tx_hash, ReadyTransaction) fmap \<times> bool \<times> nat) option" where
  "link_requires hash prov [] st = Some st"
| "link_requires hash prov (m # ms) (ready, independent, offset) =
     (case fmlookup prov m of
        Some other \<Rightarrow>
          (case fmlookup ready other of
             None \<Rightarrow> None
           | Some tx \<Rightarrow>
               link_requires hash prov ms
                 (fmupd other (tx\<lparr>unlocks := unlocks tx @ [hash]\<rparr>) ready, False, offset))
      | None \<Rightarrow> link_requires hash prov ms (ready, independent, offset + 1))"

definition provide_marks ::
    "tx_hash \<Rightarrow> tx_marker list \<Rightarrow> (tx_marker, tx_hash) fmap \<Rightarrow> (tx_marker, tx_hash) fmap" where
  "provide_marks hash marks prov = fold (\<lambda>m p. fmupd m hash p) marks prov"

definition ready_add_transaction ::
    "hash_orders \<Rightarrow> PendingPoolTransaction \<Rightarrow> ReadyTransactions
       \<Rightarrow> (ReadyTransactions \<times> (PoolError + PoolTransaction list)) option" where
  "ready_add_transaction ho ptx R =
     (let tx = pool_tx ptx in
      if \<not> is_ready ptx then None
      else if fmlookup (ready_tx R) (tx_hash_of tx) \<noteq> None then None
      else
        case replaced_transactions ho tx R of
          (R1, Inl e) \<Rightarrow> Some (R1, Inl e)
        | (R1, Inr (replaced_tx, unlocked_tx)) \<Rightarrow>
            (let (id, R2) = next_id R1; hash = tx_hash_of tx in
             case link_requires hash (provided_markers R2) (requires tx) (ready_tx R2, True, 0) of
               None \<Rightarrow> None
             | Some (ready', independent, offset) \<Rightarrow>
                 (let transaction = \<lparr>ref_tx = tx, ref_id = id\<rparr> in
                  Some (R2\<lparr>provided_markers := provide_marks hash (provides tx) (provided_markers R2),
                           independent_transactions :=
                             (if independent then btree_insert transaction (independent_transactions R2)
                              else independent_transactions R2),
                           ready_tx := fmupd hash
                             \<lparr>rt_ref = transaction, unlocks = unlocked_tx, requires_offset = offset\<rparr> ready'\<rparr>,
                        Inr replaced_tx))))"

section \<open>Pruning mined markers\<close>

text \<open>
  The closure \<open>previous_markers\<close> and the loop that calls it for every requirement of the pruned
  transaction: the transaction leaves the unlock list of its predecessor, and a predecessor
  that unlocks nothing any more is pruned as well.
\<close>

fun prune_previous ::
    "tx_hash \<Rightarrow> (tx_marker, tx_hash) fmap \<Rightarrow> tx_marker list \<Rightarrow> tx_marker list
       \<Rightarrow> (tx_hash, ReadyTransaction) fmap \<Rightarrow> tx_marker list \<times> (tx_hash, ReadyTransaction) fmap" where
  "prune_previous hash prov [] stack ready = (stack, ready)"
| "prune_previous hash prov (m # ms) stack ready =
     (case Option.bind (fmlookup prov m) (\<lambda>prev_hash. map_option (Pair prev_hash) (fmlookup ready prev_hash)) of
        None \<Rightarrow> prune_previous hash prov ms stack ready
      | Some (prev_hash, tx2) \<Rightarrow>
          (let us = (case position (\<lambda>i. i = hash) (unlocks tx2) of
                       None \<Rightarrow> unlocks tx2
                     | Some idx \<Rightarrow> swap_remove idx (unlocks tx2));
               ready' = fmupd prev_hash (tx2\<lparr>unlocks := us\<rparr>) ready
           in prune_previous hash prov ms
                (if us = [] then rev (provides (rt_tx tx2)) @ stack else stack) ready'))"

text \<open>The transactions unlocked by the pruned one may become independent.\<close>

fun prune_unlock ::
    "tx_hash list \<Rightarrow> (tx_hash, ReadyTransaction) fmap \<times> PoolTransactionRef list
       \<Rightarrow> (tx_hash, ReadyTransaction) fmap \<times> PoolTransactionRef list" where
  "prune_unlock [] st = st"
| "prune_unlock (h # hs) (ready, independent) =
     (case fmlookup ready h of
        None \<Rightarrow> prune_unlock hs (ready, independent)
      | Some tx0 \<Rightarrow>
          (let tx = tx0\<lparr>requires_offset := requires_offset tx0 + 1\<rparr> in
           prune_unlock hs
             (fmupd h tx ready,
              if requires_offset tx = length (requires (rt_tx tx))
              then btree_insert (rt_ref tx) independent else independent)))"

text \<open>The final loop over the provided markers with its \<open>assert_eq!\<close>.\<close>

fun prune_provided ::
    "tx_marker \<Rightarrow> tx_hash \<Rightarrow> tx_marker list \<Rightarrow> (tx_marker, tx_hash) fmap
       \<Rightarrow> (tx_marker, tx_hash) fmap option" where
  "prune_provided current hash [] prov = Some prov"
| "prune_provided current hash (m # ms) prov =
     (if fmlookup prov m = (if current = m then None else Some hash)
      then prune_provided current hash ms (fmdrop m prov) else None)"

lemma fmsize_prune_previous:
  "prune_previous hash prov ms stack ready = (stack', ready') \<Longrightarrow> fmsize ready' = fmsize ready"
  by (induction hash prov ms stack ready rule: prune_previous.induct)
    (auto simp: Let_def fmsize_fmupd bind_eq_Some_conv split: option.splits)

lemma fmsize_prune_unlock:
  "prune_unlock hs st = (ready', independent') \<Longrightarrow> fmsize ready' = fmsize (fst st)"
  by (induction hs st rule: prune_unlock.induct)
    (auto simp: Let_def fmsize_fmupd split: option.splits)

function prune_loop ::
    "tx_marker list \<Rightarrow> ReadyTransactions \<Rightarrow> (PoolTransaction list \<times> ReadyTransactions) option" where
  "prune_loop [] R = Some ([], R)"
| "prune_loop (marker # stack) R =
     (case fmlookup (provided_markers R) marker of
        None \<Rightarrow> prune_loop stack R
      | Some hash \<Rightarrow>
          (let prov = fmdrop marker (provided_markers R) in
           case fmlookup (ready_tx R) hash of
             None \<Rightarrow> prune_loop stack (R\<lparr>provided_markers := prov\<rparr>)
           | Some rt \<Rightarrow>
               (let tx = rt_tx rt;
                    independent = btree_remove (rt_ref rt) (independent_transactions R);
                    (stack', ready1) =
                      prune_previous (tx_hash_of tx) prov (requires tx) stack (fmdrop hash (ready_tx R));
                    (ready2, independent') = prune_unlock (unlocks rt) (ready1, independent)
                in case prune_provided marker (tx_hash_of tx) (provides tx) prov of
                     None \<Rightarrow> None
                   | Some prov' \<Rightarrow>
                       map_option (\<lambda>(removed, R'). (tx # removed, R'))
                         (prune_loop stack'
                            (R\<lparr>provided_markers := prov', ready_tx := ready2,
                               independent_transactions := independent'\<rparr>)))))"
  by pat_completeness auto
termination
proof (relation "measures [\<lambda>(stack, R). fmsize (ready_tx R), \<lambda>(stack, R). length stack]", goal_cases)
  case (4 marker stack R hash prov rt tx ind x stack' ready1 y ready2 ind' prov')
  then show ?case
    using fmsize_fmdrop [of "ready_tx R" hash rt]
    by (auto dest!: fmsize_prune_previous [OF sym] fmsize_prune_unlock [OF sym])
qed auto

definition prune_tags ::
    "tx_marker \<Rightarrow> ReadyTransactions \<Rightarrow> (PoolTransaction list \<times> ReadyTransactions) option" where
  "prune_tags marker R = prune_loop [marker] R"

section \<open>The iterator over the ready transactions\<close>

record TransactionsIterator =
  iter_all :: "(tx_hash, ReadyTransaction) fmap"
  awaiting :: "(tx_hash, nat \<times> PoolTransactionRef) fmap"
  independent :: "PoolTransactionRef list"

definition get_transactions :: "ReadyTransactions \<Rightarrow> TransactionsIterator" where
  "get_transactions R =
     \<lparr>iter_all = ready_tx R, awaiting = fmempty, independent = independent_transactions R\<rparr>"

definition independent_or_awaiting ::
    "nat \<Rightarrow> PoolTransactionRef \<Rightarrow> TransactionsIterator \<Rightarrow> TransactionsIterator" where
  "independent_or_awaiting satisfied r it =
     (if length (requires (ref_tx r)) \<le> satisfied
      then it\<lparr>independent := btree_insert r (independent it)\<rparr>
      else it\<lparr>awaiting := fmupd (tx_hash_of (ref_tx r)) (satisfied, r) (awaiting it)\<rparr>)"

fun unlock_all :: "tx_hash list \<Rightarrow> TransactionsIterator \<Rightarrow> TransactionsIterator" where
  "unlock_all [] it = it"
| "unlock_all (h # hs) it =
     unlock_all hs
       (case fmlookup (awaiting it) h of
          Some (satisfied, r) \<Rightarrow>
            independent_or_awaiting (satisfied + 1) r (it\<lparr>awaiting := fmdrop h (awaiting it)\<rparr>)
        | None \<Rightarrow>
            (case fmlookup (iter_all it) h of
               Some next \<Rightarrow> independent_or_awaiting (requires_offset next + 1) (rt_ref next) it
             | None \<Rightarrow> it))"

lemma length_btree_remove_last:
  "xs \<noteq> [] \<Longrightarrow> length (btree_remove (last xs) xs) < length xs"
  unfolding btree_remove_def
  by (rule length_filter_less [of "last xs"]) (auto simp: ref_cmp_def then_with_iff)

text \<open>\<open>Iterator::next\<close>: the loop skips references that are no longer in the pool.\<close>

function iter_next :: "TransactionsIterator \<Rightarrow> (PoolTransaction \<times> TransactionsIterator) option" where
  "iter_next it =
     (if independent it = [] then None
      else
        let best = last (independent it);
            it' = it\<lparr>independent := btree_remove best (independent it)\<rparr>
        in case fmlookup (iter_all it) (tx_hash_of (ref_tx best)) of
             None \<Rightarrow> iter_next it'
           | Some ready \<Rightarrow> Some (ref_tx best, unlock_all (unlocks ready) it'))"
  by pat_completeness auto
termination
  by (relation "measure (\<lambda>it. length (independent it))") (auto simp: length_btree_remove_last)

declare iter_next.simps [simp del]

text \<open>\<open>take(n).collect()\<close>.\<close>

fun iter_take :: "nat \<Rightarrow> TransactionsIterator \<Rightarrow> PoolTransaction list" where
  "iter_take 0 it = []"
| "iter_take (Suc n) it =
     (case iter_next it of None \<Rightarrow> [] | Some (tx, it') \<Rightarrow> tx # iter_take n it')"

text \<open>\<open>collect()\<close>: runs until the iterator is exhausted; \<open>None\<close> if it never is.\<close>

partial_function (option) iter_collect :: "TransactionsIterator \<Rightarrow> PoolTransaction list option" where
  "iter_collect it =
     (case iter_next it of
        None \<Rightarrow> Some []
      | Some (tx, it') \<Rightarrow> Option.bind (iter_collect it') (\<lambda>txs. Some (tx # txs)))"

end
