(* ===== verification/Ready_Pool_Inv.thy ===== *)
theory Ready_Pool_Inv
  imports Ready_Pool
begin

text \<open>
  The invariant of the ready queue and its preservation. The invariant only speaks about the
  references the queue holds, not about the unlock lists and offsets, so most of the loops of
  the source are invisible to it (\<open>refs_unlink_requires\<close> and its companions).
\<close>

section \<open>References held by the queue\<close>

definition refs :: "(tx_hash, ReadyTransaction) fmap \<Rightarrow> tx_hash \<Rightarrow> PoolTransactionRef option" where
  "refs ready h = map_option rt_ref (fmlookup ready h)"

named_theorems refs_simps \<open>how the loops act on the references\<close>

lemma refs_fmupd [refs_simps]: "refs (fmupd k rt ready) = (refs ready)(k \<mapsto> rt_ref rt)"
  by (auto simp: refs_def)

lemma refs_fmdrop [refs_simps]: "refs (fmdrop k ready) = (refs ready)(k := None)"
  by (auto simp: refs_def)

lemma refs_same: "fmlookup ready k = Some rt \<Longrightarrow> (refs ready)(k \<mapsto> rt_ref rt) = refs ready"
  by (auto simp: refs_def)

lemma refs_unlink_requires [refs_simps]: "refs (unlink_requires prov ms ready) = refs ready"
  by (induction ms arbitrary: ready) (auto simp: refs_simps refs_same split: option.splits)

lemma refs_link_requires:
  "link_requires hash prov ms st = Some (ready', ind', off') \<Longrightarrow> refs ready' = refs (fst st)"
  by (induction hash prov ms st rule: link_requires.induct)
    (auto simp: refs_simps refs_same split: option.splits)

lemma refs_prune_previous:
  "prune_previous hash prov ms stack ready = (stack', ready') \<Longrightarrow> refs ready' = refs ready"
  by (induction hash prov ms stack ready rule: prune_previous.induct)
    (auto simp: Let_def refs_simps refs_same bind_eq_Some_conv split: option.splits)

section \<open>The ordered set\<close>

lemma ref_cmp_refl [simp]: "ref_cmp r r = Equal"
  by (simp add: ref_cmp_def then_with_iff)

lemma set_btree_insert: "set (btree_insert r xs) \<subseteq> insert r (set xs)"
  by (induction xs) (auto split: Ordering.splits)

lemma set_btree_remove: "set (btree_remove r xs) \<subseteq> set xs - {r}"
  by (auto simp: btree_remove_def)

lemma prune_unlock_spec:
  "prune_unlock hs st = (ready', independent') \<Longrightarrow>
     refs ready' = refs (fst st) \<and>
     (\<forall>r \<in> set independent'. r \<in> set (snd st) \<or> (\<exists>h. refs (fst st) h = Some r))"
proof (induction hs st rule: prune_unlock.induct)
  case (2 h hs ready ind)
  show ?case
  proof (cases "fmlookup ready h")
    case None
    with 2 show ?thesis by simp
  next
    case (Some tx0)
    let ?tx = "tx0\<lparr>requires_offset := requires_offset tx0 + 1\<rparr>"
    let ?ind = "if requires_offset ?tx = length (requires (rt_tx ?tx))
                then btree_insert (rt_ref ?tx) ind else ind"
    have same: "refs (fmupd h ?tx ready) = refs ready"
      using refs_same [OF Some] by (simp add: refs_simps)
    have "refs ready h = Some (rt_ref tx0)" using Some by (simp add: refs_def)
    then have "\<forall>r \<in> set ?ind. r \<in> set ind \<or> (\<exists>h. refs ready h = Some r)"
      using set_btree_insert [of "rt_ref tx0" ind] by auto
    moreover have "prune_unlock hs (fmupd h ?tx ready, ?ind) = (ready', independent')"
      using "2.prems" unfolding prune_unlock.simps Some option.case Let_def .
    note "2.IH"(2) [OF Some refl this, unfolded fst_conv snd_conv]
    ultimately show ?thesis unfolding same by auto
  qed
qed simp

section \<open>The invariant\<close>

text \<open>
  \<open>ready_inv_except F\<close>: the markers of \<open>F\<close> may still point to a transaction that has just been
  taken out; it holds between the two halves of \<open>add_transaction\<close>. The invariant proper is the
  case \<open>F = {}\<close>: the transactions are filed under their hashes, \<open>provided_markers\<close> maps a marker
  to the one transaction of the queue that provides it, and the independent transactions are
  in the queue.
\<close>

definition ready_inv_except ::
    "tx_marker set \<Rightarrow> (tx_marker, tx_hash) fmap \<Rightarrow> (tx_hash \<Rightarrow> PoolTransactionRef option)
       \<Rightarrow> PoolTransactionRef list \<Rightarrow> bool" where
  "ready_inv_except F prov \<rho> ind \<longleftrightarrow>
     (\<forall>h r. \<rho> h = Some r \<longrightarrow> tx_hash_of (ref_tx r) = h \<and> wf_pool_tx (ref_tx r)) \<and>
     (\<forall>m h r. \<rho> h = Some r \<longrightarrow> m \<in> set (provides (ref_tx r)) \<longrightarrow> fmlookup prov m = Some h) \<and>
     (\<forall>m h. fmlookup prov m = Some h \<longrightarrow> m \<notin> F \<longrightarrow>
        (\<exists>r. \<rho> h = Some r \<and> m \<in> set (provides (ref_tx r)))) \<and>
     (\<forall>r \<in> set ind. \<rho> (tx_hash_of (ref_tx r)) = Some r)"

definition ready_inv :: "ReadyTransactions \<Rightarrow> bool" where
  "ready_inv R \<longleftrightarrow>
     ready_inv_except {} (provided_markers R) (refs (ready_tx R)) (independent_transactions R)"

lemma ready_inv_exceptD:
  assumes "ready_inv_except F prov \<rho> ind"
  shows "\<rho> h = Some r \<Longrightarrow> tx_hash_of (ref_tx r) = h"
    and "\<rho> h = Some r \<Longrightarrow> wf_pool_tx (ref_tx r)"
    and "\<rho> h = Some r \<Longrightarrow> m \<in> set (provides (ref_tx r)) \<Longrightarrow> fmlookup prov m = Some h"
    and "fmlookup prov m = Some h \<Longrightarrow> m \<notin> F \<Longrightarrow> \<exists>r. \<rho> h = Some r \<and> m \<in> set (provides (ref_tx r))"
    and "r \<in> set ind \<Longrightarrow> \<rho> (tx_hash_of (ref_tx r)) = Some r"
  using assms unfolding ready_inv_except_def by blast+

lemma ready_inv_empty: "ready_inv ready_empty"
  by (simp add: ready_inv_def ready_inv_except_def ready_empty_def refs_def)

lemma ready_inv_clear: "ready_inv (ready_clear R)"
  by (simp add: ready_inv_def ready_inv_except_def ready_clear_def refs_def)

lemma ready_inv_except_mono:
  "ready_inv_except F prov \<rho> ind \<Longrightarrow> F \<subseteq> G \<Longrightarrow> ready_inv_except G prov \<rho> ind"
  unfolding ready_inv_except_def by blast

text \<open>Taking one transaction out, with the markers it provides outside \<open>F\<close>.\<close>

lemma ready_inv_except_drop:
  assumes inv: "ready_inv_except F prov \<rho> ind" and r: "\<rho> h = Some r"
    and prov': "\<And>m. fmlookup prov' m =
                  (if m \<in> set (provides (ref_tx r)) \<and> m \<notin> F then None else fmlookup prov m)"
    and ind': "set ind' \<subseteq> set ind - {r}"
  shows "ready_inv_except F prov' (\<rho>(h := None)) ind'"
  unfolding ready_inv_except_def
proof (intro conjI allI impI ballI)
  fix h' s
  assume "(\<rho>(h := None)) h' = Some s"
  then show "tx_hash_of (ref_tx s) = h'" "wf_pool_tx (ref_tx s)"
    using ready_inv_exceptD(1,2) [OF inv] by (auto split: if_splits)
next
  fix m h' s
  assume s: "(\<rho>(h := None)) h' = Some s" "m \<in> set (provides (ref_tx s))"
  then have "fmlookup prov m = Some h'" "h' \<noteq> h"
    using ready_inv_exceptD(3) [OF inv] by (auto split: if_splits)
  then show "fmlookup prov' m = Some h'"
    using ready_inv_exceptD(3) [OF inv r, of m] by (auto simp: prov')
next
  fix m h'
  assume m: "fmlookup prov' m = Some h'" "m \<notin> F"
  then have "fmlookup prov m = Some h'" "m \<notin> set (provides (ref_tx r))"
    by (auto simp: prov' split: if_splits)
  with ready_inv_exceptD(4) [OF inv] m(2) r
  show "\<exists>s. (\<rho>(h := None)) h' = Some s \<and> m \<in> set (provides (ref_tx s))" by fastforce
next
  fix s
  assume "s \<in> set ind'"
  then have "\<rho> (tx_hash_of (ref_tx s)) = Some s" "s \<noteq> r"
    using ready_inv_exceptD(5) [OF inv] ind' by auto
  with r show "(\<rho>(h := None)) (tx_hash_of (ref_tx s)) = Some s" by auto
qed

lemma fmlookup_fold_fmdrop: "fmlookup (fold fmdrop ms prov) m = (if m \<in> set ms then None else fmlookup prov m)"
  by (induction ms arbitrary: prov) auto

lemma fmlookup_provide_marks:
  "fmlookup (provide_marks h ms prov) m = (if m \<in> set ms then Some h else fmlookup prov m)"
  unfolding provide_marks_def by (induction ms arbitrary: prov) auto

section \<open>Removal\<close>

definition filter_marks :: "tx_marker fset option \<Rightarrow> tx_marker set" where
  "filter_marks f = (case f of None \<Rightarrow> {} | Some s \<Rightarrow> fset s)"

lemma set_invalidated_marks:
  "set (invalidated_marks f tx) = set (provides tx) - filter_marks f"
  by (auto simp: invalidated_marks_def filter_marks_def split: option.splits)

abbreviation ready_inv_mod :: "tx_marker set \<Rightarrow> ReadyTransactions \<Rightarrow> bool" where
  "ready_inv_mod F R \<equiv>
     ready_inv_except F (provided_markers R) (refs (ready_tx R)) (independent_transactions R)"

lemma remove_entry_refs:
  "refs (ready_tx (remove_entry f h rt R)) = (refs (ready_tx R))(h := None)"
  by (simp add: remove_entry_def Let_def refs_simps)

lemma remove_entry_inv:
  assumes "ready_inv_mod (filter_marks f) R" and "fmlookup (ready_tx R) h = Some rt"
  shows "ready_inv_mod (filter_marks f) (remove_entry f h rt R)"
  unfolding remove_entry_refs
proof (rule ready_inv_except_drop [OF assms(1)])
  show "refs (ready_tx R) h = Some (rt_ref rt)" using assms(2) by (simp add: refs_def)
qed (use set_btree_remove in \<open>auto simp: remove_entry_def Let_def fmlookup_fold_fmdrop set_invalidated_marks\<close>)

lemma remove_entry_next_id: "next_ref_id (remove_entry f h rt R) = next_ref_id R"
  by (simp add: remove_entry_def Let_def)

lemma remove_entry_provided:
  "fmlookup (provided_markers (remove_entry f h rt R)) m = Some h' \<Longrightarrow>
     fmlookup (provided_markers R) m = Some h'"
  by (auto simp: remove_entry_def Let_def fmlookup_fold_fmdrop split: if_splits)

text \<open>
  What \<open>remove_with_markers\<close> does to the queue: everything on the stack is gone, the rest is
  untouched, and the result lists what was taken out.
\<close>

definition removal_of ::
    "tx_hash set \<Rightarrow> PoolTransaction list \<Rightarrow> ReadyTransactions \<Rightarrow> ReadyTransactions \<Rightarrow> bool" where
  "removal_of hs removed R R' \<longleftrightarrow>
     (\<forall>h. refs (ready_tx R') h = None \<or> refs (ready_tx R') h = refs (ready_tx R) h) \<and>
     (\<forall>h \<in> hs. refs (ready_tx R') h = None) \<and>
     set removed = {ref_tx r |h r. refs (ready_tx R) h = Some r \<and> refs (ready_tx R') h = None} \<and>
     (\<forall>m h. fmlookup (provided_markers R') m = Some h \<longrightarrow> fmlookup (provided_markers R) m = Some h) \<and>
     next_ref_id R' = next_ref_id R"

lemma removed_insert:
  assumes "\<rho> h = Some r" and "\<sigma> h = None"
  shows "{ref_tx r |k r. \<rho> k = Some r \<and> \<sigma> k = None} =
           insert (ref_tx r) {ref_tx r |k r. (\<rho>(h := None)) k = Some r \<and> \<sigma> k = None}" (is "?A = insert _ ?B")
proof (intro equalityI subsetI)
  fix t assume "t \<in> ?A"
  then obtain k s where "t = ref_tx s" "\<rho> k = Some s" "\<sigma> k = None" by blast
  with assms show "t \<in> insert (ref_tx r) ?B" by (cases "k = h") auto
qed (use assms in \<open>auto split: if_splits\<close>)

lemma removal_of_step:
  assumes h: "refs (ready_tx R) h = Some r"
    and refs1: "refs (ready_tx R1) = (refs (ready_tx R))(h := None)"
    and prov1: "\<And>m h. fmlookup (provided_markers R1) m = Some h \<Longrightarrow> fmlookup (provided_markers R) m = Some h"
    and id1: "next_ref_id R1 = next_ref_id R"
    and rest: "removal_of hs removed R1 R'"
  shows "removal_of (insert h hs) (ref_tx r # removed) R R'"
proof -
  have gone: "refs (ready_tx R') h = None"
    using rest by (auto simp: removal_of_def refs1 split: if_splits)
  have split: "{ref_tx r |k r. refs (ready_tx R) k = Some r \<and> refs (ready_tx R') k = None} =
      insert (ref_tx r) {ref_tx r |k r. refs (ready_tx R1) k = Some r \<and> refs (ready_tx R') k = None}"
    unfolding refs1 by (rule removed_insert) (fact h gone)+
  have "set (ref_tx r # removed) =
        {ref_tx r |k r. refs (ready_tx R) k = Some r \<and> refs (ready_tx R') k = None}"
    using rest unfolding split by (simp add: removal_of_def)
  moreover have "refs (ready_tx R') k = None \<or> refs (ready_tx R') k = refs (ready_tx R) k" for k
    using rest gone unfolding removal_of_def refs1 by (cases "k = h") auto
  ultimately show ?thesis
    using rest gone prov1 unfolding removal_of_def id1 by simp
qed

lemma remove_loop_ok:
  assumes "ready_inv_mod (filter_marks f) R" and "remove_loop f stack R = (removed, R')"
  shows "ready_inv_mod (filter_marks f) R' \<and> removal_of (set stack) removed R R'"
  using assms
proof (induction f stack R arbitrary: removed R' rule: remove_loop.induct)
  case (1 f R)
  then show ?case by (auto simp: removal_of_def)
next
  case (2 f h stack R)
  show ?case
  proof (cases "fmlookup (ready_tx R) h")
    case None
    with 2 have IH: "ready_inv_mod (filter_marks f) R' \<and> removal_of (set stack) removed R R'" by simp
    moreover have "refs (ready_tx R) h = None" using None by (simp add: refs_def)
    ultimately show ?thesis by (auto simp: removal_of_def)
  next
    case (Some rt)
    let ?stack = "(if invalidated_marks f (rt_tx rt) \<noteq> [] then rev (unlocks rt) else []) @ stack"
    from "2.prems"(2) Some obtain removed1 where
      run: "remove_loop f ?stack (remove_entry f h rt R) = (removed1, R')"
      and removed: "removed = rt_tx rt # removed1"
      by (auto split: prod.splits)
    from "2.IH"(2) [OF Some remove_entry_inv [OF "2.prems"(1) Some] run]
    have IH: "ready_inv_mod (filter_marks f) R'" "removal_of (set ?stack) removed1 (remove_entry f h rt R) R'"
      by auto
    have "removal_of (insert h (set ?stack)) removed R R'"
      unfolding removed
      by (rule removal_of_step [OF _ remove_entry_refs remove_entry_provided remove_entry_next_id IH(2)])
        (use Some in \<open>simp_all add: refs_def\<close>)
    with IH(1) show ?thesis by (auto simp: removal_of_def)
  qed
qed

lemma remove_with_markers_ok:
  assumes "ready_inv R" and "remove_with_markers hs None R = (removed, R')"
  shows "ready_inv R' \<and> removal_of (set hs) removed R R'"
  using remove_loop_ok [of None R "rev hs" removed R'] assms
  by (simp add: ready_inv_def remove_with_markers_def filter_marks_def)

section \<open>Insertion\<close>

lemma set_filter_map: "set (filter_map f xs) = {y. \<exists>x \<in> set xs. f x = Some y}"
  by (induction xs) (auto split: option.splits)

lemma replaced_unlocks_None:
  "replaced_unlocks tx rts = None \<longleftrightarrow>
     (\<exists>rt \<in> set rts. provides (rt_tx rt) = provides tx \<and> tx_gas_price tx \<le> tx_gas_price (rt_tx rt))"
  by (induction rts) auto

text \<open>The transactions of the queue that provide one of the given markers.\<close>

definition providers :: "tx_marker list \<Rightarrow> ReadyTransactions \<Rightarrow> tx_hash set" where
  "providers ms R = {h. \<exists>r. refs (ready_tx R) h = Some r \<and> set ms \<inter> set (provides (ref_tx r)) \<noteq> {}}"

lemma remove_hashes_providers:
  assumes "ready_inv R"
  shows "set (filter_map (fmlookup (provided_markers R)) ms) = providers ms R"
  using ready_inv_exceptD(3,4) [OF assms [unfolded ready_inv_def]]
  unfolding set_filter_map providers_def by fastforce

text \<open>The queue holds a transaction with the same markers that pays at least as much.\<close>

definition outbid :: "PoolTransaction \<Rightarrow> ReadyTransactions \<Rightarrow> bool" where
  "outbid tx R \<longleftrightarrow>
     (\<exists>h r. refs (ready_tx R) h = Some r \<and> provides (ref_tx r) = provides tx \<and>
        tx_gas_price tx \<le> tx_gas_price (ref_tx r))"

lemma outbid_intro:
  assumes "replaced_unlocks tx (filter_map (fmlookup (ready_tx R)) hs) = None"
  shows "outbid tx R"
  using assms unfolding outbid_def replaced_unlocks_None set_filter_map
  by (fastforce simp: refs_def)

lemma replaced_transactions_ok:
  assumes inv: "ready_inv R" and ho: "hash_orders_ok ho"
    and run: "replaced_transactions ho tx R = (R1, res)"
  shows "case res of
           Inl e \<Rightarrow> R1 = R \<and> e = ReplacementUnderpriced tx \<and> outbid tx R
         | Inr (removed, us) \<Rightarrow>
             ready_inv_mod (set (provides tx)) R1 \<and> removal_of (providers (provides tx) R) removed R R1"
proof -
  let ?hs = "fset_of_list (filter_map (fmlookup (provided_markers R)) (provides tx))"
  have hs: "fset ?hs = providers (provides tx) R"
    by (simp add: fset_of_list.rep_eq remove_hashes_providers [OF inv])
  have inv0: "ready_inv_mod (set (provides tx)) R"
    using inv unfolding ready_inv_def by (rule ready_inv_except_mono) simp
  show ?thesis
  proof (cases "?hs = {||}")
    case True
    then have "res = Inr ([], [])" "R1 = R"
      using run by (auto simp: replaced_transactions_def Let_def)
    moreover have "providers (provides tx) R = {}" using hs True by simp
    ultimately show ?thesis using inv0 by (auto simp: removal_of_def)
  next
    case False
    show ?thesis
    proof (cases "replaced_unlocks tx (filter_map (fmlookup (ready_tx R)) (hash_order ho ?hs))")
      case None
      then show ?thesis
        using run False outbid_intro [OF None] by (auto simp: replaced_transactions_def Let_def)
    next
      case (Some us)
      obtain removed where
        rm: "remove_loop (Some (fset_of_list (provides tx))) (rev (hash_order ho ?hs)) R = (removed, R1)"
        and res: "res = Inr (removed, us)"
        using run False Some
        by (auto simp: replaced_transactions_def remove_with_markers_def Let_def split: prod.splits)
      have F: "filter_marks (Some (fset_of_list (provides tx))) = set (provides tx)"
        by (simp add: filter_marks_def fset_of_list.rep_eq)
      from remove_loop_ok [OF inv0 [folded F] rm] show ?thesis
        unfolding F by (simp add: res hash_orders_okD [OF ho] hs)
    qed
  qed
qed

lemma link_requires_ok:
  assumes "\<forall>m \<in> set ms. \<forall>other. fmlookup prov m = Some other \<longrightarrow> refs (fst st) other \<noteq> None"
  shows "\<exists>ready' ind' off'. link_requires hash prov ms st = Some (ready', ind', off')"
  using assms
proof (induction hash prov ms st rule: link_requires.induct)
  case (2 hash prov m ms ready ind off)
  show ?case
  proof (cases "fmlookup prov m")
    case None
    with 2 show ?thesis by simp
  next
    case (Some other)
    with "2.prems" obtain rt where rt: "fmlookup ready other = Some rt" by (auto simp: refs_def)
    let ?ready = "fmupd other (rt\<lparr>unlocks := unlocks rt @ [hash]\<rparr>) ready"
    have "refs ?ready = refs ready" using refs_same [OF rt] by (simp add: refs_simps)
    with 2 Some rt show ?thesis by simp
  qed
qed auto

text \<open>Filing the new transaction completes the invariant.\<close>

lemma ready_inv_insert:
  assumes inv: "ready_inv_except (set (provides tx)) prov \<rho> ind"
    and fresh: "\<rho> (tx_hash_of tx) = None" and wf: "wf_pool_tx tx"
    and none: "\<And>h r. \<rho> h = Some r \<Longrightarrow> set (provides tx) \<inter> set (provides (ref_tx r)) = {}"
    and r: "ref_tx r = tx" and ind': "set ind' \<subseteq> insert r (set ind)"
  shows "ready_inv_except {} (provide_marks (tx_hash_of tx) (provides tx) prov)
           (\<rho>(tx_hash_of tx \<mapsto> r)) ind'"
  unfolding ready_inv_except_def
proof (intro conjI allI impI ballI)
  fix h s
  assume "(\<rho>(tx_hash_of tx \<mapsto> r)) h = Some s"
  then show "tx_hash_of (ref_tx s) = h" "wf_pool_tx (ref_tx s)"
    using ready_inv_exceptD(1,2) [OF inv] wf r by (auto split: if_splits)
next
  fix m h s
  assume "(\<rho>(tx_hash_of tx \<mapsto> r)) h = Some s" "m \<in> set (provides (ref_tx s))"
  then show "fmlookup (provide_marks (tx_hash_of tx) (provides tx) prov) m = Some h"
    using ready_inv_exceptD(3) [OF inv] none r
    by (fastforce simp: fmlookup_provide_marks split: if_splits)
next
  fix m h
  assume "fmlookup (provide_marks (tx_hash_of tx) (provides tx) prov) m = Some h" "m \<notin> {}"
  then show "\<exists>s. (\<rho>(tx_hash_of tx \<mapsto> r)) h = Some s \<and> m \<in> set (provides (ref_tx s))"
    using ready_inv_exceptD(4) [OF inv, of m h] fresh r
    by (fastforce simp: fmlookup_provide_marks split: if_splits)
next
  fix s
  assume "s \<in> set ind'"
  then have "s = r \<or> s \<in> set ind" using ind' by auto
  then show "(\<rho>(tx_hash_of tx \<mapsto> r)) (tx_hash_of (ref_tx s)) = Some s"
    using ready_inv_exceptD(5) [OF inv, of s] fresh r by auto
qed

text \<open>The contract of \<open>add_transaction\<close>.\<close>

definition ready_added ::
    "PoolTransaction \<Rightarrow> PoolTransaction list \<Rightarrow> ReadyTransactions \<Rightarrow> ReadyTransactions \<Rightarrow> bool" where
  "ready_added tx replaced R R' \<longleftrightarrow>
     refs (ready_tx R') (tx_hash_of tx) = Some \<lparr>ref_tx = tx, ref_id = next_ref_id R\<rparr> \<and>
     next_ref_id R' = next_ref_id R + 1 \<and>
     (\<forall>h. h \<noteq> tx_hash_of tx \<longrightarrow>
        refs (ready_tx R') h = None \<or> refs (ready_tx R') h = refs (ready_tx R) h) \<and>
     (\<forall>h \<in> providers (provides tx) R. refs (ready_tx R') h = None) \<and>
     set replaced = {ref_tx r |h r. refs (ready_tx R) h = Some r \<and> refs (ready_tx R') h = None} \<and>
     (\<forall>m. fmlookup (provided_markers R') m \<noteq> None \<longrightarrow>
        fmlookup (provided_markers R) m \<noteq> None \<or> m \<in> set (provides tx))"

lemma ready_added_intro:
  assumes rm: "removal_of (providers (provides tx) R) removed R R1"
    and fresh: "refs (ready_tx R) (tx_hash_of tx) = None"
    and refs': "refs (ready_tx R') = (refs (ready_tx R1))
                  (tx_hash_of tx \<mapsto> \<lparr>ref_tx = tx, ref_id = next_ref_id R1\<rparr>)"
    and id': "next_ref_id R' = next_ref_id R1 + 1"
    and prov': "\<And>m. fmlookup (provided_markers R') m =
                  (if m \<in> set (provides tx) then Some (tx_hash_of tx) else fmlookup (provided_markers R1) m)"
  shows "ready_added tx removed R R'"
proof -
  have "next_ref_id R1 = next_ref_id R" using rm by (simp add: removal_of_def)
  moreover have "refs (ready_tx R') h = None" if "h \<in> providers (provides tx) R" for h
    using rm that fresh by (auto simp: removal_of_def refs' providers_def)
  moreover have "refs (ready_tx R) h = Some r \<and> refs (ready_tx R') h = None \<longleftrightarrow>
      refs (ready_tx R) h = Some r \<and> refs (ready_tx R1) h = None" for h r
    using fresh by (auto simp: refs')
  moreover have "fmlookup (provided_markers R) m \<noteq> None \<or> m \<in> set (provides tx)"
    if "fmlookup (provided_markers R') m \<noteq> None" for m
    using rm that by (auto simp: prov' removal_of_def split: if_splits)
  ultimately show ?thesis
    using rm unfolding ready_added_def removal_of_def by (simp add: refs' id')
qed

lemma ready_add_transaction_ok:
  fixes ptx :: PendingPoolTransaction
  defines "tx \<equiv> pool_tx ptx"
  assumes inv: "ready_inv R" and ho: "hash_orders_ok ho" and wf: "wf_pool_tx tx"
    and ready: "is_ready ptx" and fresh: "fmlookup (ready_tx R) (tx_hash_of tx) = None"
  shows "\<exists>R' res. ready_add_transaction ho ptx R = Some (R', res) \<and> ready_inv R' \<and>
           (case res of
              Inl e \<Rightarrow> R' = R \<and> e = ReplacementUnderpriced tx \<and> outbid tx R
            | Inr replaced \<Rightarrow> ready_added tx replaced R R')"
proof (cases "replaced_transactions ho tx R")
  case (Pair R1 res1)
  note rep = replaced_transactions_ok [OF inv ho Pair]
  show ?thesis
  proof (cases res1)
    case (Inl e)
    with rep inv Pair ready fresh show ?thesis
      by (simp add: ready_add_transaction_def Let_def flip: tx_def)
  next
    case (Inr p)
    obtain removed us where p: "p = (removed, us)" by (cases p)
    with rep Inr have inv1: "ready_inv_mod (set (provides tx)) R1"
      and rm: "removal_of (providers (provides tx) R) removed R R1" by auto
    let ?h = "tx_hash_of tx"
    let ?r = "\<lparr>ref_tx = tx, ref_id = next_ref_id R1\<rparr>"
    have fresh1: "refs (ready_tx R1) ?h = None"
      using rm fresh unfolding removal_of_def by (metis refs_def option.map(1))
    have "\<forall>m \<in> set (requires tx). \<forall>other. fmlookup (provided_markers R1) m = Some other \<longrightarrow>
            refs (fst (ready_tx R1, True, 0 :: nat)) other \<noteq> None"
      using ready_inv_exceptD(4) [OF inv1] wf by (fastforce simp: wf_pool_tx_def)
    from link_requires_ok [OF this, of ?h] obtain ready' ind' off' where
      link: "link_requires ?h (provided_markers R1) (requires tx) (ready_tx R1, True, 0)
              = Some (ready', ind', off')" by blast
    have refs': "refs ready' = refs (ready_tx R1)" using refs_link_requires [OF link] by simp
    let ?ind = "if ind' then btree_insert ?r (independent_transactions R1) else independent_transactions R1"
    let ?R' = "R1\<lparr>next_ref_id := next_ref_id R1 + 1,
                  provided_markers := provide_marks ?h (provides tx) (provided_markers R1),
                  independent_transactions := ?ind,
                  ready_tx := fmupd ?h \<lparr>rt_ref = ?r, unlocks = us, requires_offset = off'\<rparr> ready'\<rparr>"
    have run: "ready_add_transaction ho ptx R = Some (?R', Inr removed)"
      using Pair Inr p ready fresh link
      by (simp add: ready_add_transaction_def next_id_def Let_def flip: tx_def)
    have none: "set (provides tx) \<inter> set (provides (ref_tx r)) = {}"
      if "refs (ready_tx R1) h = Some r" for h r
      using rm that unfolding removal_of_def providers_def by (metis (mono_tags, lifting) mem_Collect_eq option.distinct(1))
    have ind: "set ?ind \<subseteq> insert ?r (set (independent_transactions R1))"
      using set_btree_insert by auto
    have "ready_inv_except {} (provide_marks ?h (provides tx) (provided_markers R1))
            ((refs (ready_tx R1))(?h \<mapsto> ?r)) ?ind"
      by (rule ready_inv_insert [OF inv1 fresh1 wf none _ ind]) simp_all
    then have inv': "ready_inv ?R'"
      by (simp add: ready_inv_def refs_simps refs')
    have "ready_added tx removed R ?R'"
      by (rule ready_added_intro [OF rm]) (use fresh in \<open>auto simp: refs_simps refs' refs_def fmlookup_provide_marks\<close>)
    with run inv' show ?thesis by auto
  qed
qed

section \<open>Pruning\<close>

lemma prune_provided_ok:
  assumes "distinct ms" and "\<forall>m \<in> set ms. fmlookup prov m = (if current = m then None else Some hash)"
  shows "\<exists>prov'. prune_provided current hash ms prov = Some prov' \<and>
           (\<forall>m. fmlookup prov' m = (if m \<in> set ms then None else fmlookup prov m))"
  using assms
proof (induction ms arbitrary: prov)
  case (Cons m ms)
  then have "\<forall>k \<in> set ms. fmlookup (fmdrop m prov) k = (if current = k then None else Some hash)"
    by auto
  from Cons.IH [OF _ this] Cons.prems(1) obtain prov' where
    prov': "prune_provided current hash ms (fmdrop m prov) = Some prov'"
      "\<And>k. fmlookup prov' k = (if k \<in> set ms then None else fmlookup (fmdrop m prov) k)" by auto
  have "fmlookup prov m = (if current = m then None else Some hash)"
    using Cons.prems(2) by simp
  then show ?case by (simp add: prov')
qed simp

text \<open>One round of the pruning loop: it does not panic, keeps the invariant and takes one transaction out.\<close>

lemma prune_round:
  assumes inv: "ready_inv R" and m: "fmlookup (provided_markers R) m = Some hash"
    and rt: "fmlookup (ready_tx R) hash = Some rt"
    and prev: "prune_previous (tx_hash_of (rt_tx rt)) (fmdrop m (provided_markers R)) (requires (rt_tx rt))
                 stack (fmdrop hash (ready_tx R)) = (stack', ready1)"
    and unl: "prune_unlock (unlocks rt) (ready1, btree_remove (rt_ref rt) (independent_transactions R))
                = (ready2, ind')"
  shows "\<exists>prov'. prune_provided m (tx_hash_of (rt_tx rt)) (provides (rt_tx rt))
                 (fmdrop m (provided_markers R)) = Some prov' \<and>
               ready_inv (R\<lparr>provided_markers := prov', ready_tx := ready2, independent_transactions := ind'\<rparr>) \<and>
               refs ready2 = (refs (ready_tx R))(hash := None) \<and> fmlookup prov' m = None \<and>
               (\<forall>k h. fmlookup prov' k = Some h \<longrightarrow> fmlookup (provided_markers R) k = Some h)"
proof -
  note D = ready_inv_exceptD [OF inv [unfolded ready_inv_def]]
  have r: "refs (ready_tx R) hash = Some (rt_ref rt)" using rt by (simp add: refs_def)
  have hash: "tx_hash_of (rt_tx rt) = hash" using D(1) [OF r] .
  have mem: "m \<in> set (provides (rt_tx rt))" using D(4) [OF m] r by auto
  have "distinct (provides (rt_tx rt))" using D(2) [OF r] by (simp add: wf_pool_tx_def)
  moreover have "\<forall>k \<in> set (provides (rt_tx rt)).
      fmlookup (fmdrop m (provided_markers R)) k = (if m = k then None else Some hash)"
    using D(3) [OF r] by auto
  ultimately have "\<exists>prov'. prune_provided m hash (provides (rt_tx rt)) (fmdrop m (provided_markers R)) = Some prov' \<and>
      (\<forall>k. fmlookup prov' k = (if k \<in> set (provides (rt_tx rt)) then None
         else fmlookup (fmdrop m (provided_markers R)) k))"
    by (rule prune_provided_ok)
  then obtain prov' where
    prov': "prune_provided m hash (provides (rt_tx rt)) (fmdrop m (provided_markers R)) = Some prov'"
      "\<And>k. fmlookup prov' k = (if k \<in> set (provides (rt_tx rt)) then None
         else fmlookup (fmdrop m (provided_markers R)) k)"
    by blast
  have refs2: "refs ready2 = (refs (ready_tx R))(hash := None)"
    and ind: "\<And>s. s \<in> set ind' \<Longrightarrow> s \<in> set (btree_remove (rt_ref rt) (independent_transactions R)) \<or>
                  (\<exists>h. ((refs (ready_tx R))(hash := None)) h = Some s)"
    using prune_unlock_spec [OF unl] refs_prune_previous [OF prev] by (auto simp: refs_simps)
  have base: "ready_inv_except {} prov' ((refs (ready_tx R))(hash := None))
           (btree_remove (rt_ref rt) (independent_transactions R))"
    by (rule ready_inv_except_drop [OF inv [unfolded ready_inv_def] r])
      (use prov'(2) mem set_btree_remove in auto)
  have "\<forall>s \<in> set ind'. ((refs (ready_tx R))(hash := None)) (tx_hash_of (ref_tx s)) = Some s"
    using ind ready_inv_exceptD(1,5) [OF base] by metis
  then have "ready_inv_except {} prov' ((refs (ready_tx R))(hash := None)) ind'"
    using base unfolding ready_inv_except_def by blast
  then show ?thesis
    using prov' mem refs2 by (auto simp: ready_inv_def hash split: if_splits)
qed

lemma prune_previous_stack: "set stack \<subseteq> set (fst (prune_previous hash prov ms stack ready))"
proof (induction ms arbitrary: stack ready)
  case (Cons m ms)
  have "set stack \<subseteq> set (fst (prune_previous hash prov ms (xs @ stack) ready'))" for xs ready'
    using Cons.IH [of "xs @ stack" ready'] by simp
  note this [of "[]", simplified] this
  then show ?case by (simp add: Let_def split: option.split)
qed simp

lemma prune_loop_ok:
  assumes "ready_inv R"
  shows "\<exists>removed R'. prune_loop stack R = Some (removed, R') \<and> ready_inv R' \<and>
           removal_of {} removed R R' \<and> (\<forall>m \<in> set stack. fmlookup (provided_markers R') m = None)"
  using assms
proof (induction stack R rule: prune_loop.induct)
  case (1 R)
  then show ?case by (simp add: removal_of_def)
next
  case (2 m stack R)
  show ?case
  proof (cases "fmlookup (provided_markers R) m")
    case None
    with 2 obtain removed R' where IH: "prune_loop stack R = Some (removed, R')" "ready_inv R'"
      "removal_of {} removed R R'" "\<forall>m \<in> set stack. fmlookup (provided_markers R') m = None" by auto
    moreover from IH(3) None have "fmlookup (provided_markers R') m = None"
      by (cases "fmlookup (provided_markers R') m") (auto simp: removal_of_def)
    ultimately show ?thesis using None by simp
  next
    case (Some hash)
    from ready_inv_exceptD(4) [OF "2.prems" [unfolded ready_inv_def] Some] obtain rt where
      rt: "fmlookup (ready_tx R) hash = Some rt" by (auto simp: refs_def)
    obtain stack' ready1 where prev:
      "prune_previous (tx_hash_of (rt_tx rt)) (fmdrop m (provided_markers R)) (requires (rt_tx rt))
         stack (fmdrop hash (ready_tx R)) = (stack', ready1)" by fastforce
    obtain ready2 ind' where unl:
      "prune_unlock (unlocks rt) (ready1, btree_remove (rt_ref rt) (independent_transactions R))
         = (ready2, ind')" by fastforce
    from prune_round [OF "2.prems" Some rt prev unl] obtain prov' where
      round: "prune_provided m (tx_hash_of (rt_tx rt)) (provides (rt_tx rt))
                (fmdrop m (provided_markers R)) = Some prov'"
        "ready_inv (R\<lparr>provided_markers := prov', ready_tx := ready2, independent_transactions := ind'\<rparr>)"
        "refs ready2 = (refs (ready_tx R))(hash := None)" "fmlookup prov' m = None"
        "\<And>k h. fmlookup prov' k = Some h \<Longrightarrow> fmlookup (provided_markers R) k = Some h" by blast
    let ?R1 = "R\<lparr>provided_markers := prov', ready_tx := ready2, independent_transactions := ind'\<rparr>"
    from "2.IH"(3) [OF Some refl rt refl refl prev [symmetric] refl unl [symmetric] refl round(1,2)]
    obtain removed R' where IH: "prune_loop stack' ?R1 = Some (removed, R')" "ready_inv R'"
      "removal_of {} removed ?R1 R'" "\<forall>m \<in> set stack'. fmlookup (provided_markers R') m = None" by auto
    have "removal_of {hash} (rt_tx rt # removed) R R'"
      by (rule removal_of_step [OF _ _ _ _ IH(3)]) (use rt round in \<open>simp_all add: refs_def\<close>)
    moreover have "fmlookup (provided_markers R') m = None"
      using IH(3) round(4) by (cases "fmlookup (provided_markers R') m") (auto simp: removal_of_def)
    moreover have "set stack \<subseteq> set stack'"
      using prune_previous_stack [of stack "tx_hash_of (rt_tx rt)" "fmdrop m (provided_markers R)"
        "requires (rt_tx rt)" "fmdrop hash (ready_tx R)"] by (simp add: prev)
    ultimately show ?thesis
      using IH(1,2,4) Some rt prev unl round(1)
      by (auto simp: Let_def removal_of_def)
  qed
qed

end
