(* ===== verification/Ready_Pool_Links.thy ===== *)
theory Ready_Pool_Links
  imports Ready_Pool_Inv
begin

text \<open>
  The unlock lists of the ready queue and the iterator that follows them. A ranking of hashes
  and markers (for the transactions of the RPC layer: the nonce) along which every link of the
  queue goes up shows that the iterator is exhausted after finitely many steps.
\<close>

section \<open>Links go up in rank\<close>

definition ranked :: "(tx_hash \<Rightarrow> nat) \<Rightarrow> (tx_marker \<Rightarrow> nat) \<Rightarrow> PoolTransaction \<Rightarrow> bool" where
  "ranked rk mrk tx \<longleftrightarrow>
     (\<forall>m \<in> set (provides tx). mrk m = rk (tx_hash_of tx)) \<and>
     (\<forall>m \<in> set (requires tx). mrk m < rk (tx_hash_of tx))"

definition links_up :: "(tx_hash \<Rightarrow> nat) \<Rightarrow> (tx_hash, ReadyTransaction) fmap \<Rightarrow> bool" where
  "links_up rk ready \<longleftrightarrow>
     (\<forall>h rt u. fmlookup ready h = Some rt \<longrightarrow> u \<in> set (unlocks rt) \<longrightarrow> rk h < rk u)"

lemma links_upD: "links_up rk ready \<Longrightarrow> fmlookup ready h = Some rt \<Longrightarrow> u \<in> set (unlocks rt) \<Longrightarrow> rk h < rk u"
  by (simp add: links_up_def)

lemma links_up_upd:
  "links_up rk ready \<Longrightarrow> \<forall>u \<in> set (unlocks rt). rk h < rk u \<Longrightarrow> links_up rk (fmupd h rt ready)"
  by (auto simp: links_up_def)

lemma links_up_drop: "links_up rk ready \<Longrightarrow> links_up rk (fmdrop h ready)"
  by (auto simp: links_up_def)

lemma links_up_swap_remove:
  assumes "links_up rk ready" and "fmlookup ready h = Some rt"
  shows "links_up rk (fmupd h (rt\<lparr>unlocks := swap_remove i (unlocks rt)\<rparr>) ready)"
  using links_upD [OF assms] set_swap_remove by (intro links_up_upd [OF assms(1)]) fastforce

lemma links_up_unlink_requires: "links_up rk ready \<Longrightarrow> links_up rk (unlink_requires prov ms ready)"
  by (induction prov ms ready rule: unlink_requires.induct)
    (auto simp: links_up_swap_remove split: option.splits)

lemma links_up_remove_loop:
  "links_up rk (ready_tx R) \<Longrightarrow> links_up rk (ready_tx (snd (remove_loop f stack R)))"
proof (induction f stack R rule: remove_loop.induct)
  case (2 f h stack R)
  then show ?case
    by (auto simp: remove_entry_def Let_def links_up_unlink_requires links_up_drop
        split: option.splits prod.splits)
qed simp

lemma links_up_link_requires:
  assumes "link_requires hash prov ms st = Some st'" and "links_up rk (fst st)"
    and "\<forall>m \<in> set ms. \<forall>other. fmlookup prov m = Some other \<longrightarrow> rk other < rk hash"
  shows "links_up rk (fst st')"
  using assms
proof (induction hash prov ms st rule: link_requires.induct)
  case (2 hash prov m ms ready ind off)
  show ?case
  proof (cases "fmlookup prov m")
    case None
    with 2 show ?thesis by simp
  next
    case (Some other)
    with "2.prems" obtain rt where rt: "fmlookup ready other = Some rt" by (auto split: option.splits)
    have "links_up rk (fmupd other (rt\<lparr>unlocks := unlocks rt @ [hash]\<rparr>) ready)"
      using "2.prems"(2,3) Some rt by (intro links_up_upd) (auto dest: links_upD)
    with "2.IH"(2) [OF Some rt] "2.prems" Some rt show ?thesis by simp
  qed
qed simp

lemma links_up_prune_previous:
  "links_up rk ready \<Longrightarrow> links_up rk (snd (prune_previous hash prov ms stack ready))"
proof (induction hash prov ms stack ready rule: prune_previous.induct)
  case (2 hash prov m ms stack ready)
  have "links_up rk (fmupd h (rt\<lparr>unlocks := (case position (\<lambda>i. i = hash) (unlocks rt) of
          None \<Rightarrow> unlocks rt | Some i \<Rightarrow> swap_remove i (unlocks rt))\<rparr>) ready)"
    if "fmlookup ready h = Some rt" for h rt
    using 2(3) that links_up_swap_remove [OF 2(3) that] links_up_upd [OF 2(3)] links_upD [OF 2(3) that]
    by (auto split: option.split)
  with 2 show ?case by (auto simp: Let_def bind_eq_Some_conv split: option.splits)
qed simp

lemma links_up_prune_unlock:
  "links_up rk ready \<Longrightarrow> links_up rk (fst (prune_unlock hs (ready, ind)))"
proof (induction hs arbitrary: ready ind)
  case (Cons h hs)
  have "links_up rk (fmupd h (rt\<lparr>requires_offset := requires_offset rt + 1\<rparr>) ready)"
    if "fmlookup ready h = Some rt" for rt
    using Cons.prems that by (intro links_up_upd) (auto dest: links_upD)
  with Cons show ?case by (simp add: Let_def split: option.split)
qed simp

lemma links_up_prune_loop:
  "prune_loop stack R = Some (removed, R') \<Longrightarrow> links_up rk (ready_tx R) \<Longrightarrow> links_up rk (ready_tx R')"
proof (induction stack R arbitrary: removed R' rule: prune_loop.induct)
  case (2 m stack R)
  show ?case
  proof (cases "fmlookup (provided_markers R) m")
    case None
    with 2 show ?thesis by simp
  next
    case (Some hash)
    show ?thesis
    proof (cases "fmlookup (ready_tx R) hash")
      case None
      with 2 Some show ?thesis by (simp add: Let_def)
    next
      case rt: (Some rt)
      obtain stack' ready1 where prev:
        "prune_previous (tx_hash_of (rt_tx rt)) (fmdrop m (provided_markers R)) (requires (rt_tx rt))
           stack (fmdrop hash (ready_tx R)) = (stack', ready1)" by fastforce
      obtain ready2 ind' where unl:
        "prune_unlock (unlocks rt) (ready1, btree_remove (rt_ref rt) (independent_transactions R))
           = (ready2, ind')" by fastforce
      have "links_up rk ready1"
        using links_up_prune_previous [OF links_up_drop [OF "2.prems"(2)]] prev by (metis snd_conv)
      then have "links_up rk ready2"
        using links_up_prune_unlock unl by (metis fst_conv)
      with "2.IH"(3) [OF Some refl rt refl refl prev [symmetric] refl unl [symmetric] refl]
        "2.prems"(1) Some rt prev unl show ?thesis
        by (auto simp: Let_def split: option.splits)
    qed
  qed
qed simp

section \<open>The independent transactions stay ordered\<close>

definition ordered_refs :: "PoolTransactionRef list \<Rightarrow> bool" where
  "ordered_refs xs \<longleftrightarrow> sorted_wrt (\<lambda>a b. ref_cmp a b = Less) xs"

lemma ref_cmp_iff:
  "ref_cmp a b = Less \<longleftrightarrow> priority (ref_tx a) < priority (ref_tx b) \<or>
     priority (ref_tx a) = priority (ref_tx b) \<and> ref_id b < ref_id a"
  "ref_cmp a b = Greater \<longleftrightarrow> ref_cmp b a = Less"
  by (auto simp: ref_cmp_def then_with_iff)

lemma ref_cmp_trans: "ref_cmp a b = Less \<Longrightarrow> ref_cmp b c = Less \<Longrightarrow> ref_cmp a c = Less"
  by (auto simp: ref_cmp_iff)

lemma ordered_btree_insert: "ordered_refs xs \<Longrightarrow> ordered_refs (btree_insert r xs)"
proof (induction xs)
  case (Cons x xs)
  show ?case
  proof (cases "ref_cmp r x")
    case Less
    with Cons.prems show ?thesis by (auto simp: ordered_refs_def intro: ref_cmp_trans)
  next
    case Greater
    moreover have "y = r \<or> y \<in> set xs" if "y \<in> set (btree_insert r xs)" for y
      using that set_btree_insert by auto
    moreover have "ref_cmp x r = Less" using Greater by (simp add: ref_cmp_iff(2))
    ultimately show ?thesis using Cons by (auto simp: ordered_refs_def)
  qed (use Cons.prems in simp)
qed (simp add: ordered_refs_def)

lemma ordered_btree_remove: "ordered_refs xs \<Longrightarrow> ordered_refs (btree_remove r xs)"
  by (simp add: ordered_refs_def btree_remove_def sorted_wrt_filter)

lemma ordered_remove_loop:
  "ordered_refs (independent_transactions R) \<Longrightarrow>
     ordered_refs (independent_transactions (snd (remove_loop f stack R)))"
proof (induction f stack R rule: remove_loop.induct)
  case (2 f h stack R)
  then show ?case
    by (auto simp: remove_entry_def Let_def ordered_btree_remove split: option.splits prod.splits)
qed simp

lemma ordered_prune_unlock: "ordered_refs ind \<Longrightarrow> ordered_refs (snd (prune_unlock hs (ready, ind)))"
proof (induction hs arbitrary: ready ind)
  case (Cons h hs)
  then show ?case by (simp add: Let_def ordered_btree_insert split: option.split)
qed simp

lemma ordered_prune_loop:
  "prune_loop stack R = Some (removed, R') \<Longrightarrow> ordered_refs (independent_transactions R) \<Longrightarrow>
     ordered_refs (independent_transactions R')"
proof (induction stack R arbitrary: removed R' rule: prune_loop.induct)
  case (2 m stack R)
  have step: "ordered_refs ind'"
    if "prune_unlock us (ready1, btree_remove r (independent_transactions R)) = (ready2, ind')"
    for us ready1 r ready2 ind'
    using ordered_prune_unlock [OF ordered_btree_remove [OF "2.prems"(2)], of us ready1 r] that by simp
  show ?case
  proof (cases "fmlookup (provided_markers R) m")
    case None
    with 2 show ?thesis by simp
  next
    case (Some hash)
    show ?thesis
    proof (cases "fmlookup (ready_tx R) hash")
      case None
      with 2 Some show ?thesis by (simp add: Let_def)
    next
      case rt: (Some rt)
      obtain stack' ready1 where prev:
        "prune_previous (tx_hash_of (rt_tx rt)) (fmdrop m (provided_markers R)) (requires (rt_tx rt))
           stack (fmdrop hash (ready_tx R)) = (stack', ready1)" by fastforce
      obtain ready2 ind' where unl:
        "prune_unlock (unlocks rt) (ready1, btree_remove (rt_ref rt) (independent_transactions R))
           = (ready2, ind')" by fastforce
      from "2.IH"(3) [OF Some refl rt refl refl prev [symmetric] refl unl [symmetric] refl]
        "2.prems"(1) Some rt prev unl step [OF unl] show ?thesis
        by (auto simp: Let_def split: option.splits)
    qed
  qed
qed simp

section \<open>What a removal takes with it\<close>

text \<open>
  The transactions a removal reaches: those asked for and, from a transaction that loses a marker
  outside the filter, everything in its unlock list.
\<close>

inductive reached ::
    "tx_marker fset option \<Rightarrow> (tx_hash, ReadyTransaction) fmap \<Rightarrow> tx_hash set \<Rightarrow> tx_hash \<Rightarrow> bool"
  for f ready S where
  asked: "h \<in> S \<Longrightarrow> reached f ready S h"
| follow: "\<lbrakk>reached f ready S h; fmlookup ready h = Some rt; invalidated_marks f (rt_tx rt) \<noteq> [];
            u \<in> set (unlocks rt)\<rbrakk> \<Longrightarrow> reached f ready S u"

lemma reached_absent:
  assumes "fmlookup ready h = None" and "k \<noteq> h"
  shows "reached f ready (insert h S) k \<longleftrightarrow> reached f ready S k"
proof
  assume "reached f ready (insert h S) k"
  then have "k = h \<or> reached f ready S k"
    by induction (use assms(1) in \<open>auto intro: reached.intros\<close>)
  with assms(2) show "reached f ready S k" by simp
next
  assume "reached f ready S k"
  then show "reached f ready (insert h S) k" by induction (auto intro: reached.intros)
qed

lemma reached_entry:
  fixes f S
  assumes "fmlookup ready h = Some rt" and "k \<noteq> h"
  defines "S' \<equiv> (if invalidated_marks f (rt_tx rt) \<noteq> [] then set (unlocks rt) else {}) \<union> S"
  shows "reached f ready (insert h S) k \<longleftrightarrow> reached f (fmdrop h ready) S' k"
proof
  assume "reached f ready (insert h S) k"
  then have "k = h \<or> reached f (fmdrop h ready) S' k"
  proof induction
    case (follow h' rt' u)
    then show ?case
      using assms(1) by (cases "h' = h") (auto simp: S'_def intro: reached.intros)
  qed (auto simp: S'_def intro: reached.intros)
  with assms(2) show "reached f (fmdrop h ready) S' k" by simp
next
  assume "reached f (fmdrop h ready) S' k"
  then show "reached f ready (insert h S) k"
  proof induction
    case (asked u)
    then show ?case
      using assms(1) reached.follow [OF reached.asked [of h "insert h S" f ready] assms(1)]
      by (auto simp: S'_def intro: reached.asked split: if_splits)
  next
    case (follow h' rt' u)
    then show ?case by (auto intro: reached.follow split: if_splits)
  qed
qed

lemma unlink_requires_id: "links_up rk ready \<Longrightarrow> unlink_requires prov ms ready = ready"
proof (induction ms)
  case (Cons m ms)
  have False if "fmlookup ready h = Some rt" "position (\<lambda>i. i = h) (unlocks rt) = Some i" for h rt i
    using links_upD [OF Cons.prems that(1), of h] position_SomeD [OF that(2)] nth_mem by fastforce
  with Cons show ?case by (auto split: option.split)
qed simp

lemma remove_loop_ready:
  "links_up rk (ready_tx R) \<Longrightarrow>
     fmlookup (ready_tx (snd (remove_loop f stack R))) k =
       (if reached f (ready_tx R) (set stack) k then None else fmlookup (ready_tx R) k)"
proof (induction f stack R rule: remove_loop.induct)
  case (1 f R)
  have "\<not> reached f (ready_tx R) {} k"
  proof
    assume "reached f (ready_tx R) {} k"
    then show False by induction auto
  qed
  then show ?case by simp
next
  case (2 f h stack R)
  show ?case
  proof (cases "fmlookup (ready_tx R) h")
    case None
    with 2 reached_absent [OF None, of k f "set stack"] show ?thesis
      by (cases "k = h") (auto intro: reached.asked)
  next
    case (Some rt)
    let ?R1 = "remove_entry f h rt R"
    have R1: "ready_tx ?R1 = fmdrop h (ready_tx R)"
      using unlink_requires_id [OF links_up_drop [OF "2.prems"]] by (simp add: remove_entry_def Let_def)
    note IH = "2.IH"(2) [OF Some, unfolded R1, OF links_up_drop [OF "2.prems"]]
    show ?thesis
      using Some IH reached_entry [OF Some, of k f "set stack"]
      by (cases "k = h") (auto simp: R1 Un_commute split: prod.split intro: reached.asked)
  qed
qed

section \<open>Adding a transaction\<close>

definition ready_ranked :: "(tx_hash \<Rightarrow> nat) \<Rightarrow> (tx_marker \<Rightarrow> nat) \<Rightarrow> ReadyTransactions \<Rightarrow> bool" where
  "ready_ranked rk mrk R \<longleftrightarrow>
     links_up rk (ready_tx R) \<and> ordered_refs (independent_transactions R) \<and>
     (\<forall>h r. refs (ready_tx R) h = Some r \<longrightarrow> ranked rk mrk (ref_tx r))"

lemma ready_ranked_removal:
  assumes "removal_of hs removed R R'" and "ready_ranked rk mrk R" and "links_up rk (ready_tx R')"
    and "ordered_refs (independent_transactions R')"
  shows "ready_ranked rk mrk R'"
  using assms unfolding ready_ranked_def removal_of_def by (metis option.distinct(1))

lemma replaced_unlocks_mem:
  "replaced_unlocks tx rts = Some us \<Longrightarrow> u \<in> set us \<Longrightarrow> \<exists>rt \<in> set rts. u \<in> set (unlocks rt)"
  by (induction rts arbitrary: us) (auto split: if_splits)

lemma replaced_transactions_ranked:
  assumes inv: "ready_inv R" and ho: "hash_orders_ok ho" and rank: "ready_ranked rk mrk R"
    and tx: "ranked rk mrk tx"
    and run: "replaced_transactions ho tx R = (R1, Inr (removed, us))"
  shows "ready_ranked rk mrk R1 \<and> (\<forall>u \<in> set us. rk (tx_hash_of tx) < rk u)"
proof -
  let ?hs = "fset_of_list (filter_map (fmlookup (provided_markers R)) (provides tx))"
  have hs: "set (hash_order ho ?hs) = providers (provides tx) R"
    by (simp add: hash_orders_okD [OF ho] fset_of_list.rep_eq remove_hashes_providers [OF inv])
  have "\<exists>f stack. R1 = snd (remove_loop f stack R)"
  proof (cases "?hs = {||}")
    case True
    then have "R1 = snd (remove_loop None [] R)"
      using run by (simp add: replaced_transactions_def Let_def)
    then show ?thesis by blast
  next
    case False
    then have "R1 = snd (remove_loop (Some (fset_of_list (provides tx))) (rev (hash_order ho ?hs)) R)"
      using run by (auto simp: replaced_transactions_def remove_with_markers_def Let_def
          split: option.splits prod.splits)
    then show ?thesis by blast
  qed
  then have "links_up rk (ready_tx R1)" "ordered_refs (independent_transactions R1)"
    using rank links_up_remove_loop ordered_remove_loop by (auto simp: ready_ranked_def)
  moreover have "removal_of (providers (provides tx) R) removed R R1"
    using replaced_transactions_ok [OF inv ho run] by simp
  ultimately have 1: "ready_ranked rk mrk R1" using ready_ranked_removal rank by blast
  have same: "rk h = rk (tx_hash_of tx)" if h: "h \<in> providers (provides tx) R" for h
  proof -
    obtain r m where r: "refs (ready_tx R) h = Some r" "m \<in> set (provides tx)" "m \<in> set (provides (ref_tx r))"
      using h unfolding providers_def by blast
    then have "mrk m = rk h" "mrk m = rk (tx_hash_of tx)"
      using rank tx ready_inv_exceptD(1) [OF inv [unfolded ready_inv_def] r(1)]
      by (auto simp: ready_ranked_def ranked_def)
    then show ?thesis by simp
  qed
  have "rk (tx_hash_of tx) < rk u" if "u \<in> set us" for u
  proof -
    have "replaced_unlocks tx (filter_map (fmlookup (ready_tx R)) (hash_order ho ?hs)) = Some us"
      using run that by (auto simp: replaced_transactions_def Let_def split: if_splits option.splits prod.splits)
    from replaced_unlocks_mem [OF this that] obtain rt h where
      "u \<in> set (unlocks rt)" "h \<in> providers (provides tx) R" "fmlookup (ready_tx R) h = Some rt"
      by (auto simp: set_filter_map hs)
    then show ?thesis
      using same [of h] rank links_upD [of rk "ready_tx R" h rt u] by (simp add: ready_ranked_def)
  qed
  with 1 show ?thesis by blast
qed

lemma ready_add_transaction_ranked:
  fixes ptx :: PendingPoolTransaction
  defines "tx \<equiv> pool_tx ptx"
  assumes inv: "ready_inv R" and ho: "hash_orders_ok ho" and wf: "wf_pool_tx tx"
    and rank: "ready_ranked rk mrk R" and tx: "ranked rk mrk tx"
    and run: "ready_add_transaction ho ptx R = Some (R', res)"
  shows "ready_ranked rk mrk R'"
proof (cases "replaced_transactions ho tx R")
  case (Pair R1 res1)
  note rep = replaced_transactions_ok [OF inv ho Pair]
  show ?thesis
  proof (cases res1)
    case (Inl e)
    with run Pair rep rank show ?thesis
      by (auto simp: ready_add_transaction_def Let_def tx_def split: if_splits)
  next
    case (Inr p)
    obtain removed us where p: "p = (removed, us)" by (cases p)
    from replaced_transactions_ranked [OF inv ho rank tx Pair [unfolded Inr p]]
    have rank1: "ready_ranked rk mrk R1" and us: "\<forall>u \<in> set us. rk (tx_hash_of tx) < rk u" by auto
    have inv1: "ready_inv_mod (set (provides tx)) R1" using rep Inr p by simp
    have below: "\<forall>m \<in> set (requires tx). \<forall>other. fmlookup (provided_markers R1) m = Some other \<longrightarrow>
            rk other < rk (tx_hash_of tx)"
    proof (intro ballI allI impI)
      fix m other
      assume m: "m \<in> set (requires tx)" "fmlookup (provided_markers R1) m = Some other"
      then obtain r where r: "refs (ready_tx R1) other = Some r" "m \<in> set (provides (ref_tx r))"
        using ready_inv_exceptD(4) [OF inv1 m(2)] wf by (auto simp: wf_pool_tx_def)
      then have "mrk m = rk other"
        using rank1 ready_inv_exceptD(1) [OF inv1 r(1)] by (auto simp: ready_ranked_def ranked_def)
      with m(1) tx show "rk other < rk (tx_hash_of tx)" by (auto simp: ranked_def)
    qed
    from run Pair Inr p obtain ready' ind' off' where
      link: "link_requires (tx_hash_of tx) (provided_markers R1) (requires tx) (ready_tx R1, True, 0)
               = Some (ready', ind', off')"
      and R': "ready_tx R' = fmupd (tx_hash_of tx) \<lparr>rt_ref = \<lparr>ref_tx = tx, ref_id = next_ref_id R1\<rparr>,
                 unlocks = us, requires_offset = off'\<rparr> ready'"
      and ind: "independent_transactions R' = (if ind'
                  then btree_insert \<lparr>ref_tx = tx, ref_id = next_ref_id R1\<rparr> (independent_transactions R1)
                  else independent_transactions R1)"
      by (auto simp: ready_add_transaction_def next_id_def Let_def tx_def
          split: if_splits option.splits prod.splits)
    have "links_up rk ready'"
      using links_up_link_requires [OF link _ below] rank1 by (simp add: ready_ranked_def)
    moreover have "refs ready' = refs (ready_tx R1)" using refs_link_requires [OF link] by simp
    ultimately show ?thesis
      using rank1 tx us
      by (auto simp: ready_ranked_def R' ind refs_simps ordered_btree_insert intro: links_up_upd)
  qed
qed

section \<open>The iterator\<close>

lemma mset_btree_insert: "mset (btree_insert r xs) \<subseteq># add_mset r (mset xs)"
proof (induction xs)
  case (Cons x xs)
  then have "add_mset x (mset (btree_insert r xs)) \<subseteq># add_mset x (add_mset r (mset xs))" by simp
  then show ?case by (auto split: Ordering.split simp: add_mset_commute)
qed simp

definition iter_inv :: "TransactionsIterator \<Rightarrow> bool" where
  "iter_inv it \<longleftrightarrow>
     (\<forall>h r. refs (iter_all it) h = Some r \<longrightarrow> tx_hash_of (ref_tx r) = h) \<and>
     (\<forall>h n r. fmlookup (awaiting it) h = Some (n, r) \<longrightarrow> refs (iter_all it) h = Some r) \<and>
     (\<forall>r \<in> set (independent it). refs (iter_all it) (tx_hash_of (ref_tx r)) = Some r)"

text \<open>What entered the set of independent transactions while the hashes \<open>hs\<close> were unlocked.\<close>

definition entered ::
    "tx_hash list \<Rightarrow> TransactionsIterator \<Rightarrow> TransactionsIterator \<Rightarrow> bool" where
  "entered hs it it' \<longleftrightarrow>
     iter_all it' = iter_all it \<and>
     (\<exists>M. mset (independent it') \<subseteq># mset (independent it) + M \<and>
        (\<forall>r \<in># M. tx_hash_of (ref_tx r) \<in> set hs \<and> refs (iter_all it) (tx_hash_of (ref_tx r)) = Some r))"

lemma entered_trans:
  assumes "entered hs it it'" and "entered ks it' it''"
  shows "entered (hs @ ks) it it''"
proof -
  from assms obtain M N where all: "iter_all it' = iter_all it" "iter_all it'' = iter_all it'"
    and M: "mset (independent it') \<subseteq># mset (independent it) + M"
      "\<forall>r \<in># M. tx_hash_of (ref_tx r) \<in> set hs \<and> refs (iter_all it) (tx_hash_of (ref_tx r)) = Some r"
    and N: "mset (independent it'') \<subseteq># mset (independent it') + N"
      "\<forall>r \<in># N. tx_hash_of (ref_tx r) \<in> set ks \<and> refs (iter_all it') (tx_hash_of (ref_tx r)) = Some r"
    by (auto simp: entered_def)
  have "mset (independent it'') \<subseteq># mset (independent it) + (M + N)"
    using N(1) M(1) by (metis (no_types, opaque_lifting) add.assoc subset_mset.add_right_mono subset_mset.order_trans)
  moreover have "\<forall>r \<in># M + N. tx_hash_of (ref_tx r) \<in> set (hs @ ks) \<and>
      refs (iter_all it) (tx_hash_of (ref_tx r)) = Some r"
    using M(2) N(2) all by auto
  ultimately show ?thesis using all unfolding entered_def by metis
qed

lemma independent_or_awaiting_entered:
  assumes "iter_inv it" and "refs (iter_all it) h = Some r"
  shows "iter_inv (independent_or_awaiting n r it) \<and> entered [h] it (independent_or_awaiting n r it)"
proof -
  have h: "tx_hash_of (ref_tx r) = h" using assms by (simp add: iter_inv_def)
  have "mset (independent (independent_or_awaiting n r it)) \<subseteq># mset (independent it) + {#r#}"
    using mset_btree_insert [of r "independent it"] by (simp add: independent_or_awaiting_def)
  then have "entered [h] it (independent_or_awaiting n r it)"
    unfolding entered_def using h assms(2)
    by (intro conjI exI [of _ "{#r#}"]) (auto simp: independent_or_awaiting_def)
  moreover have "iter_inv (independent_or_awaiting n r it)"
    using assms h set_btree_insert [of r "independent it"]
    by (auto simp: iter_inv_def independent_or_awaiting_def)
  ultimately show ?thesis by blast
qed

lemma unlock_all_entered:
  "iter_inv it \<Longrightarrow> iter_inv (unlock_all hs it) \<and> entered hs it (unlock_all hs it)"
proof (induction hs arbitrary: it)
  case Nil
  then show ?case by (auto simp: entered_def intro: exI [of _ "{#}"])
next
  case (Cons h hs)
  let ?it1 = "case fmlookup (awaiting it) h of
      Some (satisfied, r) \<Rightarrow>
        independent_or_awaiting (satisfied + 1) r (it\<lparr>awaiting := fmdrop h (awaiting it)\<rparr>)
    | None \<Rightarrow>
        (case fmlookup (iter_all it) h of
           Some next \<Rightarrow> independent_or_awaiting (requires_offset next + 1) (rt_ref next) it
         | None \<Rightarrow> it)"
  have inv1: "iter_inv (it\<lparr>awaiting := fmdrop h (awaiting it)\<rparr>)"
    using Cons.prems by (auto simp: iter_inv_def split: if_splits)
  have "iter_inv ?it1 \<and> entered [h] it ?it1"
  proof (cases "fmlookup (awaiting it) h")
    case None
    have "entered [h] it it" by (auto simp: entered_def intro: exI [of _ "{#}"])
    with None Cons.prems independent_or_awaiting_entered [OF Cons.prems, of h] show ?thesis
      by (auto simp: refs_def split: option.split)
  next
    case (Some p)
    obtain n r where p: "p = (n, r)" by (cases p)
    have "refs (iter_all (it\<lparr>awaiting := fmdrop h (awaiting it)\<rparr>)) h = Some r"
      using Cons.prems Some p by (auto simp: iter_inv_def)
    from independent_or_awaiting_entered [OF inv1 this, of "n + 1"] Some p show ?thesis
      by (simp add: entered_def)
  qed
  with Cons.IH [of ?it1] entered_trans [of "[h]" it ?it1 hs] show ?case by simp
qed

text \<open>One step of the iterator decreases the multiset of the distances to the highest rank.\<close>

definition iter_dist :: "(tx_hash \<Rightarrow> nat) \<Rightarrow> nat \<Rightarrow> TransactionsIterator \<Rightarrow> nat multiset" where
  "iter_dist rk B it = image_mset (\<lambda>r. B - rk (tx_hash_of (ref_tx r))) (mset (independent it))"

lemma mult_exchange:
  assumes "A \<subseteq># C + M" and "\<forall>k \<in># M. (k :: nat) < b"
  shows "(A, add_mset b C) \<in> mult less_than"
proof -
  have "(C + M, C + {#b#}) \<in> mult less_than"
    using assms(2) by (intro one_step_implies_mult) auto
  moreover have "A = C + M \<or> (A, C + M) \<in> mult less_than"
    using assms(1) by (auto simp: subset_mset.le_less intro: subset_implies_mult)
  ultimately show ?thesis by (auto simp: mult_def)
qed

lemma mult_less_subset:
  "(A, B) \<in> mult less_than \<Longrightarrow> B \<subseteq># C \<Longrightarrow> (A, C) \<in> mult (less_than :: (nat \<times> nat) set)"
  by (auto simp: subset_mset.le_less mult_def
      dest!: subset_implies_mult [where r = "less_than :: (nat \<times> nat) set"] intro: trancl_trans)

lemma mset_btree_remove:
  "r \<in> set xs \<Longrightarrow> add_mset r (mset (btree_remove r xs)) \<subseteq># mset xs"
  by (auto simp: btree_remove_def subseteq_mset_def)

lemma unlock_all_dist:
  assumes inv: "iter_inv it" and up: "links_up rk (iter_all it)"
    and B: "\<forall>h r. refs (iter_all it) h = Some r \<longrightarrow> rk h \<le> B"
    and best: "fmlookup (iter_all it) (tx_hash_of (ref_tx best)) = Some rt"
  shows "(iter_dist rk B (unlock_all (unlocks rt) it),
          add_mset (B - rk (tx_hash_of (ref_tx best))) (iter_dist rk B it)) \<in> mult less_than"
proof -
  from unlock_all_entered [OF inv, of "unlocks rt"] obtain M where
    M: "mset (independent (unlock_all (unlocks rt) it)) \<subseteq># mset (independent it) + M"
      "\<forall>r \<in># M. tx_hash_of (ref_tx r) \<in> set (unlocks rt) \<and>
         refs (iter_all it) (tx_hash_of (ref_tx r)) = Some r"
    by (auto simp: entered_def)
  let ?g = "\<lambda>r. B - rk (tx_hash_of (ref_tx r))"
  have "iter_dist rk B (unlock_all (unlocks rt) it) \<subseteq># iter_dist rk B it + image_mset ?g M"
    using image_mset_subseteq_mono [OF M(1), of ?g] by (simp add: iter_dist_def)
  moreover have "?g r < ?g best" if "r \<in># M" for r
    using M(2) that B links_upD [OF up best, of "tx_hash_of (ref_tx r)"]
    by (meson diff_less_mono2 order_less_le_trans)
  ultimately show ?thesis by (intro mult_exchange) auto
qed

lemma iter_next_step:
  assumes "iter_next it = Some (tx, it')" and "iter_inv it" and "links_up rk (iter_all it)"
    and "\<forall>h r. refs (iter_all it) h = Some r \<longrightarrow> rk h \<le> B"
  shows "iter_inv it' \<and> iter_all it' = iter_all it \<and>
         (iter_dist rk B it', iter_dist rk B it) \<in> mult less_than"
  using assms
proof (induction it rule: iter_next.induct)
  case (1 it)
  let ?best = "last (independent it)"
  let ?it1 = "it\<lparr>independent := btree_remove ?best (independent it)\<rparr>"
  have ne: "independent it \<noteq> []" using "1.prems"(1) by (auto simp: iter_next.simps [of it])
  have inv1: "iter_inv ?it1" using "1.prems"(2) by (simp add: iter_inv_def btree_remove_def)
  have rest: "add_mset (B - rk (tx_hash_of (ref_tx ?best))) (iter_dist rk B ?it1) \<subseteq># iter_dist rk B it"
    using image_mset_subseteq_mono [OF mset_btree_remove [of ?best "independent it"],
        of "\<lambda>r. B - rk (tx_hash_of (ref_tx r))"] ne by (simp add: iter_dist_def)
  then have sub: "iter_dist rk B ?it1 \<subseteq># iter_dist rk B it"
    by (meson mset_subset_eq_insertD subset_mset.less_imp_le)
  show ?case
  proof (cases "fmlookup (iter_all it) (tx_hash_of (ref_tx ?best))")
    case None
    have "iter_next ?it1 = Some (tx, it')"
      using "1.prems"(1) ne None by (simp add: iter_next.simps [of it] Let_def)
    from "1.IH" [OF ne refl refl None this inv1] "1.prems"(3,4) mult_less_subset [OF _ sub]
    show ?thesis by simp
  next
    case (Some rt)
    have "it' = unlock_all (unlocks rt) ?it1" using "1.prems"(1) ne Some
      by (simp add: iter_next.simps [of it] Let_def)
    moreover have "(iter_dist rk B (unlock_all (unlocks rt) ?it1), iter_dist rk B it) \<in> mult less_than"
      using mult_less_subset [OF unlock_all_dist [OF inv1] rest] "1.prems"(3,4) Some by simp
    ultimately show ?thesis
      using unlock_all_entered [OF inv1, of "unlocks rt"] by (simp add: entered_def)
  qed
qed

text \<open>
  A sequence in which every transaction is in \<open>D\<close> or unlocked by an earlier one, and is the
  transaction the queue holds.
\<close>

fun unlock_order :: "(tx_hash, ReadyTransaction) fmap \<Rightarrow> tx_hash set \<Rightarrow> PoolTransaction list \<Rightarrow> bool" where
  "unlock_order ready D [] \<longleftrightarrow> True"
| "unlock_order ready D (tx # txs) \<longleftrightarrow>
     tx_hash_of tx \<in> D \<and>
     (case fmlookup ready (tx_hash_of tx) of
        None \<Rightarrow> False
      | Some rt \<Rightarrow> rt_tx rt = tx \<and> unlock_order ready (D \<union> set (unlocks rt)) txs)"

abbreviation ref_hashes :: "PoolTransactionRef list \<Rightarrow> tx_hash set" where
  "ref_hashes rs \<equiv> (\<lambda>r. tx_hash_of (ref_tx r)) ` set rs"

lemma iter_next_yields:
  assumes "iter_next it = Some (tx, it')" and inv: "iter_inv it"
  shows "tx_hash_of tx \<in> ref_hashes (independent it) \<and>
         (\<exists>rt. fmlookup (iter_all it) (tx_hash_of tx) = Some rt \<and> rt_tx rt = tx \<and>
            ref_hashes (independent it') \<subseteq> ref_hashes (independent it) \<union> set (unlocks rt))"
proof -
  let ?best = "last (independent it)"
  let ?it1 = "it\<lparr>independent := btree_remove ?best (independent it)\<rparr>"
  have ne: "independent it \<noteq> []" using assms(1) by (auto simp: iter_next.simps [of it])
  then have mem: "?best \<in> set (independent it)" by simp
  with inv obtain rt where rt: "fmlookup (iter_all it) (tx_hash_of (ref_tx ?best)) = Some rt" "rt_ref rt = ?best"
    by (auto simp: iter_inv_def refs_def)
  then have tx: "tx = ref_tx ?best" and it': "it' = unlock_all (unlocks rt) ?it1"
    using assms(1) ne by (auto simp: iter_next.simps [of it] Let_def)
  have "iter_inv ?it1" using inv by (simp add: iter_inv_def btree_remove_def)
  from unlock_all_entered [OF this, of "unlocks rt"] obtain M where
    M: "mset (independent it') \<subseteq># mset (independent ?it1) + M" "\<forall>r \<in># M. tx_hash_of (ref_tx r) \<in> set (unlocks rt)"
    by (auto simp: entered_def it')
  have "ref_hashes (independent it') \<subseteq> ref_hashes (independent it) \<union> set (unlocks rt)"
  proof
    fix h
    assume "h \<in> ref_hashes (independent it')"
    then obtain r where r: "h = tx_hash_of (ref_tx r)" "r \<in># mset (independent it')" by auto
    then have "r \<in># mset (independent ?it1) + M" using M(1) by (meson mset_subset_eqD)
    with r M(2) show "h \<in> ref_hashes (independent it) \<union> set (unlocks rt)" by (auto simp: btree_remove_def)
  qed
  with mem rt tx show ?thesis by auto
qed

text \<open>So \<open>collect\<close> returns, in unlock order.\<close>

lemma unlock_order_mono: "unlock_order ready D txs \<Longrightarrow> D \<subseteq> E \<Longrightarrow> unlock_order ready E txs"
proof (induction txs arbitrary: D E)
  case (Cons tx txs)
  from Cons.prems(1) obtain rt where rt: "fmlookup ready (tx_hash_of tx) = Some rt" "rt_tx rt = tx"
    "tx_hash_of tx \<in> D" "unlock_order ready (D \<union> set (unlocks rt)) txs" by (auto split: option.splits)
  have "unlock_order ready (E \<union> set (unlocks rt)) txs"
    by (rule Cons.IH [OF rt(4)]) (use Cons.prems(2) in blast)
  with rt Cons.prems(2) show ?case by auto
qed simp

lemma iter_collect_returns:
  assumes "iter_inv it" and "links_up rk (iter_all it)"
  shows "\<exists>txs. iter_collect it = Some txs \<and> unlock_order (iter_all it) (ref_hashes (independent it)) txs"
proof -
  define B where "B = Max (insert 0 (rk ` fset (fmdom (iter_all it))))"
  have B: "\<forall>h r. refs (iter_all it) h = Some r \<longrightarrow> rk h \<le> B"
    unfolding B_def by (auto simp: refs_def fmlookup_dom_iff intro!: Max_ge)
  have "wf (inv_image (mult less_than) (iter_dist rk B))" by (simp add: wf_mult)
  then show ?thesis using assms B
  proof (induction it rule: wf_induct_rule)
    case (less it)
    show ?case
    proof (cases "iter_next it")
      case None
      then show ?thesis by (simp add: iter_collect.simps)
    next
      case (Some p)
      obtain tx it' where p: "p = (tx, it')" by (cases p)
      note step = iter_next_step [OF Some [unfolded p] less.prems]
      have "\<exists>txs. iter_collect it' = Some txs \<and>
          unlock_order (iter_all it') (ref_hashes (independent it')) txs"
        by (rule less.IH) (use step less.prems in auto)
      then obtain txs where txs: "iter_collect it' = Some txs"
        "unlock_order (iter_all it) (ref_hashes (independent it')) txs" using step by auto
      from iter_next_yields [OF Some [unfolded p] less.prems(1)] obtain rt where
        rt: "fmlookup (iter_all it) (tx_hash_of tx) = Some rt" "rt_tx rt = tx"
          "tx_hash_of tx \<in> ref_hashes (independent it)"
          "ref_hashes (independent it') \<subseteq> ref_hashes (independent it) \<union> set (unlocks rt)" by blast
      have "unlock_order (iter_all it) (ref_hashes (independent it)) (tx # txs)"
        using rt(1,2,3) unlock_order_mono [OF txs(2) rt(4)] by simp
      then show ?thesis using Some p txs(1) by (auto simp: iter_collect.simps [of it])
    qed
  qed
qed

text \<open>The first transaction of the iterator has the highest priority, the oldest one among equals.\<close>

lemma ordered_last:
  assumes "ordered_refs xs" and "s \<in> set xs"
  shows "s = last xs \<or> ref_cmp s (last xs) = Less"
proof -
  from assms(2) obtain i where i: "i < length xs" "s = xs ! i" by (metis in_set_conv_nth)
  have last: "last xs = xs ! (length xs - 1)" using i by (intro last_conv_nth) auto
  show ?thesis
  proof (cases "i = length xs - 1")
    case True
    with i last show ?thesis by simp
  next
    case False
    with i have "i < length xs - 1" by simp
    with assms(1) i last show ?thesis by (simp add: ordered_refs_def sorted_wrt_iff_nth_less)
  qed
qed

lemma iter_next_first:
  assumes inv: "ready_inv R" and rank: "ready_ranked rk mrk R"
    and "independent_transactions R \<noteq> []"
  shows "\<exists>r it'. iter_next (get_transactions R) = Some (ref_tx r, it') \<and>
           r \<in> set (independent_transactions R) \<and>
           (\<forall>s \<in> set (independent_transactions R). s = r \<or> ref_cmp s r = Less)"
proof -
  let ?r = "last (independent_transactions R)"
  have mem: "?r \<in> set (independent_transactions R)" using assms(3) by simp
  from ready_inv_exceptD(5) [OF inv [unfolded ready_inv_def] mem] obtain rt where
    "fmlookup (ready_tx R) (tx_hash_of (ref_tx ?r)) = Some rt" by (auto simp: refs_def)
  then have "\<exists>it'. iter_next (get_transactions R) = Some (ref_tx ?r, it')"
    unfolding iter_next.simps [of "get_transactions R"]
    using assms(3) by (simp add: get_transactions_def Let_def)
  moreover have "\<forall>s \<in> set (independent_transactions R). s = ?r \<or> ref_cmp s ?r = Less"
    using ordered_last rank by (simp add: ready_ranked_def)
  ultimately show ?thesis using mem by blast
qed

end
