(* ===== verification/Tx_Pool.thy ===== *)
theory Tx_Pool
  imports Ready_Pool_Links
begin

text \<open>
  The mempool: \<open>PoolInner\<close> and \<open>Pool\<close> of anvil/src/eth/pool/mod.rs, on top of the pending and the
  ready queue. A \<open>Pool\<close> method takes the lock once, so a method is one step of the model. The
  channel to a listener (futures mpsc) is a value of type \<open>'ch\<close>; sending is the parameter
  \<open>try_send\<close>, which returns the channel afterwards and what happened.
\<close>

section \<open>State and results\<close>

record PoolInner =
  ready_transactions :: ReadyTransactions
  pending_transactions :: PendingTransactions

text \<open>The second \<open>ReadyTransaction\<close> of the source: the report about one added transaction.\<close>

record ReadyReport =
  rep_hash :: tx_hash
  rep_promoted :: "tx_hash list"
  rep_discarded :: "tx_hash list"
  rep_removed :: "PoolTransaction list"

datatype AddedTransaction = AddedReady ReadyReport | AddedPending tx_hash

fun added_hash :: "AddedTransaction \<Rightarrow> tx_hash" where
  "added_hash (AddedReady r) = rep_hash r"
| "added_hash (AddedPending h) = h"

record PruneResult =
  prune_promoted :: "AddedTransaction list"
  prune_failed :: "tx_hash list"
  prune_pruned :: "PoolTransaction list"

definition ReadyReport_new :: "tx_hash \<Rightarrow> ReadyReport" where
  "ReadyReport_new h = \<lparr>rep_hash = h, rep_promoted = [], rep_discarded = [], rep_removed = []\<rparr>"

record MinedBlockOutcome =
  block_number :: u64
  included :: "PoolTransaction list"
  invalid :: "PoolTransaction list"

datatype send_result = Sent | ChannelFull | Disconnected

record 'ch Pool =
  inner :: PoolInner
  transaction_listener :: "'ch list"

definition pool_inner_empty :: PoolInner where
  "pool_inner_empty = \<lparr>ready_transactions = ready_empty, pending_transactions = pending_empty\<rparr>"

section \<open>PoolInner\<close>

definition inner_clear :: "PoolInner \<Rightarrow> PoolInner" where
  "inner_clear p =
     p\<lparr>ready_transactions := ready_clear (ready_transactions p),
       pending_transactions := pending_clear (pending_transactions p)\<rparr>"

definition inner_get_transaction :: "PoolInner \<Rightarrow> tx_hash \<Rightarrow> PendingTransaction option" where
  "inner_get_transaction p hash =
     (case pending_get (pending_transactions p) hash of
        Some pending \<Rightarrow> Some (pending_transaction (pool_tx pending))
      | None \<Rightarrow>
          map_option (\<lambda>rt. pending_transaction (rt_tx rt)) (ready_get (ready_transactions p) hash))"

text \<open>\<open>None\<close>: the iterator over the ready transactions does not come to an end.\<close>

definition transactions_by_sender ::
    "hash_orders \<Rightarrow> PoolInner \<Rightarrow> address \<Rightarrow> PoolTransaction list option" where
  "transactions_by_sender ho p from =
     (let by_sender = filter (\<lambda>tx. sender (pending_transaction tx) = from) in
      map_option
        (\<lambda>ready. by_sender (pending_transactions_iter ho (pending_transactions p)) @ by_sender ready)
        (iter_collect (get_transactions (ready_transactions p))))"

definition inner_contains :: "PoolInner \<Rightarrow> tx_hash \<Rightarrow> bool" where
  "inner_contains p h \<longleftrightarrow>
     pending_contains (pending_transactions p) h \<or> ready_contains (ready_transactions p) h"

text \<open>The loop of \<open>add_ready_transaction\<close> over the queue of transactions to add.\<close>

function promote_loop ::
    "hash_orders \<Rightarrow> bool \<Rightarrow> PendingPoolTransaction list \<Rightarrow> ReadyReport \<Rightarrow> PoolInner
       \<Rightarrow> (PoolInner \<times> (PoolError + ReadyReport)) option" where
  "promote_loop ho is_new_tx [] ready p = Some (p, Inr ready)"
| "promote_loop ho is_new_tx (current_tx # tx_queue) ready p =
     (case mark_and_unlock ho (provides (pool_tx current_tx)) (pending_transactions p) of
        None \<Rightarrow> None
      | Some (unlocked_txs, P') \<Rightarrow>
          (let current_hash = tx_hash_of (pool_tx current_tx) in
           case ready_add_transaction ho current_tx (ready_transactions p) of
             None \<Rightarrow> None
           | Some (R', Inr replaced) \<Rightarrow>
               promote_loop ho False (tx_queue @ unlocked_txs)
                 (ready\<lparr>rep_promoted := rep_promoted ready @ (if is_new_tx then [] else [current_hash]),
                        rep_removed := rep_removed ready @ replaced\<rparr>)
                 \<lparr>ready_transactions = R', pending_transactions = P'\<rparr>
           | Some (R', Inl err) \<Rightarrow>
               if is_new_tx then Some (\<lparr>ready_transactions = R', pending_transactions = P'\<rparr>, Inl err)
               else promote_loop ho False (tx_queue @ unlocked_txs)
                      (ready\<lparr>rep_discarded := rep_discarded ready @ [current_hash]\<rparr>)
                      \<lparr>ready_transactions = R', pending_transactions = P'\<rparr>))"
  by pat_completeness auto
termination
  by (relation "measure (\<lambda>(ho, n, q, r, p). length q + pending_len (pending_transactions p))")
    (auto dest: mark_and_unlock_len)

definition add_ready_transaction ::
    "hash_orders \<Rightarrow> PendingPoolTransaction \<Rightarrow> PoolInner
       \<Rightarrow> (PoolInner \<times> (PoolError + AddedTransaction)) option" where
  "add_ready_transaction ho tx p =
     (let hash = tx_hash_of (pool_tx tx) in
      case promote_loop ho True [tx] (ReadyReport_new hash) p of
        None \<Rightarrow> None
      | Some (p', Inl err) \<Rightarrow> Some (p', Inl err)
      | Some (p', Inr ready) \<Rightarrow>
          if \<exists>t \<in> set (rep_removed ready). tx_hash_of t = hash
          then Some (p'\<lparr>ready_transactions :=
                         snd (clear_transactions (rep_promoted ready) (ready_transactions p'))\<rparr>,
                     Inl CyclicTransaction)
          else Some (p', Inr (AddedReady ready)))"

definition inner_add_transaction ::
    "hash_orders \<Rightarrow> PoolTransaction \<Rightarrow> PoolInner \<Rightarrow> (PoolInner \<times> (PoolError + AddedTransaction)) option" where
  "inner_add_transaction ho tx p =
     (if inner_contains p (tx_hash_of tx) then Some (p, Inl (AlreadyImported tx))
      else
        (let ptx = PendingPoolTransaction_new tx (provided_markers (ready_transactions p)) in
         if \<not> is_ready ptx
         then
           (case pending_add_transaction ho ptx (pending_transactions p) of
              None \<Rightarrow> None
            | Some (P', Inl err) \<Rightarrow> Some (p\<lparr>pending_transactions := P'\<rparr>, Inl err)
            | Some (P', Inr _) \<Rightarrow>
                Some (p\<lparr>pending_transactions := P'\<rparr>, Inr (AddedPending (tx_hash_of tx))))
         else add_ready_transaction ho ptx p))"

text \<open>The two loops of \<open>prune_markers\<close>.\<close>

fun prune_each ::
    "hash_orders \<Rightarrow> tx_marker list \<Rightarrow> PoolInner
       \<Rightarrow> (PendingPoolTransaction list \<times> PoolTransaction list \<times> PoolInner) option" where
  "prune_each ho [] p = Some ([], [], p)"
| "prune_each ho (marker # markers) p =
     (case mark_and_unlock ho [marker] (pending_transactions p) of
        None \<Rightarrow> None
      | Some (imports, P') \<Rightarrow>
          (case prune_tags marker (ready_transactions p) of
             None \<Rightarrow> None
           | Some (pruned, R') \<Rightarrow>
               map_option (\<lambda>(imports', pruned', p'). (imports @ imports', pruned @ pruned', p'))
                 (prune_each ho markers \<lparr>ready_transactions = R', pending_transactions = P'\<rparr>)))"

fun import_each ::
    "hash_orders \<Rightarrow> PendingPoolTransaction list \<Rightarrow> PoolInner
       \<Rightarrow> (AddedTransaction list \<times> tx_hash list \<times> PoolInner) option" where
  "import_each ho [] p = Some ([], [], p)"
| "import_each ho (tx # txs) p =
     (case add_ready_transaction ho tx p of
        None \<Rightarrow> None
      | Some (p1, res) \<Rightarrow>
          map_option
            (\<lambda>(promoted, failed, p').
               (case res of
                  Inr added \<Rightarrow> (added # promoted, failed, p')
                | Inl e \<Rightarrow> (promoted, tx_hash_of (pool_tx tx) # failed, p')))
            (import_each ho txs p1))"

definition inner_prune_markers ::
    "hash_orders \<Rightarrow> tx_marker list \<Rightarrow> PoolInner \<Rightarrow> (PruneResult \<times> PoolInner) option" where
  "inner_prune_markers ho markers p =
     (case prune_each ho markers p of
        None \<Rightarrow> None
      | Some (imports, pruned, p1) \<Rightarrow>
          map_option
            (\<lambda>(promoted, failed, p').
               (\<lparr>prune_promoted = promoted, prune_failed = failed, prune_pruned = pruned\<rparr>, p'))
            (import_each ho imports p1))"

definition inner_remove_invalid ::
    "hash_orders \<Rightarrow> tx_hash list \<Rightarrow> PoolInner \<Rightarrow> PoolTransaction list \<times> PoolInner" where
  "inner_remove_invalid ho tx_hashes p =
     (if tx_hashes = [] then ([], p)
      else
        (let (removed, R') = remove_with_markers tx_hashes None (ready_transactions p);
             (removed', P') = pending_remove ho tx_hashes (pending_transactions p)
         in (removed @ removed', \<lparr>ready_transactions = R', pending_transactions = P'\<rparr>)))"

definition inner_remove_transactions_by_address ::
    "hash_orders \<Rightarrow> address \<Rightarrow> PoolInner \<Rightarrow> (PoolTransaction list \<times> PoolInner) option" where
  "inner_remove_transactions_by_address ho from p =
     (case transactions_by_sender ho p from of
        None \<Rightarrow> None
      | Some txs \<Rightarrow>
          (let tx_hashes = map tx_hash_of txs in
           if tx_hashes = [] then Some ([], p)
           else
             (let (removed, R') = remove_with_markers tx_hashes None (ready_transactions p);
                  (removed', P') = pending_remove ho tx_hashes (pending_transactions p)
              in Some (removed @ removed', \<lparr>ready_transactions = R', pending_transactions = P'\<rparr>))))"

section \<open>Pool\<close>

definition pool_pending_transactions :: "hash_orders \<Rightarrow> 'ch Pool \<Rightarrow> PoolTransaction list" where
  "pool_pending_transactions ho pool = pending_transactions_iter ho (pending_transactions (inner pool))"

text \<open>\<open>try_into().unwrap_or(0)\<close> from \<open>usize\<close> to \<open>u64\<close>.\<close>

definition count_u64 :: "nat \<Rightarrow> u64" where
  "count_u64 n = (if n < 2 ^ 64 then of_nat n else 0)"

record TxpoolStatus =
  status_pending :: u64
  status_queued :: u64

definition txpool_status :: "'ch Pool \<Rightarrow> TxpoolStatus option" where
  "txpool_status pool =
     map_option
       (\<lambda>txs. \<lparr>status_pending = count_u64 (length txs),
               status_queued = count_u64 (pending_len (pending_transactions (inner pool)))\<rparr>)
       (iter_collect (get_transactions (ready_transactions (inner pool))))"

text \<open>\<open>notify_listener\<close>, with \<open>None\<close> for an index out of bounds in \<open>swap_remove\<close>.\<close>

fun notify_loop ::
    "('ch \<Rightarrow> tx_hash \<Rightarrow> 'ch \<times> send_result) \<Rightarrow> tx_hash \<Rightarrow> nat \<Rightarrow> 'ch list \<Rightarrow> 'ch list option" where
  "notify_loop try_send hash 0 listener = Some listener"
| "notify_loop try_send hash (Suc n) listener =
     (if n < length listener
      then
        (let rest = swap_remove n listener;
             (listener_tx, res) = try_send (listener ! n) hash
         in notify_loop try_send hash n (if res = Disconnected then rest else rest @ [listener_tx]))
      else None)"

definition notify_listener ::
    "('ch \<Rightarrow> tx_hash \<Rightarrow> 'ch \<times> send_result) \<Rightarrow> tx_hash \<Rightarrow> 'ch list \<Rightarrow> 'ch list option" where
  "notify_listener try_send hash listener = notify_loop try_send hash (length listener) listener"

fun notify_each ::
    "('ch \<Rightarrow> tx_hash \<Rightarrow> 'ch \<times> send_result) \<Rightarrow> tx_hash list \<Rightarrow> 'ch list \<Rightarrow> 'ch list option" where
  "notify_each try_send [] listener = Some listener"
| "notify_each try_send (h # hs) listener =
     Option.bind (notify_listener try_send h listener) (notify_each try_send hs)"

definition add_transaction ::
    "hash_orders \<Rightarrow> ('ch \<Rightarrow> tx_hash \<Rightarrow> 'ch \<times> send_result) \<Rightarrow> PoolTransaction \<Rightarrow> 'ch Pool
       \<Rightarrow> ('ch Pool \<times> (PoolError + AddedTransaction)) option" where
  "add_transaction ho try_send tx pool =
     (case inner_add_transaction ho tx (inner pool) of
        None \<Rightarrow> None
      | Some (p', Inr (AddedReady ready)) \<Rightarrow>
          map_option (\<lambda>ls. (\<lparr>inner = p', transaction_listener = ls\<rparr>, Inr (AddedReady ready)))
            (notify_each try_send (rep_hash ready # rep_promoted ready) (transaction_listener pool))
      | Some (p', res) \<Rightarrow> Some (pool\<lparr>inner := p'\<rparr>, res))"

definition add_ready_listener :: "'ch \<Rightarrow> 'ch Pool \<Rightarrow> 'ch Pool" where
  "add_ready_listener tx pool = pool\<lparr>transaction_listener := transaction_listener pool @ [tx]\<rparr>"

definition prune_markers ::
    "hash_orders \<Rightarrow> tx_marker list \<Rightarrow> 'ch Pool \<Rightarrow> (PruneResult \<times> 'ch Pool) option" where
  "prune_markers ho markers pool =
     map_option (\<lambda>(res, p'). (res, pool\<lparr>inner := p'\<rparr>)) (inner_prune_markers ho markers (inner pool))"

definition remove_invalid ::
    "hash_orders \<Rightarrow> tx_hash list \<Rightarrow> 'ch Pool \<Rightarrow> PoolTransaction list \<times> 'ch Pool" where
  "remove_invalid ho hs pool =
     (let (removed, p') = inner_remove_invalid ho hs (inner pool) in (removed, pool\<lparr>inner := p'\<rparr>))"

definition remove_transactions_by_address ::
    "hash_orders \<Rightarrow> address \<Rightarrow> 'ch Pool \<Rightarrow> (PoolTransaction list \<times> 'ch Pool) option" where
  "remove_transactions_by_address ho from pool =
     map_option (\<lambda>(removed, p'). (removed, pool\<lparr>inner := p'\<rparr>))
       (inner_remove_transactions_by_address ho from (inner pool))"

definition on_mined_block ::
    "hash_orders \<Rightarrow> MinedBlockOutcome \<Rightarrow> 'ch Pool \<Rightarrow> (PruneResult \<times> 'ch Pool) option" where
  "on_mined_block ho outcome pool =
     (let (_, pool1) = remove_invalid ho (map tx_hash_of (invalid outcome)) pool
      in prune_markers ho (concat (map provides (included outcome))) pool1)"

definition drop_transaction :: "tx_hash \<Rightarrow> 'ch Pool \<Rightarrow> PoolTransaction option \<times> 'ch Pool" where
  "drop_transaction tx pool =
     (let (removed, R') = remove_with_markers [tx] None (ready_transactions (inner pool))
      in (find (\<lambda>t. tx_hash_of t = tx) removed,
          pool\<lparr>inner := (inner pool)\<lparr>ready_transactions := R'\<rparr>\<rparr>))"

definition pool_clear :: "'ch Pool \<Rightarrow> 'ch Pool" where
  "pool_clear pool = pool\<lparr>inner := inner_clear (inner pool)\<rparr>"

text \<open>The state-changing methods of \<open>Pool\<close> as one step function.\<close>

datatype 'ch pool_op =
    OpAdd PoolTransaction
  | OpListen 'ch
  | OpMined MinedBlockOutcome
  | OpPrune "tx_marker list"
  | OpRemoveInvalid "tx_hash list"
  | OpRemoveByAddress address
  | OpDrop tx_hash
  | OpClear

fun pool_step ::
    "hash_orders \<Rightarrow> ('ch \<Rightarrow> tx_hash \<Rightarrow> 'ch \<times> send_result) \<Rightarrow> 'ch pool_op \<Rightarrow> 'ch Pool \<Rightarrow> 'ch Pool option" where
  "pool_step ho try_send (OpAdd tx) pool = map_option fst (add_transaction ho try_send tx pool)"
| "pool_step ho try_send (OpListen ch) pool = Some (add_ready_listener ch pool)"
| "pool_step ho try_send (OpMined outcome) pool = map_option snd (on_mined_block ho outcome pool)"
| "pool_step ho try_send (OpPrune markers) pool = map_option snd (prune_markers ho markers pool)"
| "pool_step ho try_send (OpRemoveInvalid hs) pool = Some (snd (remove_invalid ho hs pool))"
| "pool_step ho try_send (OpRemoveByAddress from) pool =
     map_option snd (remove_transactions_by_address ho from pool)"
| "pool_step ho try_send (OpDrop h) pool = Some (snd (drop_transaction h pool))"
| "pool_step ho try_send OpClear pool = Some (pool_clear pool)"

definition pool_empty :: "'ch Pool" where
  "pool_empty = \<lparr>inner = pool_inner_empty, transaction_listener = []\<rparr>"

end
