(* ===== verification/Tx_Pool_Inv.thy ===== *)
theory Tx_Pool_Inv
  imports Tx_Pool
begin

text \<open>
  The invariant of the whole pool, its preservation by every method and the absence of panics,
  for any sequence of methods.
\<close>

section \<open>The invariant\<close>

text \<open>
  \<open>Q\<close> are the transactions that have left the pending queue and are on their way to the ready
  queue. Between two methods \<open>Q\<close> is empty.
\<close>

definition awaits_import ::
    "(tx_hash \<Rightarrow> nat) \<Rightarrow> (tx_marker \<Rightarrow> nat) \<Rightarrow> PoolInner \<Rightarrow> PendingPoolTransaction \<Rightarrow> bool" where
  "awaits_import rk mrk p x \<longleftrightarrow>
     is_ready x \<and> wf_pool_tx (pool_tx x) \<and> ranked rk mrk (pool_tx x) \<and>
     \<not> inner_contains p (tx_hash_of (pool_tx x))"

definition inner_inv ::
    "(tx_hash \<Rightarrow> nat) \<Rightarrow> (tx_marker \<Rightarrow> nat) \<Rightarrow> PendingPoolTransaction list \<Rightarrow> PoolInner \<Rightarrow> bool" where
  "inner_inv rk mrk Q p \<longleftrightarrow>
     pending_inv (pending_transactions p) \<and> ready_inv (ready_transactions p) \<and>
     ready_ranked rk mrk (ready_transactions p) \<and>
     (\<forall>h x. fmlookup (waiting_queue (pending_transactions p)) h = Some x \<longrightarrow>
        ranked rk mrk (pool_tx x) \<and> fmlookup (ready_tx (ready_transactions p)) h = None) \<and>
     (\<forall>m. fmlookup (provided_markers (ready_transactions p)) m \<noteq> None \<longrightarrow>
        fmlookup (required_markers (pending_transactions p)) m = None) \<and>
     list_all (awaits_import rk mrk p) Q \<and> distinct (map (\<lambda>x. tx_hash_of (pool_tx x)) Q)"

lemma inner_invD:
  assumes "inner_inv rk mrk Q p"
  shows "pending_inv (pending_transactions p)" "ready_inv (ready_transactions p)"
    "ready_ranked rk mrk (ready_transactions p)"
    "fmlookup (waiting_queue (pending_transactions p)) h = Some x \<Longrightarrow> ranked rk mrk (pool_tx x)"
    "fmlookup (waiting_queue (pending_transactions p)) h = Some x \<Longrightarrow>
       fmlookup (ready_tx (ready_transactions p)) h = None"
    "fmlookup (provided_markers (ready_transactions p)) m \<noteq> None \<Longrightarrow>
       fmlookup (required_markers (pending_transactions p)) m = None"
    "x \<in> set Q \<Longrightarrow> awaits_import rk mrk p x"
    "distinct (map (\<lambda>x. tx_hash_of (pool_tx x)) Q)"
  using assms unfolding inner_inv_def list_all_iff by blast+

lemma inner_inv_empty: "inner_inv rk mrk [] pool_inner_empty"
  using pending_inv_empty ready_inv_empty
  by (auto simp: inner_inv_def pool_inner_empty_def ready_ranked_def links_up_def ordered_refs_def pending_empty_def
      ready_empty_def refs_def)

lemma refs_None: "refs ready h = None \<longleftrightarrow> fmlookup ready h = None"
  by (simp add: refs_def)

lemma inner_contains_iff:
  "inner_contains p h \<longleftrightarrow>
     fmlookup (waiting_queue (pending_transactions p)) h \<noteq> None \<or>
     refs (ready_tx (ready_transactions p)) h \<noteq> None"
  by (auto simp: inner_contains_def pending_contains_def ready_contains_def refs_def)

text \<open>
  Shrinking the ready queue or the pending queue keeps the invariant.
\<close>

lemma inner_inv_shrink:
  assumes inv: "inner_inv rk mrk Q p"
    and R': "ready_inv R'" "ready_ranked rk mrk R'"
      "\<And>h. refs (ready_tx R') h = None \<or> refs (ready_tx R') h = refs (ready_tx (ready_transactions p)) h"
      "\<And>m h. fmlookup (provided_markers R') m = Some h \<Longrightarrow>
         fmlookup (provided_markers (ready_transactions p)) m = Some h"
    and P': "pending_inv P'"
      "\<And>h x. fmlookup (waiting_queue P') h = Some x \<Longrightarrow>
         \<exists>y. fmlookup (waiting_queue (pending_transactions p)) h = Some y \<and> pool_tx x = pool_tx y"
      "\<And>m. fmlookup (required_markers P') m \<noteq> None \<Longrightarrow>
         fmlookup (required_markers (pending_transactions p)) m \<noteq> None"
  shows "inner_inv rk mrk Q \<lparr>ready_transactions = R', pending_transactions = P'\<rparr>"
proof -
  let ?p' = "\<lparr>ready_transactions = R', pending_transactions = P'\<rparr>"
  have less: "inner_contains p h" if "inner_contains ?p' h" for h
    using that R'(3) [of h] P'(2) [of h] by (auto simp: inner_contains_iff)
  have "ranked rk mrk (pool_tx x) \<and> fmlookup (ready_tx R') h = None"
    if "fmlookup (waiting_queue P') h = Some x" for h x
    using P'(2) [OF that] inner_invD(4,5) [OF inv, of h] R'(3) [of h] by (auto simp: refs_None [symmetric])
  moreover have "fmlookup (required_markers P') m = None"
    if "fmlookup (provided_markers R') m \<noteq> None" for m
    using that R'(4) [of m] P'(3) [of m] inner_invD(6) [OF inv, of m] by fastforce
  moreover have "list_all (awaits_import rk mrk ?p') Q"
    using inner_invD(7) [OF inv] less by (auto simp: list_all_iff awaits_import_def)
  ultimately show ?thesis
    using R'(1,2) P'(1) inner_invD(8) [OF inv] by (simp add: inner_inv_def)
qed

section \<open>Removal\<close>

lemma remove_with_markers_pool:
  assumes inv: "inner_inv rk mrk Q p"
    and run: "remove_with_markers hs None (ready_transactions p) = (removed, R')"
  shows "inner_inv rk mrk Q (p\<lparr>ready_transactions := R'\<rparr>) \<and> removal_of (set hs) removed (ready_transactions p) R'"
proof -
  note rm = remove_with_markers_ok [OF inner_invD(2) [OF inv] run]
  have "links_up rk (ready_tx R')" "ordered_refs (independent_transactions R')"
    using links_up_remove_loop [of rk "ready_transactions p" None "rev hs"]
      ordered_remove_loop [of "ready_transactions p" None "rev hs"] inner_invD(3) [OF inv] run
    by (simp_all add: ready_ranked_def remove_with_markers_def)
  then have "ready_ranked rk mrk R'"
    using ready_ranked_removal rm inner_invD(3) [OF inv] by blast
  then have "inner_inv rk mrk Q \<lparr>ready_transactions = R', pending_transactions = pending_transactions p\<rparr>"
    using rm by (intro inner_inv_shrink [OF inv]) (auto simp: removal_of_def inner_invD(1) [OF inv])
  then show ?thesis using rm by (cases p) simp
qed

lemma pending_remove_pool:
  assumes inv: "inner_inv rk mrk Q p" and ho: "hash_orders_ok ho"
    and run: "pending_remove ho hs (pending_transactions p) = (removed, P')"
  shows "inner_inv rk mrk Q (p\<lparr>pending_transactions := P'\<rparr>)"
proof -
  note rm = pending_remove_ok [OF inner_invD(1) [OF inv] ho run]
  have "inner_inv rk mrk Q \<lparr>ready_transactions = ready_transactions p, pending_transactions = P'\<rparr>"
    using rm by (intro inner_inv_shrink [OF inv])
      (auto simp: inner_invD(2,3) [OF inv] split: if_splits)
  then show ?thesis by (cases p) simp
qed

section \<open>Promotion\<close>

abbreviation hashes :: "PendingPoolTransaction list \<Rightarrow> tx_hash set" where
  "hashes xs \<equiv> (\<lambda>x. tx_hash_of (pool_tx x)) ` set xs"

definition waiting :: "PoolInner \<Rightarrow> tx_hash set" where
  "waiting p = {h. fmlookup (waiting_queue (pending_transactions p)) h \<noteq> None}"

text \<open>What the pool sees of \<open>mark_and_unlock\<close>.\<close>

definition unlock_effect ::
    "tx_marker list \<Rightarrow> PendingTransactions \<Rightarrow> PendingPoolTransaction list \<Rightarrow> PendingTransactions \<Rightarrow> bool" where
  "unlock_effect ms P us P' \<longleftrightarrow>
     pending_inv P' \<and>
     (\<forall>h y. fmlookup (waiting_queue P') h = Some y \<longrightarrow>
        (\<exists>z. fmlookup (waiting_queue P) h = Some z \<and> pool_tx y = pool_tx z)) \<and>
     (\<forall>h. fmlookup (waiting_queue P) h \<noteq> None \<longleftrightarrow> fmlookup (waiting_queue P') h \<noteq> None \<or> h \<in> hashes us) \<and>
     (\<forall>u \<in> set us. is_ready u \<and> fmlookup (waiting_queue P') (tx_hash_of (pool_tx u)) = None \<and>
        (\<exists>z. fmlookup (waiting_queue P) (tx_hash_of (pool_tx u)) = Some z \<and> pool_tx u = pool_tx z)) \<and>
     distinct (map (\<lambda>x. tx_hash_of (pool_tx x)) us) \<and>
     (\<forall>m. fmlookup (required_markers P') m = (if m \<in> set ms then None else fmlookup (required_markers P) m))"

lemma mark_and_unlock_effect:
  assumes inv: "pending_inv P" and ho: "hash_orders_ok ho"
  shows "\<exists>us P'. mark_and_unlock ho ms P = Some (us, P') \<and> unlock_effect ms P us P'"
proof -
  from mark_and_unlock_spec [OF inv ho, of ms] obtain us P' where
    run: "mark_and_unlock ho ms P = Some (us, P')" and P': "pending_inv P'"
    and q: "\<And>h. fmlookup (waiting_queue P') h = queue_after ms P h"
    and us: "set us = unlocked ms P" and d: "distinct (map (tx_hash_of \<circ> pool_tx) us)"
    and rm: "\<And>m. fmlookup (required_markers P') m = (if m \<in> set ms then None else fmlookup (required_markers P) m)"
    by blast
  have old: "\<exists>z. fmlookup (waiting_queue P) h = Some z \<and> pool_tx y = pool_tx z"
    if "fmlookup (waiting_queue P') h = Some y" for h y
    using that by (auto simp: q queue_after_def keep_waiting_simps bind_eq_Some_conv)
  have member: "is_ready u \<and> fmlookup (waiting_queue P') (tx_hash_of (pool_tx u)) = None \<and>
      (\<exists>z. fmlookup (waiting_queue P) (tx_hash_of (pool_tx u)) = Some z \<and> pool_tx u = pool_tx z)"
    if "u \<in> set us" for u
    using that pending_inv_queueD(1) [OF inv]
    by (auto simp: us unlocked_def q queue_after_def keep_waiting_def)
  have "h \<in> hashes us" if "fmlookup (waiting_queue P) h = Some z" "fmlookup (waiting_queue P') h = None" for h z
  proof -
    have "check_off ms z \<in> set us"
      using that by (auto simp: us unlocked_def q queue_after_def keep_waiting_simps)
    then have "tx_hash_of (pool_tx (check_off ms z)) \<in> hashes us" by blast
    with pending_inv_queueD(1) [OF inv that(1)] show ?thesis by simp
  qed
  then have "fmlookup (waiting_queue P) h \<noteq> None \<longleftrightarrow> fmlookup (waiting_queue P') h \<noteq> None \<or> h \<in> hashes us" for h
    using old [of h] member by fastforce
  with run P' old member d rm show ?thesis
    unfolding unlock_effect_def by (intro exI conjI allI) (auto simp: comp_def)
qed

text \<open>
  One round of the loop: the transaction at the head of the queue goes to the ready queue or is
  turned down, and those it unlocks join the queue.
\<close>

definition round_effect ::
    "PendingPoolTransaction \<Rightarrow> PoolInner \<Rightarrow> PendingPoolTransaction list \<Rightarrow> PoolInner
       \<Rightarrow> PoolError + PoolTransaction list \<Rightarrow> bool" where
  "round_effect x p us p' res \<longleftrightarrow>
     waiting p' \<union> hashes us \<subseteq> waiting p \<and>
     (case res of
        Inl e \<Rightarrow> e = ReplacementUnderpriced (pool_tx x) \<and> us = [] \<and> p' = p \<and>
                 outbid (pool_tx x) (ready_transactions p)
      | Inr replaced \<Rightarrow>
          (\<forall>h. inner_contains p h \<or> h = tx_hash_of (pool_tx x) \<longleftrightarrow>
             inner_contains p' h \<or> h \<in> hashes us \<or> h \<in> tx_hash_of ` set replaced))"

lemma ready_added_contents:
  assumes inv: "ready_inv R" and "ready_added tx replaced R R'"
  shows "refs (ready_tx R) h \<noteq> None \<or> h = tx_hash_of tx \<longleftrightarrow>
           refs (ready_tx R') h \<noteq> None \<or> h \<in> tx_hash_of ` set replaced"
proof -
  have "h \<in> tx_hash_of ` set replaced \<longleftrightarrow> refs (ready_tx R) h \<noteq> None \<and> refs (ready_tx R') h = None"
    using assms(2) ready_inv_exceptD(1) [OF inv [unfolded ready_inv_def]]
    unfolding ready_added_def by force
  moreover have "refs (ready_tx R') (tx_hash_of tx) \<noteq> None"
    and "h \<noteq> tx_hash_of tx \<Longrightarrow> refs (ready_tx R') h = None \<or> refs (ready_tx R') h = refs (ready_tx R) h"
    using assms(2) unfolding ready_added_def by (blast, blast)
  ultimately show ?thesis by (cases "h = tx_hash_of tx") auto
qed

lemma round_ready_inv:
  assumes inv: "inner_inv rk mrk (x # Q) p" and un: "unlock_effect (provides (pool_tx x)) (pending_transactions p) us P'"
    and R': "ready_inv R'" "ready_ranked rk mrk R'" "ready_added (pool_tx x) replaced (ready_transactions p) R'"
  shows "inner_inv rk mrk (Q @ us) \<lparr>ready_transactions = R', pending_transactions = P'\<rparr>" (is "inner_inv _ _ _ ?p'")
proof -
  note D = inner_invD [OF inv]
  let ?h = "\<lambda>x. tx_hash_of (pool_tx x)"
  have x: "\<not> inner_contains p (?h x)" using D(7) [of x] by (simp add: awaits_import_def)
  have R'_None: "refs (ready_tx R') h = None" if "refs (ready_tx (ready_transactions p)) h = None" "h \<noteq> ?h x" for h
    using R'(3) that unfolding ready_added_def by metis
  have waits: "\<exists>z. fmlookup (waiting_queue (pending_transactions p)) h = Some z \<and> pool_tx y = pool_tx z \<and> h \<noteq> ?h x"
    if "fmlookup (waiting_queue P') h = Some y" for h y
    using un that x unfolding unlock_effect_def by (fastforce simp: inner_contains_iff)
  have "awaits_import rk mrk ?p' y" if y: "y \<in> set Q" for y
  proof -
    have "awaits_import rk mrk p y" using D(7) [of y] y by simp
    moreover have "?h x \<noteq> ?h y" using D(8) y by (simp add: image_iff)
    ultimately show ?thesis
      using R'_None [of "?h y"] waits [of "?h y"]
      by (cases "fmlookup (waiting_queue P') (?h y)") (auto simp: awaits_import_def inner_contains_iff)
  qed
  moreover have "awaits_import rk mrk ?p' u" if u: "u \<in> set us" for u
  proof -
    from un u obtain z where z: "is_ready u" "fmlookup (waiting_queue P') (?h u) = None"
      "fmlookup (waiting_queue (pending_transactions p)) (?h u) = Some z" "pool_tx u = pool_tx z"
      by (auto simp: unlock_effect_def)
    have "?h u \<noteq> ?h x" using z(3) x by (auto simp: inner_contains_iff)
    with z R'_None [of "?h u"] D(4,5) [OF z(3)] pending_inv_queueD(3) [OF D(1) z(3)]
    show ?thesis by (auto simp: awaits_import_def inner_contains_iff refs_None)
  qed
  moreover have "distinct (map ?h (Q @ us))"
  proof -
    have "?h y \<noteq> ?h u" if "y \<in> set Q" "u \<in> set us" for y u
      using un that D(7) [of y] by (auto simp: unlock_effect_def awaits_import_def inner_contains_iff)
    with un D(8) show ?thesis by (auto simp: unlock_effect_def)
  qed
  moreover have "ranked rk mrk (pool_tx y) \<and> fmlookup (ready_tx R') h = None"
    if "fmlookup (waiting_queue P') h = Some y" for h y
    using waits [OF that] D(4,5) R'_None [of h] by (auto simp: refs_None)
  moreover have "fmlookup (required_markers P') m = None" if "fmlookup (provided_markers R') m \<noteq> None" for m
    using un R'(3) that D(6) [of m] by (auto simp: unlock_effect_def ready_added_def)
  ultimately show ?thesis
    using R'(1,2) un by (auto simp: inner_inv_def list_all_iff unlock_effect_def)
qed

lemma promote_round:
  assumes inv: "inner_inv rk mrk (x # Q) p" and ho: "hash_orders_ok ho"
  shows "\<exists>us P' R' res. mark_and_unlock ho (provides (pool_tx x)) (pending_transactions p) = Some (us, P') \<and>
           ready_add_transaction ho x (ready_transactions p) = Some (R', res) \<and>
           inner_inv rk mrk (Q @ us) \<lparr>ready_transactions = R', pending_transactions = P'\<rparr> \<and>
           round_effect x p us \<lparr>ready_transactions = R', pending_transactions = P'\<rparr> res"
proof -
  note D = inner_invD [OF inv]
  have x: "is_ready x" "wf_pool_tx (pool_tx x)" "ranked rk mrk (pool_tx x)"
    "fmlookup (ready_tx (ready_transactions p)) (tx_hash_of (pool_tx x)) = None"
    using D(7) [of x] by (auto simp: awaits_import_def inner_contains_iff refs_None)
  from mark_and_unlock_effect [OF D(1) ho] obtain us P' where
    mu: "mark_and_unlock ho (provides (pool_tx x)) (pending_transactions p) = Some (us, P')"
      "unlock_effect (provides (pool_tx x)) (pending_transactions p) us P'" by blast
  from ready_add_transaction_ok [OF D(2) ho x(2,1,4)] obtain R' res where
    ra: "ready_add_transaction ho x (ready_transactions p) = Some (R', res)" "ready_inv R'"
      "case res of Inl e \<Rightarrow> R' = ready_transactions p \<and> e = ReplacementUnderpriced (pool_tx x) \<and>
           outbid (pool_tx x) (ready_transactions p)
       | Inr replaced \<Rightarrow> ready_added (pool_tx x) replaced (ready_transactions p) R'"
    by blast
  note rank = ready_add_transaction_ranked [OF D(2) ho x(2) D(3) x(3) ra(1)]
  have wait: "waiting \<lparr>ready_transactions = R', pending_transactions = P'\<rparr> \<union> hashes us \<subseteq> waiting p"
    using mu(2) by (auto simp: waiting_def unlock_effect_def)
  show ?thesis
  proof (cases res)
    case (Inl e)
    with ra(3) obtain h r where r: "refs (ready_tx (ready_transactions p)) h = Some r"
      "provides (ref_tx r) = provides (pool_tx x)" by (auto simp: outbid_def)
    then have "\<forall>m \<in> set (provides (pool_tx x)). fmlookup (required_markers (pending_transactions p)) m = None"
      using ready_inv_exceptD(3) [OF D(2) [unfolded ready_inv_def] r(1)] D(6) by fastforce
    from mark_and_unlock_none [OF this] mu(1) have "us = []" "P' = pending_transactions p" by auto
    moreover have "inner_inv rk mrk Q \<lparr>ready_transactions = ready_transactions p,
        pending_transactions = pending_transactions p\<rparr>"
      using inv by (cases p) (simp add: inner_inv_def)
    ultimately show ?thesis using mu(1) ra Inl wait by (auto simp: round_effect_def)
  next
    case (Inr replaced)
    have "inner_contains p h \<or> h = tx_hash_of (pool_tx x) \<longleftrightarrow>
        inner_contains \<lparr>ready_transactions = R', pending_transactions = P'\<rparr> h \<or> h \<in> hashes us \<or>
        h \<in> tx_hash_of ` set replaced" for h
      using ready_added_contents [OF D(2), of "pool_tx x" replaced R' h] ra(3) Inr mu(2)
      by (auto simp: inner_contains_iff unlock_effect_def)
    with mu ra Inr wait round_ready_inv [OF inv mu(2) ra(2) rank] show ?thesis
      by (auto simp: round_effect_def)
  qed
qed

text \<open>The transactions a report gives up: replaced ones and discarded ones.\<close>

definition given_up :: "ReadyReport \<Rightarrow> tx_hash set" where
  "given_up rep = tx_hash_of ` set (rep_removed rep) \<union> set (rep_discarded rep)"

text \<open>
  The outcome of the loop. An error leaves the pool as it was. Otherwise every transaction of the
  pool and of the queue is in the pool or given up, and what is promoted or discarded was waiting
  in the pending queue or in line.
\<close>

definition in_line :: "bool \<Rightarrow> PendingPoolTransaction list \<Rightarrow> PoolInner \<Rightarrow> tx_hash set" where
  "in_line new Q p = hashes (if new then tl Q else Q) \<union> waiting p"

definition moved :: "ReadyReport \<Rightarrow> tx_hash set" where
  "moved rep = set (rep_promoted rep) \<union> set (rep_discarded rep)"

definition loop_outcome ::
    "bool \<Rightarrow> PendingPoolTransaction list \<Rightarrow> ReadyReport \<Rightarrow> PoolInner \<Rightarrow> PoolInner
       \<Rightarrow> PoolError + ReadyReport \<Rightarrow> bool" where
  "loop_outcome new Q rep p p' res \<longleftrightarrow>
     (case res of
        Inl e \<Rightarrow> new \<and> p' = p \<and> e = ReplacementUnderpriced (pool_tx (hd Q)) \<and>
                 outbid (pool_tx (hd Q)) (ready_transactions p)
      | Inr rep' \<Rightarrow> rep_hash rep' = rep_hash rep \<and> moved rep' \<subseteq> moved rep \<union> in_line new Q p \<and>
          (\<forall>h. inner_contains p h \<or> h \<in> hashes Q \<union> given_up rep \<longleftrightarrow>
             inner_contains p' h \<or> h \<in> given_up rep'))"

lemma loop_outcome_continue:
  assumes "loop_outcome False (Q @ us) rep1 p1 p' res" and "waiting p1 \<union> hashes us \<subseteq> waiting p"
    and "moved rep1 \<subseteq> moved rep \<union> in_line new (x # Q) p" and "rep_hash rep1 = rep_hash rep"
    and "\<And>h. inner_contains p h \<or> h \<in> hashes (x # Q) \<union> given_up rep \<longleftrightarrow>
           inner_contains p1 h \<or> h \<in> hashes (Q @ us) \<union> given_up rep1"
  shows "loop_outcome new (x # Q) rep p p' res"
proof (cases res)
  case (Inl e)
  with assms(1) show ?thesis by (simp add: loop_outcome_def)
next
  case (Inr rep')
  have "in_line False (Q @ us) p1 \<subseteq> in_line new (x # Q) p"
    using assms(2) by (auto simp: in_line_def)
  moreover have "moved rep' \<subseteq> moved rep1 \<union> in_line False (Q @ us) p1"
    using assms(1) Inr by (simp add: loop_outcome_def)
  ultimately have "moved rep' \<subseteq> moved rep \<union> in_line new (x # Q) p" using assms(3) by blast
  then show ?thesis
    using assms(1,4) Inr unfolding loop_outcome_def assms(5) by simp
qed

lemma promote_loop_ok:
  assumes ho: "hash_orders_ok ho" and "inner_inv rk mrk (Q @ S) p"
  shows "\<exists>p' res. promote_loop ho new Q rep p = Some (p', res) \<and> inner_inv rk mrk S p' \<and>
           loop_outcome new Q rep p p' res"
  using assms
proof (induction "length Q + pending_len (pending_transactions p)" arbitrary: new Q rep p rule: less_induct)
  case less
  show ?case
  proof (cases Q)
    case Nil
    with less.prems show ?thesis by (simp add: loop_outcome_def)
  next
    case (Cons x Q')
    from promote_round [of rk mrk x "Q' @ S" p ho] less.prems Cons obtain us P' R' res where
      mu: "mark_and_unlock ho (provides (pool_tx x)) (pending_transactions p) = Some (us, P')" and
      ra: "ready_add_transaction ho x (ready_transactions p) = Some (R', res)" and
      inv': "inner_inv rk mrk ((Q' @ S) @ us) \<lparr>ready_transactions = R', pending_transactions = P'\<rparr>" and
      eff: "round_effect x p us \<lparr>ready_transactions = R', pending_transactions = P'\<rparr> res"
      by auto
    let ?p1 = "\<lparr>ready_transactions = R', pending_transactions = P'\<rparr>"
    have inv1: "inner_inv rk mrk ((Q' @ us) @ S) ?p1"
      using inv' by (auto simp: inner_inv_def list_all_iff)
    have "length (Q' @ us) + pending_len (pending_transactions ?p1) <
        length Q + pending_len (pending_transactions p)"
      using mark_and_unlock_len [OF mu] Cons by simp
    note IH = less.hyps [OF this ho inv1, of False]
    have wait: "waiting ?p1 \<union> hashes us \<subseteq> waiting p" using eff by (simp add: round_effect_def)
    show ?thesis
    proof (cases "new \<and> isl res")
      case True
      with eff obtain e where e: "res = Inl e" "e = ReplacementUnderpriced (pool_tx x)" "us = []" "?p1 = p"
        "outbid (pool_tx x) (ready_transactions p)" by (auto simp: round_effect_def isl_def)
      have "inner_inv rk mrk S p" using inv1 unfolding e(3,4) by (simp add: inner_inv_def)
      with True mu ra Cons e show ?thesis by (simp add: loop_outcome_def Let_def)
    next
      case False
      define rep1 where "rep1 = (case res of
          Inl _ \<Rightarrow> rep\<lparr>rep_discarded := rep_discarded rep @ [tx_hash_of (pool_tx x)]\<rparr>
        | Inr replaced \<Rightarrow> rep\<lparr>rep_promoted := rep_promoted rep @ (if new then [] else [tx_hash_of (pool_tx x)]),
                              rep_removed := rep_removed rep @ replaced\<rparr>)"
      have run: "promote_loop ho new Q rep p = promote_loop ho False (Q' @ us) rep1 ?p1"
        using mu ra Cons False by (auto simp: rep1_def Let_def split: sum.split)
      have "loop_outcome new (x # Q') rep p p' res'" if "loop_outcome False (Q' @ us) rep1 ?p1 p' res'" for p' res'
        by (rule loop_outcome_continue [OF that wait])
          (use eff False in \<open>auto simp: rep1_def moved_def given_up_def in_line_def round_effect_def split: sum.splits\<close>)
      with IH [of rep1] show ?thesis unfolding Cons run [unfolded Cons] by blast
    qed
  qed
qed

section \<open>The methods of PoolInner\<close>

text \<open>The outcome of adding a transaction that goes to the ready queue.\<close>

definition ready_outcome ::
    "PoolTransaction \<Rightarrow> PoolInner \<Rightarrow> PoolInner \<Rightarrow> PoolError + AddedTransaction \<Rightarrow> bool" where
  "ready_outcome tx p p' res \<longleftrightarrow>
     (case res of
        Inl e \<Rightarrow>
          (e = CyclicTransaction \<and>
             (\<forall>h. inner_contains p' h \<longrightarrow> inner_contains p h \<or> h = tx_hash_of tx)) \<or>
          (e = ReplacementUnderpriced tx \<and> p' = p \<and> outbid tx (ready_transactions p))
      | Inr (AddedReady rep) \<Rightarrow>
          rep_hash rep = tx_hash_of tx \<and> inner_contains p' (tx_hash_of tx) \<and> moved rep \<subseteq> waiting p \<and>
          (\<forall>h. inner_contains p h \<or> h = tx_hash_of tx \<longleftrightarrow> inner_contains p' h \<or> h \<in> given_up rep)
      | Inr (AddedPending _) \<Rightarrow> False)"

lemma add_ready_transaction_ok:
  assumes inv: "inner_inv rk mrk (x # S) p" and ho: "hash_orders_ok ho"
  shows "\<exists>p' res. add_ready_transaction ho x p = Some (p', res) \<and> inner_inv rk mrk S p' \<and>
           ready_outcome (pool_tx x) p p' res"
proof -
  let ?h = "tx_hash_of (pool_tx x)"
  from promote_loop_ok [OF ho, of rk mrk "[x]" S p True "ReadyReport_new ?h"] inv obtain p1 res1 where
    run: "promote_loop ho True [x] (ReadyReport_new ?h) p = Some (p1, res1)"
    and inv1: "inner_inv rk mrk S p1" and out: "loop_outcome True [x] (ReadyReport_new ?h) p p1 res1"
    by auto
  show ?thesis
  proof (cases res1)
    case (Inl e)
    with run inv1 out show ?thesis
      by (auto simp: add_ready_transaction_def loop_outcome_def ready_outcome_def Let_def)
  next
    case (Inr rep)
    have "\<not> inner_contains p ?h" using inner_invD(7) [OF inv, of x] by (simp add: awaits_import_def)
    then have nw: "?h \<notin> waiting p" by (simp add: waiting_def inner_contains_iff)
    have rep: "rep_hash rep = ?h" "moved rep \<subseteq> waiting p"
      "\<And>h. inner_contains p h \<or> h = ?h \<longleftrightarrow> inner_contains p1 h \<or> h \<in> given_up rep"
      using out Inr by (auto simp: loop_outcome_def ReadyReport_new_def moved_def in_line_def given_up_def)
    show ?thesis
    proof (cases "\<exists>t \<in> set (rep_removed rep). tx_hash_of t = ?h")
      case True
      obtain cleared R' where R': "remove_with_markers (rep_promoted rep) None (ready_transactions p1) = (cleared, R')"
        by fastforce
      have "inner_contains p h \<or> h = ?h" if "inner_contains (p1\<lparr>ready_transactions := R'\<rparr>) h" for h
      proof -
        have "refs (ready_tx R') h = None \<or> refs (ready_tx R') h = refs (ready_tx (ready_transactions p1)) h"
          using remove_with_markers_pool [OF inv1 R'] by (simp add: removal_of_def)
        then have "inner_contains p1 h" using that by (auto simp: inner_contains_iff)
        with rep(3) [of h] show ?thesis by simp
      qed
      then have "ready_outcome (pool_tx x) p (p1\<lparr>ready_transactions := R'\<rparr>) (Inl CyclicTransaction)"
        by (simp add: ready_outcome_def)
      moreover have "add_ready_transaction ho x p =
          Some (p1\<lparr>ready_transactions := R'\<rparr>, Inl CyclicTransaction)"
        using run Inr True R' by (simp add: add_ready_transaction_def clear_transactions_def Let_def)
      ultimately show ?thesis using remove_with_markers_pool [OF inv1 R'] by blast
    next
      case False
      then have "?h \<notin> given_up rep" using rep(2) nw by (auto simp: given_up_def moved_def)
      then have "inner_contains p1 ?h" using rep(3) [of ?h] by simp
      with run Inr False rep inv1 show ?thesis
        by (simp add: add_ready_transaction_def ready_outcome_def Let_def)
    qed
  qed
qed

text \<open>The outcome of \<open>add_transaction\<close> on every branch.\<close>

definition add_outcome ::
    "PoolTransaction \<Rightarrow> PoolInner \<Rightarrow> PoolInner \<Rightarrow> PoolError + AddedTransaction \<Rightarrow> bool" where
  "add_outcome tx p p' res \<longleftrightarrow>
     (case res of
        Inl (AlreadyImported t) \<Rightarrow> t = tx \<and> p' = p \<and> inner_contains p (tx_hash_of tx)
      | Inl (ReplacementUnderpriced t) \<Rightarrow> t = tx \<and> p' = p
      | Inl CyclicTransaction \<Rightarrow> True
      | Inr (AddedPending h) \<Rightarrow>
          h = tx_hash_of tx \<and> ready_transactions p' = ready_transactions p \<and>
          waiting p' = insert h (waiting p) \<and> h \<notin> waiting p \<and>
          (\<exists>m \<in> set (requires tx). fmlookup (provided_markers (ready_transactions p)) m = None)
      | Inr (AddedReady rep) \<Rightarrow>
          rep_hash rep = tx_hash_of tx \<and> inner_contains p' (tx_hash_of tx) \<and> moved rep \<subseteq> waiting p \<and>
          (\<forall>h. inner_contains p h \<or> h = tx_hash_of tx \<longleftrightarrow> inner_contains p' h \<or> h \<in> given_up rep))"

lemma ready_outcome_add: "ready_outcome tx p p' res \<Longrightarrow> add_outcome tx p p' res"
  by (auto simp: ready_outcome_def add_outcome_def split: sum.splits PoolError.splits AddedTransaction.splits)

text \<open>Queueing a transaction that misses a marker.\<close>

lemma inner_inv_wait:
  assumes inv: "inner_inv rk mrk [] p" and x: "ranked rk mrk (pool_tx x)" "\<not> inner_contains p (tx_hash_of (pool_tx x))"
    and miss: "\<And>m. m |\<in>| missing_markers x \<Longrightarrow> fmlookup (provided_markers (ready_transactions p)) m = None"
    and P': "pending_inv P'" "waiting_queue P' = fmupd (tx_hash_of (pool_tx x)) x (waiting_queue (pending_transactions p))"
      "\<And>m. fmlookup (required_markers P') m \<noteq> None \<Longrightarrow>
         fmlookup (required_markers (pending_transactions p)) m \<noteq> None \<or> m |\<in>| missing_markers x"
  shows "inner_inv rk mrk [] (p\<lparr>pending_transactions := P'\<rparr>)"
proof -
  have "fmlookup (required_markers P') m = None"
    if "fmlookup (provided_markers (ready_transactions p)) m \<noteq> None" for m
    using that miss [of m] P'(3) [of m] inner_invD(6) [OF inv, of m] by metis
  then show ?thesis
    using inv x P'(1) unfolding inner_inv_def
    by (auto simp: P'(2) inner_contains_iff refs_None)
qed

lemma inner_add_transaction_ok:
  assumes inv: "inner_inv rk mrk [] p" and ho: "hash_orders_ok ho"
    and tx: "wf_pool_tx tx" "ranked rk mrk tx"
  shows "\<exists>p' res. inner_add_transaction ho tx p = Some (p', res) \<and> inner_inv rk mrk [] p' \<and>
           add_outcome tx p p' res"
proof (cases "inner_contains p (tx_hash_of tx)")
  case True
  with inv show ?thesis by (simp add: inner_add_transaction_def add_outcome_def)
next
  case new: False
  note D = inner_invD [OF inv]
  let ?x = "PendingPoolTransaction_new tx (provided_markers (ready_transactions p))"
  have x [simp]: "pool_tx ?x = tx" by (simp add: PendingPoolTransaction_new_def)
  have miss: "m |\<in>| missing_markers ?x \<longleftrightarrow>
      m \<in> set (requires tx) \<and> fmlookup (provided_markers (ready_transactions p)) m = None" for m
    by (auto simp: PendingPoolTransaction_new_def fset_of_list_elem)
  show ?thesis
  proof (cases "is_ready ?x")
    case True
    have "inner_inv rk mrk [?x] p"
      using inv tx new True by (simp add: inner_inv_def awaits_import_def)
    from add_ready_transaction_ok [OF this ho] new True show ?thesis
      using ready_outcome_add [of tx p] by (auto simp: inner_add_transaction_def Let_def)
  next
    case False
    have fresh: "fmlookup (waiting_queue (pending_transactions p)) (tx_hash_of (pool_tx ?x)) = None"
      using new by (simp add: inner_contains_iff)
    have "wf_pool_tx (pool_tx ?x)" using tx(1) by simp
    from pending_add_transaction_ok [OF D(1) ho this False fresh, unfolded x] obtain P' r where
      add: "pending_add_transaction ho ?x (pending_transactions p) = Some (P', r)" and P': "pending_inv P'"
        "case r of Inl e \<Rightarrow> P' = pending_transactions p \<and> e = ReplacementUnderpriced tx
         | Inr _ \<Rightarrow> waiting_queue P' = fmupd (tx_hash_of tx) ?x (waiting_queue (pending_transactions p)) \<and>
             (\<forall>m. fmlookup (required_markers P') m \<noteq> None \<longrightarrow>
                fmlookup (required_markers (pending_transactions p)) m \<noteq> None \<or> m |\<in>| missing_markers ?x)"
      by blast
    show ?thesis
    proof (cases r)
      case (Inl e)
      with add P' inv new False show ?thesis
        by (cases p) (auto simp: inner_add_transaction_def add_outcome_def Let_def)
    next
      case (Inr u)
      have "inner_inv rk mrk [] (p\<lparr>pending_transactions := P'\<rparr>)"
        by (rule inner_inv_wait [OF inv, of ?x]) (use tx new P' Inr miss in auto)
      moreover have "\<exists>m \<in> set (requires tx). fmlookup (provided_markers (ready_transactions p)) m = None"
        using False miss by (auto simp: is_ready_def)
      ultimately show ?thesis
        using add P' new False Inr fresh
        by (auto simp: inner_add_transaction_def add_outcome_def waiting_def Let_def)
    qed
  qed
qed

subsection \<open>Pruning\<close>

lemma inner_inv_unlock:
  assumes inv: "inner_inv rk mrk Q p" and un: "unlock_effect ms (pending_transactions p) us P'"
    and R': "ready_inv R'" "ready_ranked rk mrk R'" "removal_of hs removed (ready_transactions p) R'"
  shows "inner_inv rk mrk (Q @ us) \<lparr>ready_transactions = R', pending_transactions = P'\<rparr>" (is "inner_inv _ _ _ ?p'")
proof -
  note D = inner_invD [OF inv]
  have shrink: "refs (ready_tx R') h = None \<or> refs (ready_tx R') h = refs (ready_tx (ready_transactions p)) h" for h
    using R'(3) by (simp add: removal_of_def)
  have inv': "inner_inv rk mrk Q ?p'"
  proof (rule inner_inv_shrink [OF inv R'(1,2) shrink])
    show "fmlookup (provided_markers (ready_transactions p)) m = Some h"
      if "fmlookup (provided_markers R') m = Some h" for m h
      using R'(3) that by (simp add: removal_of_def)
  qed (use un in \<open>simp_all add: unlock_effect_def split: if_splits\<close>)
  have us: "awaits_import rk mrk ?p' u \<and> tx_hash_of (pool_tx u) \<in> waiting p" if u: "u \<in> set us" for u
  proof -
    from un u obtain z where z: "is_ready u" "fmlookup (waiting_queue P') (tx_hash_of (pool_tx u)) = None"
      "fmlookup (waiting_queue (pending_transactions p)) (tx_hash_of (pool_tx u)) = Some z" "pool_tx u = pool_tx z"
      by (auto simp: unlock_effect_def)
    have "refs (ready_tx R') (tx_hash_of (pool_tx u)) = None"
      using shrink [of "tx_hash_of (pool_tx u)"] D(5) [OF z(3), folded refs_None] by auto
    with z D(4) [OF z(3)] pending_inv_queueD(3) [OF D(1) z(3)] show ?thesis
      by (auto simp: awaits_import_def inner_contains_iff waiting_def)
  qed
  have "tx_hash_of (pool_tx y) \<notin> waiting p" if "y \<in> set Q" for y
    using D(7) [OF that] by (simp add: awaits_import_def inner_contains_iff waiting_def)
  then have "hashes Q \<inter> hashes us = {}" using us by fastforce
  then have "distinct (map (\<lambda>x. tx_hash_of (pool_tx x)) (Q @ us))"
    using D(8) un by (simp add: unlock_effect_def)
  with inv' us show ?thesis by (auto simp: inner_inv_def list_all_iff)
qed

text \<open>The markers are gone from both queues; what is in line was in the pool.\<close>

lemma prune_each_ok:
  assumes ho: "hash_orders_ok ho" and "inner_inv rk mrk Q p"
  shows "\<exists>imps pruned p'. prune_each ho ms p = Some (imps, pruned, p') \<and>
           (\<forall>m. fmlookup (provided_markers (ready_transactions p')) m \<noteq> None \<longrightarrow>
              fmlookup (provided_markers (ready_transactions p)) m \<noteq> None) \<and>
           inner_inv rk mrk (Q @ imps) p' \<and> hashes imps \<subseteq> waiting p \<and> waiting p' \<subseteq> waiting p \<and>
           (\<forall>h. refs (ready_tx (ready_transactions p')) h = None \<or>
              refs (ready_tx (ready_transactions p')) h = refs (ready_tx (ready_transactions p)) h) \<and>
           (\<forall>m \<in> set ms. fmlookup (provided_markers (ready_transactions p')) m = None)"
  using assms(2)
proof (induction ms arbitrary: p Q)
  case Nil
  then show ?case by simp
next
  case (Cons m ms)
  note D = inner_invD [OF Cons.prems]
  from mark_and_unlock_effect [OF D(1) ho, of "[m]"] obtain us P' where
    mu: "mark_and_unlock ho [m] (pending_transactions p) = Some (us, P')"
    and un: "unlock_effect [m] (pending_transactions p) us P'" by blast
  from prune_loop_ok [OF D(2), of "[m]"] obtain removed R' where
    pr: "prune_tags m (ready_transactions p) = Some (removed, R')" and R': "ready_inv R'"
      "removal_of {} removed (ready_transactions p) R'" "fmlookup (provided_markers R') m = None"
    by (auto simp: prune_tags_def)
  have "ready_ranked rk mrk R'"
    using ready_ranked_removal [OF R'(2) D(3)] D(3) links_up_prune_loop [OF pr [unfolded prune_tags_def]]
      ordered_prune_loop [OF pr [unfolded prune_tags_def]]
    by (simp add: ready_ranked_def)
  note inv1 = inner_inv_unlock [OF Cons.prems un R'(1) this R'(2)]
  let ?p1 = "\<lparr>ready_transactions = R', pending_transactions = P'\<rparr>"
  have wait: "waiting ?p1 \<union> hashes us \<subseteq> waiting p"
    using un by (auto simp: waiting_def unlock_effect_def)
  have prov: "fmlookup (provided_markers (ready_transactions p)) k \<noteq> None"
    if "fmlookup (provided_markers R') k \<noteq> None" for k
    using R'(2) that by (auto simp: removal_of_def)
  from Cons.IH [OF inv1] R'(3) obtain imps pruned p' where
    prov': "\<And>k. fmlookup (provided_markers (ready_transactions p')) k \<noteq> None \<Longrightarrow>
              fmlookup (provided_markers R') k \<noteq> None" and
    IH: "prune_each ho ms ?p1 = Some (imps, pruned, p')" "inner_inv rk mrk ((Q @ us) @ imps) p'"
      "hashes imps \<subseteq> waiting ?p1" "waiting p' \<subseteq> waiting ?p1"
      "\<forall>h. refs (ready_tx (ready_transactions p')) h = None \<or>
           refs (ready_tx (ready_transactions p')) h = refs (ready_tx R') h"
      "\<forall>k \<in> set ms. fmlookup (provided_markers (ready_transactions p')) k = None"
    by auto
  have "fmlookup (provided_markers (ready_transactions p')) m = None"
    using prov' [of m] R'(3) by blast
  moreover have "prune_each ho (m # ms) p = Some (us @ imps, removed @ pruned, p')"
    using mu pr IH(1) by simp
  moreover have "hashes (us @ imps) \<subseteq> waiting p" "waiting p' \<subseteq> waiting p"
    using wait IH(3,4) by auto
  moreover have "refs (ready_tx (ready_transactions p')) h = None \<or>
      refs (ready_tx (ready_transactions p')) h = refs (ready_tx (ready_transactions p)) h" for h
    using IH(5) R'(2) unfolding removal_of_def by metis
  ultimately show ?case using IH(2,6) prov prov' by auto
qed

lemma import_each_ok:
  assumes ho: "hash_orders_ok ho" and "inner_inv rk mrk txs p"
  shows "\<exists>promoted failed p'. import_each ho txs p = Some (promoted, failed, p') \<and>
           inner_inv rk mrk [] p' \<and> (\<forall>h. inner_contains p' h \<longrightarrow> inner_contains p h \<or> h \<in> hashes txs)"
  using assms(2)
proof (induction txs arbitrary: p)
  case (Cons x txs)
  from add_ready_transaction_ok [OF Cons.prems ho] obtain p1 res where
    add: "add_ready_transaction ho x p = Some (p1, res)" "inner_inv rk mrk txs p1"
      "ready_outcome (pool_tx x) p p1 res" by blast
  have more: "inner_contains p h \<or> h = tx_hash_of (pool_tx x)" if "inner_contains p1 h" for h
    using add(3) that by (auto simp: ready_outcome_def split: sum.splits AddedTransaction.splits)
  from Cons.IH [OF add(2)] obtain promoted failed p' where
    IH: "import_each ho txs p1 = Some (promoted, failed, p')" "inner_inv rk mrk [] p'"
      "\<And>h. inner_contains p' h \<Longrightarrow> inner_contains p1 h \<or> h \<in> hashes txs" by blast
  have "inner_contains p h \<or> h \<in> hashes (x # txs)" if "inner_contains p' h" for h
    using IH(3) [OF that] more [of h] by auto
  with add(1) IH(1,2) show ?case by (auto split: sum.split)
qed simp

lemma inner_prune_markers_ok:
  assumes ho: "hash_orders_ok ho" and inv: "inner_inv rk mrk [] p"
  shows "\<exists>res p'. inner_prune_markers ho ms p = Some (res, p') \<and> inner_inv rk mrk [] p' \<and>
           (\<forall>h. inner_contains p' h \<longrightarrow> inner_contains p h) \<and>
           (\<forall>h r m. refs (ready_tx (ready_transactions p)) h = Some r \<longrightarrow> m \<in> set ms \<longrightarrow>
              m \<in> set (provides (ref_tx r)) \<longrightarrow> \<not> inner_contains p' h)"
proof -
  from prune_each_ok [OF ho inv, of ms] obtain imps pruned p1 where
    pr: "prune_each ho ms p = Some (imps, pruned, p1)" and inv1: "inner_inv rk mrk imps p1"
    and wait: "hashes imps \<subseteq> waiting p" "waiting p1 \<subseteq> waiting p"
    and less: "\<And>h. refs (ready_tx (ready_transactions p1)) h = None \<or>
          refs (ready_tx (ready_transactions p1)) h = refs (ready_tx (ready_transactions p)) h"
    and gone: "\<And>m. m \<in> set ms \<Longrightarrow> fmlookup (provided_markers (ready_transactions p1)) m = None"
    by auto
  from import_each_ok [OF ho inv1] obtain promoted failed p' where
    im: "import_each ho imps p1 = Some (promoted, failed, p')" "inner_inv rk mrk [] p'"
      "\<And>h. inner_contains p' h \<Longrightarrow> inner_contains p1 h \<or> h \<in> hashes imps" by blast
  have src: "refs (ready_tx (ready_transactions p1)) h \<noteq> None \<or> h \<in> waiting p" if "inner_contains p' h" for h
    using im(3) [OF that] wait by (auto simp: inner_contains_iff waiting_def)
  have "inner_contains p h" if "inner_contains p' h" for h
    using src [OF that] less [of h] by (auto simp: inner_contains_iff waiting_def)
  moreover have "\<not> inner_contains p' h" if r: "refs (ready_tx (ready_transactions p)) h = Some r"
    and m: "m \<in> set ms" "m \<in> set (provides (ref_tx r))" for h r m
  proof
    assume "inner_contains p' h"
    moreover have "h \<notin> waiting p"
      using r inner_invD(5) [OF inv, of h]
      by (cases "fmlookup (waiting_queue (pending_transactions p)) h") (auto simp: waiting_def refs_def)
    ultimately have "refs (ready_tx (ready_transactions p1)) h = Some r"
      using src [of h] less [of h] r by auto
    from ready_inv_exceptD(3) [OF inner_invD(2) [OF inv1, unfolded ready_inv_def] this m(2)] gone [OF m(1)]
    show False by simp
  qed
  ultimately show ?thesis
    using pr im(1,2) by (auto simp: inner_prune_markers_def)
qed

text \<open>Removing hashes from both queues, as \<open>remove_invalid\<close> and \<open>remove_transactions_by_address\<close> do.\<close>

lemma remove_both_ok:
  assumes ho: "hash_orders_ok ho" and inv: "inner_inv rk mrk Q p"
    and R': "remove_with_markers hs None (ready_transactions p) = (removed, R')"
    and P': "pending_remove ho hs (pending_transactions p) = (removed', P')"
  shows "inner_inv rk mrk Q \<lparr>ready_transactions = R', pending_transactions = P'\<rparr>"
    and "inner_contains \<lparr>ready_transactions = R', pending_transactions = P'\<rparr> h \<Longrightarrow>
           inner_contains p h \<and> h \<notin> set hs"
proof -
  note 1 = remove_with_markers_pool [OF inv R']
  have "inner_inv rk mrk Q (p\<lparr>ready_transactions := R', pending_transactions := P'\<rparr>)"
    using pending_remove_pool [OF conjunct1 [OF 1] ho, of hs] P' by simp
  then show "inner_inv rk mrk Q \<lparr>ready_transactions = R', pending_transactions = P'\<rparr>"
    by (cases p) simp
  have "refs (ready_tx R') h = None \<or> refs (ready_tx R') h = refs (ready_tx (ready_transactions p)) h"
    "h \<in> set hs \<Longrightarrow> refs (ready_tx R') h = None"
    using 1 by (auto simp: removal_of_def)
  then show "inner_contains \<lparr>ready_transactions = R', pending_transactions = P'\<rparr> h \<Longrightarrow>
           inner_contains p h \<and> h \<notin> set hs"
    using pending_remove_ok [OF inner_invD(1) [OF inv] ho P'] by (auto simp: inner_contains_iff split: if_splits)
qed

lemma inner_remove_invalid_ok:
  assumes ho: "hash_orders_ok ho" and inv: "inner_inv rk mrk Q p"
    and run: "inner_remove_invalid ho hs p = (removed, p')"
  shows "inner_inv rk mrk Q p' \<and> (\<forall>h. inner_contains p' h \<longrightarrow> inner_contains p h \<and> h \<notin> set hs)"
proof (cases "hs = []")
  case True
  with run inv show ?thesis by (simp add: inner_remove_invalid_def)
next
  case False
  with run obtain R' P' r1 r2 where "remove_with_markers hs None (ready_transactions p) = (r1, R')"
    "pending_remove ho hs (pending_transactions p) = (r2, P')"
    "p' = \<lparr>ready_transactions = R', pending_transactions = P'\<rparr>"
    by (auto simp: inner_remove_invalid_def Let_def split: prod.splits)
  with remove_both_ok [OF ho inv] show ?thesis by blast
qed

text \<open>A transaction that survives \<open>remove_invalid\<close> in the ready queue is the one that was there.\<close>

lemma inner_remove_invalid_ready:
  assumes ho: "hash_orders_ok ho" and inv: "inner_inv rk mrk Q p"
    and run: "inner_remove_invalid ho hs p = (removed, p')" and "inner_contains p' h"
    and "fmlookup (waiting_queue (pending_transactions p)) h = None"
  shows "refs (ready_tx (ready_transactions p')) h = refs (ready_tx (ready_transactions p)) h"
proof (cases "hs = []")
  case True
  with run show ?thesis by (simp add: inner_remove_invalid_def)
next
  case False
  with run obtain R' P' r1 r2 where R': "remove_with_markers hs None (ready_transactions p) = (r1, R')"
    and P': "pending_remove ho hs (pending_transactions p) = (r2, P')"
    and p': "p' = \<lparr>ready_transactions = R', pending_transactions = P'\<rparr>"
    by (auto simp: inner_remove_invalid_def Let_def split: prod.splits)
  have "fmlookup (waiting_queue P') h = None"
    using pending_remove_ok [OF inner_invD(1) [OF inv] ho P'] assms(5) by simp
  then have "refs (ready_tx R') h \<noteq> None" using assms(4) by (simp add: p' inner_contains_iff)
  moreover have "refs (ready_tx R') h = None \<or> refs (ready_tx R') h = refs (ready_tx (ready_transactions p)) h"
    using remove_with_markers_pool [OF inv R'] by (simp add: removal_of_def)
  ultimately show ?thesis by (auto simp: p')
qed

lemma get_transactions_returns:
  assumes "inner_inv rk mrk Q p"
  shows "\<exists>txs. iter_collect (get_transactions (ready_transactions p)) = Some txs \<and>
           unlock_order (ready_tx (ready_transactions p))
             (ref_hashes (independent_transactions (ready_transactions p))) txs"
proof -
  let ?it = "get_transactions (ready_transactions p)"
  have "links_up rk (iter_all ?it)"
    using inner_invD(3) [OF assms] by (simp add: get_transactions_def ready_ranked_def)
  moreover have "iter_inv ?it"
    using ready_inv_exceptD(1,5) [OF inner_invD(2) [OF assms, unfolded ready_inv_def]]
    by (simp add: get_transactions_def iter_inv_def)
  ultimately show ?thesis
    using iter_collect_returns [of ?it rk] by (simp add: get_transactions_def)
qed

lemma inner_remove_by_address_ok:
  assumes ho: "hash_orders_ok ho" and inv: "inner_inv rk mrk Q p"
  shows "\<exists>removed p'. inner_remove_transactions_by_address ho from p = Some (removed, p') \<and> inner_inv rk mrk Q p'"
proof -
  from get_transactions_returns [OF inv] obtain txs where txs: "transactions_by_sender ho p from = Some txs"
    by (auto simp: transactions_by_sender_def Let_def)
  obtain r1 R' r2 P' where
    R': "remove_with_markers (map tx_hash_of txs) None (ready_transactions p) = (r1, R')" and
    P': "pending_remove ho (map tx_hash_of txs) (pending_transactions p) = (r2, P')" by fastforce
  from remove_both_ok(1) [OF ho inv R' P'] txs R' P' inv show ?thesis
    by (auto simp: inner_remove_transactions_by_address_def Let_def)
qed

section \<open>Listeners\<close>

lemma nth_swap_remove: "j < i \<Longrightarrow> i < length xs \<Longrightarrow> swap_remove i xs ! j = xs ! j"
  by (simp add: swap_remove_def nth_butlast)

lemma take_swap_remove: "i < length xs \<Longrightarrow> take i (swap_remove i xs) = take i xs"
  by (rule nth_equalityI) (simp_all add: nth_swap_remove)

text \<open>What is left of a group of listeners once each of them has been sent the hash.\<close>

definition retained ::
    "('ch \<Rightarrow> tx_hash \<Rightarrow> 'ch \<times> send_result) \<Rightarrow> tx_hash \<Rightarrow> 'ch list \<Rightarrow> 'ch list" where
  "retained try_send hash ls =
     map fst (filter (\<lambda>(ch, res). res \<noteq> Disconnected) (map (\<lambda>l. try_send l hash) ls))"

lemma notify_loop_ok:
  assumes "n \<le> length ls"
  shows "\<exists>ls'. notify_loop try_send hash n ls = Some ls' \<and>
           mset ls' = mset (drop n ls) + mset (retained try_send hash (take n ls))"
  using assms
proof (induction n arbitrary: ls)
  case 0
  then show ?case by (simp add: retained_def)
next
  case (Suc n)
  then have n: "n < length ls" by simp
  obtain ch res where send: "try_send (ls ! n) hash = (ch, res)" by fastforce
  let ?ls1 = "if res = Disconnected then swap_remove n ls else swap_remove n ls @ [ch]"
  have len: "n \<le> length ?ls1" using n by auto
  have take: "take n ?ls1 = take n ls" using n by (simp add: take_swap_remove)
  have "mset (take n (swap_remove n ls)) + mset (drop n (swap_remove n ls)) = mset (swap_remove n ls)"
    by (metis append_take_drop_id mset_append)
  moreover have "mset (take n ls) + mset (drop n ls) = mset ls"
    by (metis append_take_drop_id mset_append)
  ultimately have "mset (take n ls) + add_mset (ls ! n) (mset (drop n (swap_remove n ls))) =
      mset (take n ls) + mset (drop n ls)"
    using mset_swap_remove [OF n] by (simp add: take_swap_remove [OF n])
  then have "add_mset (ls ! n) (mset (drop n (swap_remove n ls))) = mset (drop n ls)"
    by (simp only: add_left_cancel)
  then have rest: "mset (drop n (swap_remove n ls)) = mset (drop (Suc n) ls)"
    using n by (simp add: Cons_nth_drop_Suc [symmetric])
  have "mset (drop n ?ls1) = mset (drop (Suc n) ls) + (if res = Disconnected then {#} else {#ch#})"
    using n by (simp add: rest)
  moreover have "retained try_send hash (take (Suc n) ls) =
      retained try_send hash (take n ls) @ (if res = Disconnected then [] else [ch])"
    using n send by (simp add: retained_def take_Suc_conv_app_nth)
  moreover from Suc.IH [OF len] obtain ls' where "notify_loop try_send hash n ?ls1 = Some ls'"
    "mset ls' = mset (drop n ?ls1) + mset (retained try_send hash (take n ?ls1))" by blast
  ultimately show ?case using n send take by (auto simp: Let_def)
qed

lemma notify_listener_ok:
  "\<exists>ls'. notify_listener try_send hash ls = Some ls' \<and> mset ls' = mset (retained try_send hash ls)"
  using notify_loop_ok [of "length ls" ls try_send hash] by (simp add: notify_listener_def)

lemma notify_each_returns: "\<exists>ls'. notify_each try_send hs ls = Some ls'"
proof (induction hs arbitrary: ls)
  case (Cons h hs)
  from notify_listener_ok [of try_send h ls] Cons show ?case by auto
qed simp

section \<open>The pool under any sequence of methods\<close>

definition pool_inv :: "hash_orders \<Rightarrow> (tx_hash \<Rightarrow> nat) \<Rightarrow> (tx_marker \<Rightarrow> nat) \<Rightarrow> 'ch Pool \<Rightarrow> bool" where
  "pool_inv ho rk mrk pool \<longleftrightarrow> hash_orders_ok ho \<and> inner_inv rk mrk [] (inner pool)"

text \<open>A transaction may be submitted if it is well-formed and fits the ranking.\<close>

fun admissible_op :: "(tx_hash \<Rightarrow> nat) \<Rightarrow> (tx_marker \<Rightarrow> nat) \<Rightarrow> 'ch pool_op \<Rightarrow> bool" where
  "admissible_op rk mrk (OpAdd tx) \<longleftrightarrow> wf_pool_tx tx \<and> ranked rk mrk tx"
| "admissible_op rk mrk _ \<longleftrightarrow> True"

lemma add_transaction_ok:
  assumes "pool_inv ho rk mrk pool" and "wf_pool_tx tx" and "ranked rk mrk tx"
  shows "\<exists>pool' res. add_transaction ho try_send tx pool = Some (pool', res) \<and>
           pool_inv ho rk mrk pool' \<and> add_outcome tx (inner pool) (inner pool') res"
proof -
  from assms have ho: "hash_orders_ok ho" and inv: "inner_inv rk mrk [] (inner pool)"
    by (auto simp: pool_inv_def)
  from inner_add_transaction_ok [OF inv ho assms(2,3)] obtain p' res where
    add: "inner_add_transaction ho tx (inner pool) = Some (p', res)" "inner_inv rk mrk [] p'"
      "add_outcome tx (inner pool) p' res" by blast
  show ?thesis
  proof (cases "\<exists>ready. res = Inr (AddedReady ready)")
    case True
    then obtain ready where res: "res = Inr (AddedReady ready)" by blast
    obtain ls' where "notify_each try_send (rep_hash ready # rep_promoted ready) (transaction_listener pool) = Some ls'"
      using notify_each_returns by blast
    with add res ho show ?thesis by (auto simp: add_transaction_def pool_inv_def simp del: notify_each.simps)
  next
    case False
    then have "add_transaction ho try_send tx pool = Some (pool\<lparr>inner := p'\<rparr>, res)"
      using add(1) by (auto simp: add_transaction_def split: sum.splits AddedTransaction.splits)
    with add ho show ?thesis by (auto simp: pool_inv_def)
  qed
qed

lemma prune_markers_ok:
  assumes "pool_inv ho rk mrk pool"
  shows "\<exists>res pool'. prune_markers ho ms pool = Some (res, pool') \<and> pool_inv ho rk mrk pool'"
  using inner_prune_markers_ok [of ho rk mrk "inner pool" ms] assms
  by (auto simp: prune_markers_def pool_inv_def)

lemma remove_invalid_ok:
  assumes "pool_inv ho rk mrk pool" and "remove_invalid ho hs pool = (removed, pool')"
  shows "pool_inv ho rk mrk pool'"
  using inner_remove_invalid_ok [of ho rk mrk "[]" "inner pool" hs] assms
  by (auto simp: remove_invalid_def pool_inv_def split: prod.splits)

lemma drop_transaction_ok:
  assumes "pool_inv ho rk mrk pool" and "drop_transaction h pool = (dropped, pool')"
  shows "pool_inv ho rk mrk pool'"
  using remove_with_markers_pool [of rk mrk "[]" "inner pool" "[h]"] assms
  by (auto simp: drop_transaction_def pool_inv_def split: prod.splits)

lemma pool_step_ok:
  assumes inv: "pool_inv ho rk mrk pool" and "admissible_op rk mrk op"
  shows "\<exists>pool'. pool_step ho try_send op pool = Some pool' \<and> pool_inv ho rk mrk pool'"
proof (cases op)
  case (OpAdd tx)
  with assms add_transaction_ok [OF inv, of tx try_send] show ?thesis by auto
next
  case (OpMined outcome)
  obtain removed pool1 where rm: "remove_invalid ho (map tx_hash_of (invalid outcome)) pool = (removed, pool1)"
    by fastforce
  from prune_markers_ok [OF remove_invalid_ok [OF inv rm], of "concat (map provides (included outcome))"]
  show ?thesis using rm OpMined by (auto simp: on_mined_block_def)
next
  case (OpPrune ms)
  with prune_markers_ok [OF inv, of ms] show ?thesis by auto
next
  case (OpRemoveInvalid hs)
  with remove_invalid_ok [OF inv, of hs] show ?thesis by (cases "remove_invalid ho hs pool") auto
next
  case (OpRemoveByAddress a)
  with inner_remove_by_address_ok [of ho rk mrk "[]" "inner pool" a] inv show ?thesis
    by (auto simp: remove_transactions_by_address_def pool_inv_def)
next
  case (OpDrop h)
  with drop_transaction_ok [OF inv, of h] show ?thesis by (cases "drop_transaction h pool") auto
next
  case OpClear
  have "inner_inv rk mrk [] (inner_clear (inner pool))"
    using ready_inv_clear [of "ready_transactions (inner pool)"] pending_inv_empty
    by (auto simp: inner_inv_def inner_clear_def pending_clear_eq ready_ranked_def links_up_def ordered_refs_def
        ready_clear_def pending_empty_def refs_def)
  with OpClear inv show ?thesis by (simp add: pool_clear_def pool_inv_def)
qed (use inv in \<open>simp add: add_ready_listener_def pool_inv_def\<close>)

interpretation pool_ops: op_system "pool_step ho try_send" "admissible_op rk mrk" "pool_inv ho rk mrk"
  for ho try_send rk mrk
  by unfold_locales (rule pool_step_ok)

end
