(* ===== verification/Pool_Properties.thy ===== *)
theory Pool_Properties
  imports Tx_Pool_Inv
begin

text \<open>
  The properties of the mempool, for the transactions the RPC layer submits. The only thing
  assumed about transaction hashes is that a hash determines the nonce of its transaction
  (\<open>nonce_of\<close>): two different transactions do not share a hash.
\<close>

section \<open>Transactions of the RPC layer\<close>

definition rpc_tx :: "(tx_hash \<Rightarrow> u64) \<Rightarrow> PoolTransaction \<Rightarrow> bool" where
  "rpc_tx nonce_of tx \<longleftrightarrow>
     (\<exists>order p c. tx = rpc_pool_transaction order p (nonce_of (pending_hash p)) c)"

fun rpc_op :: "(tx_hash \<Rightarrow> u64) \<Rightarrow> 'ch pool_op \<Rightarrow> bool" where
  "rpc_op nonce_of (OpAdd tx) \<longleftrightarrow> rpc_tx nonce_of tx"
| "rpc_op nonce_of _ \<longleftrightarrow> True"

text \<open>The rank of a hash is its nonce, the rank of a marker the nonce in it.\<close>

definition marker_nonce :: "tx_marker \<Rightarrow> u64" where
  "marker_nonce m = (THE n. \<exists>a. m = to_marker n a)"

abbreviation hash_rank :: "(tx_hash \<Rightarrow> u64) \<Rightarrow> tx_hash \<Rightarrow> nat" where
  "hash_rank nonce_of h \<equiv> unat (nonce_of h)"

abbreviation marker_rank :: "tx_marker \<Rightarrow> nat" where
  "marker_rank m \<equiv> unat (marker_nonce m)"

text \<open>The states the pool goes through.\<close>

definition reachable_pool ::
    "hash_orders \<Rightarrow> ('ch \<Rightarrow> tx_hash \<Rightarrow> 'ch \<times> send_result) \<Rightarrow> (tx_hash \<Rightarrow> u64) \<Rightarrow> 'ch Pool \<Rightarrow> bool" where
  "reachable_pool ho try_send nonce_of pool \<longleftrightarrow>
     hash_orders_ok ho \<and>
     (\<exists>ops. list_all (rpc_op nonce_of) ops \<and> run_ops (pool_step ho try_send) ops pool_empty = Some pool)"

lemma marker_nonce_to_marker [simp]: "marker_nonce (to_marker n a) = n"
  by (auto simp: marker_nonce_def to_marker_inject_iff)

lemma rpc_tx_ranked:
  assumes "rpc_tx nonce_of tx"
  shows "wf_pool_tx tx" "ranked (hash_rank nonce_of) marker_rank tx"
proof -
  from assms obtain order p c where tx: "tx = rpc_pool_transaction order p (nonce_of (pending_hash p)) c"
    by (auto simp: rpc_tx_def)
  then show "wf_pool_tx tx" by (simp add: rpc_tx_wf)
  show "ranked (hash_rank nonce_of) marker_rank tx"
    using required_marker_below [of _ "nonce_of (pending_hash p)" c "sender p"]
    by (fastforce simp: tx ranked_def rpc_pool_transaction_def tx_hash_of_def word_less_nat_alt)
qed

lemma rpc_op_admissible: "rpc_op nonce_of op \<Longrightarrow> admissible_op (hash_rank nonce_of) marker_rank op"
  by (cases op) (auto dest: rpc_tx_ranked)

lemma pool_inv_empty: "hash_orders_ok ho \<Longrightarrow> pool_inv ho rk mrk pool_empty"
  by (simp add: pool_inv_def pool_empty_def inner_inv_empty)

lemma rpc_ops_admissible:
  "list_all (rpc_op nonce_of) ops \<Longrightarrow> list_all (admissible_op (hash_rank nonce_of) marker_rank) ops"
  by (auto simp: list_all_iff rpc_op_admissible)

lemma reachable_pool_inv:
  assumes "reachable_pool ho try_send nonce_of pool"
  shows "pool_inv ho (hash_rank nonce_of) marker_rank pool"
proof -
  from assms obtain ops where ho: "hash_orders_ok ho" and ops: "list_all (rpc_op nonce_of) ops"
    and run: "run_ops (pool_step ho try_send) ops pool_empty = Some pool"
    by (auto simp: reachable_pool_def)
  show ?thesis
    by (rule pool_ops.run_reaches_inv [OF pool_inv_empty [OF ho] rpc_ops_admissible [OF ops] run])
qed

section \<open>Sample transactions\<close>

text \<open>Two transactions of one account, with nonces 0 and 1, and a cheaper copy of the first.\<close>

definition sample_tx :: "u128 \<Rightarrow> u64 \<Rightarrow> tx_hash \<Rightarrow> PoolTransaction" where
  "sample_tx price nonce h =
     rpc_pool_transaction Fees (sample_pending price nonce h) nonce 0"

definition sample_nonce :: "tx_hash \<Rightarrow> u64" where
  "sample_nonce h = (if h = 11 then 1 else 0)"

abbreviation always_sent :: "unit \<Rightarrow> tx_hash \<Rightarrow> unit \<times> send_result" where
  "always_sent ch h \<equiv> (ch, Sent)"

lemma sample_nonce_simps [simp]: "sample_nonce 10 = 0" "sample_nonce 11 = 1" "sample_nonce 12 = 0"
  by (simp_all add: sample_nonce_def)

lemma sample_rpc: "nonce = sample_nonce h \<Longrightarrow> rpc_tx sample_nonce (sample_tx price nonce h)"
  unfolding rpc_tx_def sample_tx_def
  by (intro exI [of _ Fees] exI [of _ "sample_pending price nonce h"]
      exI [of _ 0]) simp

lemmas sample_eval =
  sample_tx_def rpc_pool_transaction_def required_marker_def to_marker_inject_iff saturating_sub_def
  inner_add_transaction_def add_transaction_def pool_empty_def pool_inner_empty_def ready_empty_def pending_empty_def
  inner_contains_def pending_contains_def ready_contains_def PendingPoolTransaction_new_def is_ready_def
  add_ready_transaction_def ready_add_transaction_def replaced_transactions_def next_id_def
  provide_marks_def ReadyReport_new_def notify_listener_def tx_hash_of_def pending_add_transaction_def
  ascending_orders_def fset_of_list_simps tx_gas_price_def

definition sample_pool :: "unit Pool" where
  "sample_pool = the (run_ops (pool_step ascending_orders always_sent)
     [OpAdd (sample_tx 5 0 10), OpAdd (sample_tx 5 1 11)] pool_empty)"

lemma sample_reachable: "reachable_pool ascending_orders always_sent sample_nonce sample_pool"
proof -
  let ?ops = "[OpAdd (sample_tx 5 0 10), OpAdd (sample_tx 5 1 11)] :: unit pool_op list"
  have ops: "list_all (rpc_op sample_nonce) ?ops"
    by (simp add: sample_rpc)
  from pool_ops.run_inv [OF pool_inv_empty [OF ascending_orders_ok] rpc_ops_admissible [OF ops], of always_sent]
  have "run_ops (pool_step ascending_orders always_sent) ?ops pool_empty = Some sample_pool"
    unfolding sample_pool_def by (metis option.sel)
  with ops ascending_orders_ok show ?thesis unfolding reachable_pool_def by blast
qed

lemma sample_pool_ready:
  "ready_tx (ready_transactions (inner sample_pool)) =
     fmupd 11 \<lparr>rt_ref = \<lparr>ref_tx = sample_tx 5 1 11, ref_id = 1\<rparr>, unlocks = [], requires_offset = 0\<rparr>
       (fmupd 10 \<lparr>rt_ref = \<lparr>ref_tx = sample_tx 5 0 10, ref_id = 0\<rparr>, unlocks = [11], requires_offset = 0\<rparr> fmempty)"
  unfolding sample_pool_def
  by (simp add: sample_eval Let_def)

section \<open>Properties\<close>

lemma on_mined_block_ok:
  assumes "pool_inv ho rk mrk pool"
  shows "\<exists>res pool'. on_mined_block ho outcome pool = Some (res, pool') \<and>
           (\<forall>h. inner_contains (inner pool') h \<longrightarrow> inner_contains (inner pool) h) \<and>
           (\<forall>t \<in> set (invalid outcome). \<not> inner_contains (inner pool') (tx_hash_of t)) \<and>
           (\<forall>t \<in> set (included outcome). \<forall>rt. provides t \<noteq> [] \<longrightarrow>
              fmlookup (ready_tx (ready_transactions (inner pool))) (tx_hash_of t) = Some rt \<longrightarrow>
              rt_tx rt = t \<longrightarrow> \<not> inner_contains (inner pool') (tx_hash_of t))"
proof -
  from assms have ho: "hash_orders_ok ho" and inv: "inner_inv rk mrk [] (inner pool)"
    by (auto simp: pool_inv_def)
  obtain removed p1 where rm: "inner_remove_invalid ho (map tx_hash_of (invalid outcome)) (inner pool) = (removed, p1)"
    by fastforce
  note rm_ok = inner_remove_invalid_ok [OF ho inv rm]
  let ?ms = "concat (map provides (included outcome))"
  from inner_prune_markers_ok [OF ho, of rk mrk p1 ?ms] rm_ok obtain res p2 where
    pr: "inner_prune_markers ho ?ms p1 = Some (res, p2)"
    and less: "\<And>h. inner_contains p2 h \<Longrightarrow> inner_contains p1 h"
    and gone: "\<And>h r m. refs (ready_tx (ready_transactions p1)) h = Some r \<Longrightarrow> m \<in> set ?ms \<Longrightarrow>
                 m \<in> set (provides (ref_tx r)) \<Longrightarrow> \<not> inner_contains p2 h" by blast
  have "\<not> inner_contains p2 (tx_hash_of t)"
    if t: "t \<in> set (included outcome)" "provides t \<noteq> []"
      "fmlookup (ready_tx (ready_transactions (inner pool))) (tx_hash_of t) = Some rt" "rt_tx rt = t" for t rt
  proof
    assume c: "inner_contains p2 (tx_hash_of t)"
    have "fmlookup (waiting_queue (pending_transactions (inner pool))) (tx_hash_of t) = None"
      using t(3) inner_invD(5) [OF inv, of "tx_hash_of t"] by (metis not_None_eq)
    from inner_remove_invalid_ready [OF ho inv rm less [OF c] this] t(3)
    have "refs (ready_tx (ready_transactions p1)) (tx_hash_of t) = Some (rt_ref rt)"
      by (simp add: refs_def)
    moreover obtain m where "m \<in> set (provides t)" using t(2) by (cases "provides t") auto
    moreover from this t(1) have "m \<in> set ?ms" by auto
    ultimately show False using gone c t(4) by metis
  qed
  moreover have "\<not> inner_contains p2 (tx_hash_of t)" if "t \<in> set (invalid outcome)" for t
    using rm_ok less [of "tx_hash_of t"] that by auto
  moreover have "on_mined_block ho outcome pool = Some (res, pool\<lparr>inner := p2\<rparr>)"
    using rm pr by (simp add: on_mined_block_def remove_invalid_def prune_markers_def)
  ultimately show ?thesis using rm_ok less by (intro exI) auto
qed

text \<open>
  C3. Whatever sequence of methods the pool receives, with transactions built by the RPC layer and
  any hash iteration order: no method runs into an \<open>assert!\<close> or \<open>expect\<close>, every method returns,
  and the pool keeps its invariant (both queues consistent with their indexes, no transaction in
  both, no transaction waiting for a marker that is provided).
\<close>

theorem pool_never_panics:
  assumes "hash_orders_ok ho" and "list_all (rpc_op nonce_of) ops"
  shows "\<exists>pool. run_ops (pool_step ho try_send) ops pool_empty = Some pool \<and>
           pool_inv ho (hash_rank nonce_of) marker_rank pool"
  by (rule pool_ops.run_inv [OF pool_inv_empty [OF assms(1)] rpc_ops_admissible [OF assms(2)]])

theorem pool_never_panics_witness:
  "\<exists>pool. run_ops (pool_step ascending_orders always_sent)
      [OpAdd (sample_tx 5 1 11), OpAdd (sample_tx 5 0 10), OpDrop 10, OpRemoveByAddress 7, OpClear] pool_empty
      = Some pool \<and> pool_inv ascending_orders (hash_rank sample_nonce) marker_rank pool"
  by (rule pool_never_panics [OF ascending_orders_ok]) (simp add: sample_rpc)



text \<open>
  C14. After a block is mined its transactions are gone: \<open>Pool::on_mined_block\<close> returns, adds nothing,
  and neither the invalid transactions nor the included ones (that provide a marker and were in the
  ready queue) are in the pool afterwards.
\<close>

theorem on_mined_block_clears:
  assumes "reachable_pool ho try_send nonce_of pool"
  shows "\<exists>res pool'. on_mined_block ho outcome pool = Some (res, pool') \<and>
           (\<forall>h. inner_contains (inner pool') h \<longrightarrow> inner_contains (inner pool) h) \<and>
           (\<forall>t \<in> set (invalid outcome). \<not> inner_contains (inner pool') (tx_hash_of t)) \<and>
           (\<forall>t \<in> set (included outcome). \<forall>rt. provides t \<noteq> [] \<longrightarrow>
              fmlookup (ready_tx (ready_transactions (inner pool))) (tx_hash_of t) = Some rt \<longrightarrow>
              rt_tx rt = t \<longrightarrow> \<not> inner_contains (inner pool') (tx_hash_of t))"
  by (rule on_mined_block_ok [OF reachable_pool_inv [OF assms]])

theorem on_mined_block_clears_witness:
  "\<exists>res pool'. on_mined_block ascending_orders
       \<lparr>block_number = 1, included = [sample_tx 5 0 10], invalid = []\<rparr> sample_pool = Some (res, pool') \<and>
     \<not> inner_contains (inner pool') 10"
proof -
  let ?rt = "\<lparr>rt_ref = \<lparr>ref_tx = sample_tx 5 0 10, ref_id = 0\<rparr>, unlocks = [11], requires_offset = 0\<rparr>"
  have "tx_hash_of (sample_tx 5 0 10) = 10" "provides (sample_tx 5 0 10) \<noteq> []"
    by (simp_all add: sample_eval)
  then show ?thesis
    using on_mined_block_clears [OF sample_reachable,
        of "\<lparr>block_number = 1, included = [sample_tx 5 0 10], invalid = []\<rparr>"]
    by (fastforce simp: sample_pool_ready)
qed

text \<open>
  C15. Iterating over the ready transactions (what the miner puts into a block) comes to an end, yields
  only transactions of the ready queue, and yields a transaction with open dependencies only after a
  transaction that unlocks it. The first one yielded has the highest priority of the independent ones.
\<close>

theorem ready_transactions_in_order:
  fixes pool :: "'ch Pool"
  defines "R \<equiv> ready_transactions (inner pool)"
  assumes "reachable_pool ho try_send nonce_of pool"
  shows "\<exists>txs. iter_collect (get_transactions R) = Some txs \<and>
           unlock_order (ready_tx R) (ref_hashes (independent_transactions R)) txs \<and>
           (\<forall>s \<in> set (independent_transactions R). txs \<noteq> [] \<and> priority (ref_tx s) \<le> priority (hd txs))"
proof -
  from reachable_pool_inv [OF assms(2)] have inv: "inner_inv (hash_rank nonce_of) marker_rank [] (inner pool)"
    by (simp add: pool_inv_def)
  from get_transactions_returns [OF inv] obtain txs where
    txs: "iter_collect (get_transactions R) = Some txs"
      "unlock_order (ready_tx R) (ref_hashes (independent_transactions R)) txs" by (auto simp: R_def)
  have "txs \<noteq> [] \<and> priority (ref_tx s) \<le> priority (hd txs)" if s: "s \<in> set (independent_transactions R)" for s
  proof -
    have "independent_transactions R \<noteq> []" using s by auto
    from iter_next_first [OF inner_invD(2,3) [OF inv, folded R_def] this] obtain r it' where
      r: "iter_next (get_transactions R) = Some (ref_tx r, it')"
        "\<forall>s \<in> set (independent_transactions R). s = r \<or> ref_cmp s r = Less" by blast
    have "txs \<noteq> [] \<and> hd txs = ref_tx r"
      using txs(1) r(1) by (auto simp: iter_collect.simps [of "get_transactions R"] bind_eq_Some_conv)
    moreover have "priority (ref_tx s) \<le> priority (ref_tx r)"
      using r(2) s by (auto simp: ref_cmp_iff)
    ultimately show ?thesis by simp
  qed
  with txs show ?thesis by blast
qed

theorem ready_transactions_in_order_witness:
  "\<exists>txs. iter_collect (get_transactions (ready_transactions (inner sample_pool))) = Some txs \<and>
     unlock_order (ready_tx (ready_transactions (inner sample_pool)))
       (ref_hashes (independent_transactions (ready_transactions (inner sample_pool)))) txs"
  using ready_transactions_in_order [OF sample_reachable] by blast

text \<open>
  C16. \<open>remove_with_markers\<close> takes out exactly the transactions it is asked for and, transitively, those
  unlocked by a transaction that loses a marker outside the filter. Every other entry stays as it is,
  with its unlock list: a removed transaction is never taken out of the unlock list of the transaction
  it depends on, which is what the loop over \<open>requires\<close> is there for.
\<close>

theorem removal_takes_dependents:
  assumes "reachable_pool ho try_send nonce_of pool"
  shows "fmlookup (ready_tx (snd (remove_with_markers hs f (ready_transactions (inner pool))))) k =
           (if reached f (ready_tx (ready_transactions (inner pool))) (set hs) k then None
            else fmlookup (ready_tx (ready_transactions (inner pool))) k)"
proof -
  have "links_up (hash_rank nonce_of) (ready_tx (ready_transactions (inner pool)))"
    using reachable_pool_inv [OF assms] inner_invD(3) by (auto simp: pool_inv_def ready_ranked_def)
  from remove_loop_ready [OF this, of f "rev hs" k] show ?thesis
    by (simp add: remove_with_markers_def)
qed

theorem removal_takes_dependents_witness:
  "map_option unlocks (fmlookup (ready_tx (ready_transactions (inner (snd (drop_transaction 11 sample_pool))))) 10)
     = Some [11]"
proof -
  let ?ready = "ready_tx (ready_transactions (inner sample_pool))"
  have "k = 11" if "reached None ?ready {11} k" for k
    using that by induction (auto simp: sample_pool_ready split: if_splits)
  from this [of 10] have "\<not> reached None ?ready (set [11]) 10" by auto
  then show ?thesis
    using removal_takes_dependents [OF sample_reachable, of "[11]" None 10]
    by (auto simp: drop_transaction_def sample_pool_ready split: prod.splits)
qed

text \<open>
  \<open>notify_listener\<close> never indexes out of bounds and sends the hash to every listener exactly once;
  exactly the listeners whose channel is closed are dropped.
\<close>

theorem notify_listener_once:
  "\<exists>ls'. notify_listener try_send hash ls = Some ls' \<and>
     mset ls' = mset (map fst (filter (\<lambda>(ch, res). res \<noteq> Disconnected) (map (\<lambda>l. try_send l hash) ls)))"
  using notify_listener_ok [of try_send hash ls] by (simp add: retained_def)

text \<open>
  \<open>PendingTransactions::mark_and_unlock\<close> returns, without repetition, exactly the waiting
  transactions whose missing markers are all among the given ones; the others stay queued with
  those markers checked off, and nobody waits for the given markers any more.
\<close>

theorem mark_and_unlock_exact:
  fixes pool :: "'ch Pool"
  defines "P \<equiv> pending_transactions (inner pool)"
  assumes "reachable_pool ho try_send nonce_of pool"
  shows "\<exists>txs P'. mark_and_unlock ho ms P = Some (txs, P') \<and>
           distinct (map (tx_hash_of \<circ> pool_tx) txs) \<and>
           set txs = {check_off ms tx |h tx. fmlookup (waiting_queue P) h = Some tx \<and> is_ready (check_off ms tx)} \<and>
           (\<forall>h. fmlookup (waiting_queue P') h =
              Option.bind (fmlookup (waiting_queue P) h)
                (\<lambda>tx. if is_ready (check_off ms tx) then None else Some (check_off ms tx))) \<and>
           (\<forall>m \<in> set ms. fmlookup (required_markers P') m = None)"
proof -
  have "pending_inv P" "hash_orders_ok ho"
    using reachable_pool_inv [OF assms(2)] inner_invD(1) by (auto simp: pool_inv_def P_def)
  from mark_and_unlock_spec [OF this, of ms] show ?thesis
    by (fastforce simp: unlocked_def queue_after_def keep_waiting_def)
qed

definition waiting_pool :: "unit Pool" where
  "waiting_pool = the (run_ops (pool_step ascending_orders always_sent) [OpAdd (sample_tx 5 1 11)] pool_empty)"

lemma waiting_reachable: "reachable_pool ascending_orders always_sent sample_nonce waiting_pool"
proof -
  let ?ops = "[OpAdd (sample_tx 5 1 11)] :: unit pool_op list"
  have ops: "list_all (rpc_op sample_nonce) ?ops" by (simp add: sample_rpc)
  from pool_ops.run_inv [OF pool_inv_empty [OF ascending_orders_ok] rpc_ops_admissible [OF ops], of always_sent]
  have "run_ops (pool_step ascending_orders always_sent) ?ops pool_empty = Some waiting_pool"
    unfolding waiting_pool_def by (metis option.sel)
  with ops ascending_orders_ok show ?thesis unfolding reachable_pool_def by blast
qed

lemma waiting_pool_queue:
  "waiting_queue (pending_transactions (inner waiting_pool)) =
     fmupd 11 \<lparr>pool_tx = sample_tx 5 1 11, missing_markers = {|to_marker 0 7|}\<rparr> fmempty"
  unfolding waiting_pool_def by (simp add: sample_eval Let_def)

theorem mark_and_unlock_exact_witness:
  "\<exists>txs P'. mark_and_unlock ascending_orders [to_marker 0 7] (pending_transactions (inner waiting_pool)) = Some (txs, P') \<and>
     set txs = {\<lparr>pool_tx = sample_tx 5 1 11, missing_markers = {||}\<rparr>} \<and> fmlookup (waiting_queue P') 11 = None"
proof -
  have "is_ready (check_off [to_marker 0 7] \<lparr>pool_tx = sample_tx 5 1 11, missing_markers = {|to_marker 0 7|}\<rparr>)"
    "check_off [to_marker 0 7] \<lparr>pool_tx = sample_tx 5 1 11, missing_markers = {|to_marker 0 7|}\<rparr> =
       \<lparr>pool_tx = sample_tx 5 1 11, missing_markers = {||}\<rparr>"
    by (simp_all add: check_off_def is_ready_def)
  with mark_and_unlock_exact [OF waiting_reachable, of "[to_marker 0 7]"] show ?thesis
    unfolding waiting_pool_queue by (force split: if_splits)
qed

lemma outbid_unique:
  assumes inv: "ready_inv R" and r: "refs (ready_tx R) h = Some r" "provides (ref_tx r) = provides tx"
    and "provides tx \<noteq> []"
  shows "outbid tx R \<longleftrightarrow> tx_gas_price tx \<le> tx_gas_price (ref_tx r)"
proof
  assume "outbid tx R"
  then obtain h' r' where r': "refs (ready_tx R) h' = Some r'" "provides (ref_tx r') = provides tx"
    "tx_gas_price tx \<le> tx_gas_price (ref_tx r')" by (auto simp: outbid_def)
  obtain m where m: "m \<in> set (provides tx)" using assms(4) by (cases "provides tx") auto
  note D = ready_inv_exceptD(3) [OF inv [unfolded ready_inv_def]]
  have "h' = h" using D [OF r(1), of m] D [OF r'(1), of m] r(2) r'(2) m by simp
  with r r' show "tx_gas_price tx \<le> tx_gas_price (ref_tx r)" by simp
qed (use r in \<open>auto simp: outbid_def\<close>)

lemma outbid_refused:
  assumes inv: "ready_inv R" and ho: "hash_orders_ok ho" and "provides tx \<noteq> []" and out: "outbid tx R"
  shows "replaced_transactions ho tx R = (R, Inl (ReplacementUnderpriced tx))"
proof -
  let ?hs = "fset_of_list (filter_map (fmlookup (provided_markers R)) (provides tx))"
  have hs: "fset ?hs = providers (provides tx) R"
    by (simp add: fset_of_list.rep_eq remove_hashes_providers [OF inv])
  from out obtain h rt where rt: "fmlookup (ready_tx R) h = Some rt" "provides (rt_tx rt) = provides tx"
    "tx_gas_price tx \<le> tx_gas_price (rt_tx rt)" by (auto simp: outbid_def refs_def)
  then have "h \<in> providers (provides tx) R"
    using assms(3) by (auto simp: providers_def refs_def)
  then have h: "h |\<in>| ?hs" using hs by simp
  then have "rt \<in> set (filter_map (fmlookup (ready_tx R)) (hash_order ho ?hs))"
    using rt(1) by (auto simp: set_filter_map hash_orders_okD [OF ho])
  then have "replaced_unlocks tx (filter_map (fmlookup (ready_tx R)) (hash_order ho ?hs)) = None"
    using rt unfolding replaced_unlocks_None by blast
  moreover have "?hs \<noteq> {||}" using h by auto
  ultimately show ?thesis by (simp add: replaced_transactions_def Let_def)
qed

text \<open>
  Replacing a transaction of the ready queue by one with the same markers takes a strictly higher
  gas price: with a price that is not higher the submission is refused and the pool is unchanged, with
  a higher one it is not refused as underpriced.
\<close>

theorem replacement_needs_higher_price:
  fixes pool :: "'ch Pool"
  defines "R \<equiv> ready_transactions (inner pool)"
  assumes "reachable_pool ho try_send nonce_of pool" and "rpc_tx nonce_of tx"
    and "\<not> inner_contains (inner pool) (tx_hash_of tx)"
    and "\<forall>m \<in> set (requires tx). fmlookup (provided_markers R) m \<noteq> None"
    and "fmlookup (ready_tx R) h = Some rt" and "provides (rt_tx rt) = provides tx"
  shows "(\<exists>pool'. add_transaction ho try_send tx pool = Some (pool', Inl (ReplacementUnderpriced tx)))
           \<longleftrightarrow> tx_gas_price tx \<le> tx_gas_price (rt_tx rt)"
proof -
  from reachable_pool_inv [OF assms(2)] have inv: "inner_inv (hash_rank nonce_of) marker_rank [] (inner pool)"
    and ho: "hash_orders_ok ho" by (auto simp: pool_inv_def)
  let ?x = "PendingPoolTransaction_new tx (provided_markers R)"
  have x: "is_ready ?x" "pool_tx ?x = tx"
    using assms(5) by (auto simp: PendingPoolTransaction_new_def is_ready_def fset_of_list_elem)
  have line: "inner_inv (hash_rank nonce_of) marker_rank [?x] (inner pool)"
    using inv x rpc_tx_ranked [OF assms(3)] assms(4) by (simp add: inner_inv_def awaits_import_def)
  have r: "refs (ready_tx R) h = Some (rt_ref rt)" using assms(6) by (simp add: refs_def)
  have ne: "provides tx \<noteq> []" using assms(3) by (auto simp: rpc_tx_def rpc_pool_transaction_def)
  have outbid: "outbid tx R \<longleftrightarrow> tx_gas_price tx \<le> tx_gas_price (rt_tx rt)"
    using outbid_unique [OF inner_invD(2) [OF inv, folded R_def] r assms(7) ne] .
  from add_ready_transaction_ok [OF line ho] obtain p' res where
    add: "add_ready_transaction ho ?x (inner pool) = Some (p', res)" "ready_outcome tx (inner pool) p' res"
    unfolding x(2) by blast
  have res: "res = Inl (ReplacementUnderpriced tx) \<longleftrightarrow> outbid tx R"
  proof
    assume out: "outbid tx R"
    from mark_and_unlock_effect [OF inner_invD(1) [OF inv] ho] obtain us P' where
      "mark_and_unlock ho (provides tx) (pending_transactions (inner pool)) = Some (us, P')" by blast
    moreover have "ready_add_transaction ho ?x R = Some (R, Inl (ReplacementUnderpriced tx))"
      using outbid_refused [OF inner_invD(2) [OF inv, folded R_def] ho ne out] x assms(4)
      by (auto simp: ready_add_transaction_def Let_def inner_contains_def ready_contains_def R_def)
    ultimately show "res = Inl (ReplacementUnderpriced tx)"
      using add(1) x(2) by (simp add: add_ready_transaction_def Let_def flip: R_def)
  qed (use add(2) in \<open>auto simp: ready_outcome_def R_def\<close>)
  have "inner_add_transaction ho tx (inner pool) = Some (p', res)"
    using add(1) assms(4) x(1) by (simp add: inner_add_transaction_def Let_def flip: R_def)
  then have "(\<exists>pool'. add_transaction ho try_send tx pool = Some (pool', Inl (ReplacementUnderpriced tx))) \<longleftrightarrow>
      res = Inl (ReplacementUnderpriced tx)"
    by (auto simp: add_transaction_def split: sum.splits AddedTransaction.splits)
  with res outbid show ?thesis by simp
qed

theorem replacement_needs_higher_price_witness:
  "\<exists>pool'. add_transaction ascending_orders always_sent (sample_tx 5 0 12) sample_pool =
     Some (pool', Inl (ReplacementUnderpriced (sample_tx 5 0 12)))"
proof -
  have "\<not> inner_contains (inner sample_pool) (tx_hash_of (sample_tx 5 0 12))"
    unfolding sample_pool_def by (simp add: sample_eval Let_def)
  moreover have "\<forall>m \<in> set (requires (sample_tx 5 0 12)).
      fmlookup (provided_markers (ready_transactions (inner sample_pool))) m \<noteq> None"
    by (simp add: sample_eval)
  moreover have "fmlookup (ready_tx (ready_transactions (inner sample_pool))) 10 =
      Some \<lparr>rt_ref = \<lparr>ref_tx = sample_tx 5 0 10, ref_id = 0\<rparr>, unlocks = [11], requires_offset = 0\<rparr>"
    by (simp add: sample_pool_ready)
  ultimately show ?thesis
    using replacement_needs_higher_price [OF sample_reachable, of "sample_tx 5 0 12" 10]
    by (simp add: sample_rpc) (simp add: sample_eval)
qed

end
