(* ===== verification/Miner.thy ===== *)
theory Miner
  imports Pool_Properties
begin

text \<open>
  The miner of anvil/src/eth/miner.rs: the mining modes and what a poll hands over to the block
  builder. The notification stream (futures channel, \<open>'rx\<close>) and the interval timer (tokio,
  \<open>'iv\<close>) are parameters: \<open>poll_next\<close> and \<open>poll_tick\<close> give the result of one poll and the new
  state of the object. The waker is not represented: it only decides when the next poll happens.
\<close>

section \<open>State\<close>

datatype 'a poll = PollPending | PollReady 'a

record 'rx ReadyTransactionMiner =
  max_transactions :: nat
  has_pending_txs :: "bool option"
  rx :: 'rx

datatype ('rx, 'iv) MiningMode =
    MiningNone
  | Auto "'rx ReadyTransactionMiner"
  | FixedBlockTime 'iv
  | Mixed "'rx ReadyTransactionMiner" 'iv

record ('rx, 'iv) Miner =
  mode :: "('rx, 'iv) MiningMode"
  force_transactions :: "PoolTransaction list option"

text \<open>The external streams.\<close>

record ('rx, 'iv) streams =
  poll_next :: "'rx \<Rightarrow> tx_hash option poll \<times> 'rx"
  poll_tick :: "'iv \<Rightarrow> bool \<times> 'iv"

section \<open>Operations\<close>

definition mining_instant :: "nat \<Rightarrow> 'rx \<Rightarrow> ('rx, 'iv) MiningMode" where
  "mining_instant n listener = Auto \<lparr>max_transactions = n, has_pending_txs = None, rx = listener\<rparr>"

definition mining_mixed :: "nat \<Rightarrow> 'rx \<Rightarrow> 'iv \<Rightarrow> ('rx, 'iv) MiningMode" where
  "mining_mixed n listener interval =
     Mixed \<lparr>max_transactions = n, has_pending_txs = None, rx = listener\<rparr> interval"

definition Miner_new :: "('rx, 'iv) MiningMode \<Rightarrow> ('rx, 'iv) Miner" where
  "Miner_new m = \<lparr>mode = m, force_transactions = None\<rparr>"

definition with_forced_transactions ::
    "PoolTransaction list option \<Rightarrow> ('rx, 'iv) Miner \<Rightarrow> ('rx, 'iv) Miner" where
  "with_forced_transactions txs miner = miner\<lparr>force_transactions := txs\<rparr>"

definition is_auto_mine :: "('rx, 'iv) Miner \<Rightarrow> bool" where
  "is_auto_mine miner \<longleftrightarrow> (case mode miner of Auto _ \<Rightarrow> True | _ \<Rightarrow> False)"

definition set_mining_mode :: "('rx, 'iv) MiningMode \<Rightarrow> ('rx, 'iv) Miner \<Rightarrow> ('rx, 'iv) Miner" where
  "set_mining_mode m miner = miner\<lparr>mode := m\<rparr>"

text \<open>
  The loop that drains the notification stream; \<open>None\<close> if the stream never runs dry.
\<close>

partial_function (option) drain_rx ::
    "('rx \<Rightarrow> tx_hash option poll \<times> 'rx) \<Rightarrow> bool option \<Rightarrow> 'rx \<Rightarrow> (bool option \<times> 'rx) option" where
  "drain_rx next_fn flag r =
     (case next_fn r of
        (PollReady (Some h), r') \<Rightarrow> drain_rx next_fn (Some True) r'
      | (_, r') \<Rightarrow> Some (flag, r'))"

definition ready_miner_poll ::
    "('rx, 'iv) streams \<Rightarrow> PoolInner \<Rightarrow> 'rx ReadyTransactionMiner
       \<Rightarrow> (PoolTransaction list poll \<times> 'rx ReadyTransactionMiner) option" where
  "ready_miner_poll st pool miner =
     (case drain_rx (poll_next st) (has_pending_txs miner) (rx miner) of
        None \<Rightarrow> None
      | Some (flag, r) \<Rightarrow>
          (if flag = Some False
           then Some (PollPending, miner\<lparr>has_pending_txs := flag, rx := r\<rparr>)
           else
             (let transactions = iter_take (max_transactions miner) (get_transactions (ready_transactions pool));
                  miner' = miner\<lparr>has_pending_txs := Some (max_transactions miner \<le> length transactions), rx := r\<rparr>
              in if transactions = [] then Some (PollPending, miner')
                 else Some (PollReady transactions, miner'))))"

definition fixed_miner_poll ::
    "('rx, 'iv) streams \<Rightarrow> PoolInner \<Rightarrow> 'iv \<Rightarrow> (PoolTransaction list poll \<times> 'iv) option" where
  "fixed_miner_poll st pool interval =
     (case poll_tick st interval of
        (True, interval') \<Rightarrow>
          map_option (\<lambda>txs. (PollReady txs, interval'))
            (iter_collect (get_transactions (ready_transactions pool)))
      | (False, interval') \<Rightarrow> Some (PollPending, interval'))"

text \<open>The loop that adds the transactions of the interval miner that are not there yet.\<close>

fun merge_txs :: "PoolTransaction list \<Rightarrow> PoolTransaction list \<Rightarrow> PoolTransaction list" where
  "merge_txs auto_txs [] = auto_txs"
| "merge_txs auto_txs (tx # fixed_txs) =
     (if \<exists>a \<in> set auto_txs. tx_hash_of a = tx_hash_of tx then merge_txs auto_txs fixed_txs
      else merge_txs (auto_txs @ [tx]) fixed_txs)"

fun merge_polls :: "PoolTransaction list poll \<Rightarrow> PoolTransaction list poll \<Rightarrow> PoolTransaction list poll" where
  "merge_polls (PollReady auto_txs) (PollReady fixed_txs) = PollReady (merge_txs auto_txs fixed_txs)"
| "merge_polls (PollReady auto_txs) PollPending = PollReady auto_txs"
| "merge_polls PollPending fixed_txs = fixed_txs"

fun mode_poll ::
    "('rx, 'iv) streams \<Rightarrow> PoolInner \<Rightarrow> ('rx, 'iv) MiningMode
       \<Rightarrow> (PoolTransaction list poll \<times> ('rx, 'iv) MiningMode) option" where
  "mode_poll st pool MiningNone = Some (PollPending, MiningNone)"
| "mode_poll st pool (Auto miner) = map_option (\<lambda>(r, m). (r, Auto m)) (ready_miner_poll st pool miner)"
| "mode_poll st pool (FixedBlockTime interval) =
     map_option (\<lambda>(r, i). (r, FixedBlockTime i)) (fixed_miner_poll st pool interval)"
| "mode_poll st pool (Mixed auto fixed) =
     (case ready_miner_poll st pool auto of
        None \<Rightarrow> None
      | Some (auto_txs, auto') \<Rightarrow>
          (case fixed_miner_poll st pool fixed of
             None \<Rightarrow> None
           | Some (fixed_txs, fixed') \<Rightarrow> Some (merge_polls auto_txs fixed_txs, Mixed auto' fixed')))"

definition miner_poll ::
    "('rx, 'iv) streams \<Rightarrow> PoolInner \<Rightarrow> ('rx, 'iv) Miner
       \<Rightarrow> (PoolTransaction list poll \<times> ('rx, 'iv) Miner) option" where
  "miner_poll st pool miner =
     map_option
       (\<lambda>(res, mode').
          (case res of
             PollPending \<Rightarrow> (PollPending, miner\<lparr>mode := mode'\<rparr>)
           | PollReady next_txs \<Rightarrow>
               (case force_transactions miner of
                  Some transactions \<Rightarrow>
                    (PollReady (transactions @ next_txs), \<lparr>mode = mode', force_transactions = None\<rparr>)
                | None \<Rightarrow> (PollReady next_txs, miner\<lparr>mode := mode'\<rparr>))))
       (mode_poll st pool (mode miner))"

section \<open>Draining the notifications\<close>

text \<open>\<open>delivers next_fn r hs r'\<close>: polling \<open>r\<close> gives the hashes \<open>hs\<close> and then nothing more.\<close>

inductive delivers :: "('rx \<Rightarrow> tx_hash option poll \<times> 'rx) \<Rightarrow> 'rx \<Rightarrow> tx_hash list \<Rightarrow> 'rx \<Rightarrow> bool"
  for next_fn where
  dry: "next_fn r = (p, r') \<Longrightarrow> \<forall>h. p \<noteq> PollReady (Some h) \<Longrightarrow> delivers next_fn r [] r'"
| more: "next_fn r = (PollReady (Some h), r') \<Longrightarrow> delivers next_fn r' hs r'' \<Longrightarrow> delivers next_fn r (h # hs) r''"

lemma drain_rx_delivers:
  "delivers next_fn r hs r' \<Longrightarrow> drain_rx next_fn flag r = Some (if hs = [] then flag else Some True, r')"
proof (induction arbitrary: flag rule: delivers.induct)
  case (dry r p r')
  then show ?case by (cases p) (auto simp: drain_rx.simps [of next_fn flag r] split: option.split)
next
  case (more r h r' hs r'')
  then show ?case by (simp add: drain_rx.simps [of next_fn flag r])
qed

lemma length_iter_take: "length (iter_take n it) \<le> n"
  by (induction n it rule: iter_take.induct) (auto split: option.splits)

lemma iter_take_prefix:
  "iter_collect it = Some txs \<Longrightarrow> iter_take n it = take n txs"
proof (induction n arbitrary: it txs)
  case (Suc n)
  show ?case
  proof (cases "iter_next it")
    case None
    with Suc.prems show ?thesis by (simp add: iter_collect.simps [of it])
  next
    case (Some p)
    with Suc.prems obtain tx it' rest where "p = (tx, it')" "iter_collect it' = Some rest" "txs = tx # rest"
      by (cases p) (auto simp: iter_collect.simps [of it] bind_eq_Some_conv)
    with Suc.IH Some show ?thesis by simp
  qed
qed simp

lemma merge_txs_props:
  assumes "distinct (map tx_hash_of auto)"
  shows "distinct (map tx_hash_of (merge_txs auto fixed)) \<and>
         tx_hash_of ` set (merge_txs auto fixed) = tx_hash_of ` set auto \<union> tx_hash_of ` set fixed \<and>
         (\<exists>rest. merge_txs auto fixed = auto @ rest \<and> set rest \<subseteq> set fixed)"
  using assms
proof (induction auto fixed rule: merge_txs.induct)
  case (2 auto tx fixed)
  show ?case
  proof (cases "\<exists>a \<in> set auto. tx_hash_of a = tx_hash_of tx")
    case True
    then have "tx_hash_of tx \<in> tx_hash_of ` set auto" by (metis imageI)
    with True 2 show ?thesis by auto
  next
    case False
    then have "distinct (map tx_hash_of (auto @ [tx]))" using "2.prems" by (auto simp: image_iff)
    from "2.IH"(2) [OF False this] False show ?thesis by auto
  qed
qed simp

section \<open>Properties\<close>

text \<open>
  C17. A poll of the instant miner, when \<open>hs\<close> are the notifications that have arrived and the iterator
  over the ready transactions gives \<open>txs\<close>: it hands over the first \<open>max_transactions\<close> of them unless it
  knows that nothing is waiting and nothing arrived, and it remembers that something may be
  left exactly when the block is full.
\<close>

theorem ready_miner_poll_spec:
  assumes "delivers (poll_next st) (rx miner) hs r'"
    and "iter_collect (get_transactions (ready_transactions pool)) = Some txs"
  shows "ready_miner_poll st pool miner =
           (if hs = [] \<and> has_pending_txs miner = Some False
            then Some (PollPending, miner\<lparr>rx := r'\<rparr>)
            else Some (if take (max_transactions miner) txs = [] then PollPending
                       else PollReady (take (max_transactions miner) txs),
                       miner\<lparr>has_pending_txs := Some (max_transactions miner \<le> length txs), rx := r'\<rparr>))"
proof -
  have "max_transactions miner \<le> min (length txs) (max_transactions miner) \<longleftrightarrow> max_transactions miner \<le> length txs"
    by simp
  then show ?thesis
    using drain_rx_delivers [OF assms(1), of "has_pending_txs miner"] iter_take_prefix [OF assms(2)]
    by (cases miner) (auto simp: ready_miner_poll_def Let_def)
qed

text \<open>A receiver that holds a queue of hashes, for the witnesses.\<close>

definition queue_streams :: "(tx_hash list, nat) streams" where
  "queue_streams =
     \<lparr>poll_next = (\<lambda>q. case q of [] \<Rightarrow> (PollPending, []) | h # q' \<Rightarrow> (PollReady (Some h), q')),
      poll_tick = (\<lambda>n. (n = 0, n - 1))\<rparr>"

lemma queue_delivers: "delivers (poll_next queue_streams) q q []"
  by (induction q) (auto simp: queue_streams_def intro: delivers.intros)

theorem ready_miner_poll_spec_witness:
  "ready_miner_poll queue_streams pool_inner_empty \<lparr>max_transactions = 2, has_pending_txs = Some False, rx = [5]\<rparr> =
     Some (PollPending, \<lparr>max_transactions = 2, has_pending_txs = Some False, rx = []\<rparr>)"
proof -
  have "iter_collect (get_transactions (ready_transactions pool_inner_empty)) = Some []"
    by (simp add: iter_collect.simps iter_next.simps get_transactions_def pool_inner_empty_def ready_empty_def)
  from ready_miner_poll_spec [OF queue_delivers this, of "\<lparr>max_transactions = 2, has_pending_txs = Some False, rx = [5]\<rparr>"]
  show ?thesis by simp
qed

text \<open>
  In mixed mode, when both miners are ready, the block has the transactions of the instant miner
  first and then those of the interval miner, each hash once.
\<close>

theorem mixed_mode_merges:
  assumes "distinct (map tx_hash_of auto_txs)"
    and "ready_miner_poll st pool auto = Some (PollReady auto_txs, auto')"
    and "fixed_miner_poll st pool fixed = Some (PollReady fixed_txs, fixed')"
  shows "\<exists>rest. mode_poll st pool (Mixed auto fixed) = Some (PollReady (auto_txs @ rest), Mixed auto' fixed') \<and>
           distinct (map tx_hash_of (auto_txs @ rest)) \<and> set rest \<subseteq> set fixed_txs \<and>
           tx_hash_of ` set (auto_txs @ rest) = tx_hash_of ` set auto_txs \<union> tx_hash_of ` set fixed_txs"
proof -
  obtain rest where "merge_txs auto_txs fixed_txs = auto_txs @ rest" "set rest \<subseteq> set fixed_txs"
    using merge_txs_props [OF assms(1)] by blast
  with merge_txs_props [OF assms(1), of fixed_txs] assms(2,3) show ?thesis by auto
qed

lemma sample_collect:
  "iter_collect (get_transactions (ready_transactions (inner sample_pool))) =
     Some [sample_tx 5 0 10, sample_tx 5 1 11]"
proof -
  have ind: "independent_transactions (ready_transactions (inner sample_pool)) =
      [\<lparr>ref_tx = sample_tx 5 0 10, ref_id = 0\<rparr>]"
    unfolding sample_pool_def by (simp add: sample_eval Let_def)
  have req: "length (requires (sample_tx 5 1 11)) = 1" "tx_hash_of (sample_tx 5 0 10) = 10"
    "tx_hash_of (sample_tx 5 1 11) = 11"
    by (simp_all add: sample_eval)
  show ?thesis
    by (simp add: iter_collect.simps iter_next.simps get_transactions_def sample_pool_ready ind Let_def
        btree_remove_def req independent_or_awaiting_def)
qed

theorem mixed_mode_merges_witness:
  "\<exists>rest. mode_poll queue_streams (inner sample_pool)
       (Mixed \<lparr>max_transactions = 1, has_pending_txs = None, rx = [10]\<rparr> 0) =
       Some (PollReady ([sample_tx 5 0 10] @ rest),
         Mixed \<lparr>max_transactions = 1, has_pending_txs = Some True, rx = []\<rparr> 0) \<and>
     distinct (map tx_hash_of ([sample_tx 5 0 10] @ rest)) \<and> set rest \<subseteq> {sample_tx 5 0 10, sample_tx 5 1 11}"
proof -
  have "fixed_miner_poll queue_streams (inner sample_pool) 0 =
      Some (PollReady [sample_tx 5 0 10, sample_tx 5 1 11], 0)"
    by (simp add: fixed_miner_poll_def queue_streams_def sample_collect)
  moreover have "ready_miner_poll queue_streams (inner sample_pool)
       \<lparr>max_transactions = 1, has_pending_txs = None, rx = [10]\<rparr> =
      Some (PollReady [sample_tx 5 0 10], \<lparr>max_transactions = 1, has_pending_txs = Some True, rx = []\<rparr>)"
    using drain_rx_delivers [OF queue_delivers, of None "[10]"] iter_take_prefix [OF sample_collect, of 1]
    by (simp add: ready_miner_poll_def)
  ultimately show ?thesis
    using mixed_mode_merges [of "[sample_tx 5 0 10]" queue_streams "inner sample_pool"] by fastforce
qed

end
