(* ===== verification/Time_Manager.thy ===== *)
theory Time_Manager
  imports Prelude
begin

text \<open>
  The block clock of anvil: \<open>TimeManager\<close> of anvil/src/eth/backend/time.rs. The wall clock
  (\<open>duration_since_unix_epoch().as_secs()\<close>) is the argument \<open>now\<close> of the operations that read it.
  An \<open>i128\<close> is an integer; the only operation on it that can leave the range saturates. Unchecked
  additions on \<open>u64\<close> wrap, as in the release profile.
\<close>

section \<open>State and operations\<close>

record TimeManager =
  offset :: int
  last_timestamp :: u64
  next_exact_timestamp :: "u64 option"
  interval :: "u64 option"

definition time_reset :: "u64 \<Rightarrow> u64 \<Rightarrow> TimeManager \<Rightarrow> TimeManager" where
  "time_reset now start_timestamp tm =
     tm\<lparr>last_timestamp := start_timestamp,
        offset := uint start_timestamp - uint now,
        next_exact_timestamp := None\<rparr>"

definition TimeManager_new :: "u64 \<Rightarrow> u64 \<Rightarrow> TimeManager" where
  "TimeManager_new now start_timestamp =
     time_reset now start_timestamp
       \<lparr>offset = 0, last_timestamp = 0, next_exact_timestamp = None, interval = None\<rparr>"

definition add_offset :: "int \<Rightarrow> TimeManager \<Rightarrow> int \<times> TimeManager" where
  "add_offset off tm = (let next_off = sat_i128 (offset tm + off) in (next_off, tm\<lparr>offset := next_off\<rparr>))"

definition increase_time :: "u64 \<Rightarrow> TimeManager \<Rightarrow> int \<times> TimeManager" where
  "increase_time seconds tm = add_offset (uint seconds) tm"

text \<open>\<open>None\<close> is the \<open>TimestampError\<close>.\<close>

definition set_next_block_timestamp :: "u64 \<Rightarrow> TimeManager \<Rightarrow> TimeManager option" where
  "set_next_block_timestamp timestamp tm =
     (if timestamp < last_timestamp tm then None
      else Some (tm\<lparr>next_exact_timestamp := Some timestamp\<rparr>))"

definition set_block_timestamp_interval :: "u64 \<Rightarrow> TimeManager \<Rightarrow> TimeManager" where
  "set_block_timestamp_interval i tm = tm\<lparr>interval := Some i\<rparr>"

definition remove_block_timestamp_interval :: "TimeManager \<Rightarrow> bool \<times> TimeManager" where
  "remove_block_timestamp_interval tm = (interval tm \<noteq> None, tm\<lparr>interval := None\<rparr>)"

definition compute_next_timestamp :: "u64 \<Rightarrow> TimeManager \<Rightarrow> u64 \<times> int option" where
  "compute_next_timestamp now tm =
     (let current = uint now;
          (next_ts, update_offset) =
            (case next_exact_timestamp tm of
               Some t \<Rightarrow> (t, True)
             | None \<Rightarrow>
                 (case interval tm of
                    Some i \<Rightarrow> (saturating_add (last_timestamp tm) i, False)
                  | None \<Rightarrow> (word_of_int (sat_i128 (current + offset tm)), False)));
          next_ts' = (if next_ts < last_timestamp tm then last_timestamp tm + 1 else next_ts)
      in (next_ts', if update_offset then Some (uint next_ts' - current) else None))"

definition next_timestamp :: "u64 \<Rightarrow> TimeManager \<Rightarrow> u64 \<times> TimeManager" where
  "next_timestamp now tm =
     (let (next_ts, next_offset) = compute_next_timestamp now tm
      in (next_ts,
          tm\<lparr>next_exact_timestamp := None,
             offset := (case next_offset of Some off \<Rightarrow> off | None \<Rightarrow> offset tm),
             last_timestamp := next_ts\<rparr>))"

definition current_call_timestamp :: "u64 \<Rightarrow> TimeManager \<Rightarrow> u64" where
  "current_call_timestamp now tm = fst (compute_next_timestamp now tm)"

text \<open>
  The clock under the RPC calls that steer it and the blocks that read it; the second component
  lists the timestamps of the blocks, newest first. A refused \<open>set_next_block_timestamp\<close> changes
  nothing.
\<close>

datatype time_op =
    TimeIncrease u64
  | TimeSetNext u64
  | TimeSetInterval u64
  | TimeRemoveInterval
  | TimeBlock u64

fun time_step :: "time_op \<Rightarrow> TimeManager \<times> u64 list \<Rightarrow> (TimeManager \<times> u64 list) option" where
  "time_step (TimeIncrease s) (tm, log) = Some (snd (increase_time s tm), log)"
| "time_step (TimeSetNext t) (tm, log) =
     Some (case set_next_block_timestamp t tm of None \<Rightarrow> tm | Some tm' \<Rightarrow> tm', log)"
| "time_step (TimeSetInterval i) (tm, log) = Some (set_block_timestamp_interval i tm, log)"
| "time_step TimeRemoveInterval (tm, log) = Some (snd (remove_block_timestamp_interval tm), log)"
| "time_step (TimeBlock now) (tm, log) =
     (let (t, tm') = next_timestamp now tm in Some (tm', t # log))"

section \<open>Lemmas\<close>

lemma compute_next_timestamp_ge:
  assumes "last_timestamp tm \<noteq> - 1"
  shows "last_timestamp tm \<le> fst (compute_next_timestamp now tm)"
proof -
  have "unat (last_timestamp tm) \<noteq> unat (- 1 :: u64)"
    using assms by (metis unsigned_word_eqI)
  then have "unat (last_timestamp tm) < 2 ^ 64 - 1"
    using unat_below [of "last_timestamp tm"] by (simp add: unat_max_word)
  then have "last_timestamp tm \<le> last_timestamp tm + 1"
    by (simp add: word_le_nat_alt unat_word_ariths)
  then show ?thesis
    by (auto simp: compute_next_timestamp_def Let_def not_less split: option.splits prod.splits)
qed

definition time_inv :: "TimeManager \<times> u64 list \<Rightarrow> bool" where
  "time_inv s \<longleftrightarrow>
     (case s of (tm, log) \<Rightarrow>
        (\<forall>t. next_exact_timestamp tm = Some t \<longrightarrow> last_timestamp tm \<le> t) \<and>
        (log \<noteq> [] \<longrightarrow> hd log = last_timestamp tm) \<and>
        (- 1 \<notin> set (tl log) \<longrightarrow> sorted_wrt (\<ge>) log))"

lemma time_inv_block:
  assumes "time_inv (tm, log)" and "next_timestamp now tm = (t, tm')"
  shows "time_inv (tm', t # log)"
proof -
  have t: "t = fst (compute_next_timestamp now tm)" "last_timestamp tm' = t" "next_exact_timestamp tm' = None"
    using assms(2) by (auto simp: next_timestamp_def split: prod.splits)
  have "sorted_wrt (\<ge>) (t # log)" if log: "- 1 \<notin> set log"
  proof (cases log)
    case (Cons u us)
    with assms(1) log have u: "u = last_timestamp tm" "sorted_wrt (\<ge>) log" "u \<noteq> - 1"
      by (auto simp: time_inv_def)
    then have "u \<le> t" using compute_next_timestamp_ge [of tm now] t(1) by simp
    with u(2) Cons show ?thesis by (auto intro: order_trans)
  qed simp
  with t show ?thesis by (simp add: time_inv_def)
qed

interpretation time_ops: op_system time_step "\<lambda>_. True" time_inv
proof
  fix s :: "TimeManager \<times> u64 list" and x
  assume "time_inv s"
  moreover obtain tm log where "s = (tm, log)" by (cases s)
  ultimately show "\<exists>s'. time_step x s = Some s' \<and> time_inv s'"
  proof (cases x)
    case (TimeBlock now)
    then show ?thesis
      using \<open>time_inv s\<close> \<open>s = (tm, log)\<close> time_inv_block by (auto split: prod.split)
  qed (auto simp: increase_time_def add_offset_def set_next_block_timestamp_def
        set_block_timestamp_interval_def remove_block_timestamp_interval_def time_inv_def Let_def
        split: prod.splits)
qed

section \<open>Properties\<close>



text \<open>
  \<open>set_next_block_timestamp(t)\<close> is accepted for every \<open>t\<close> that is not before the last block, and
  then the next block gets exactly \<open>t\<close>; afterwards the clock goes on from there: a block mined
  \<open>d\<close> seconds later, without an interval, gets \<open>t + d\<close>.
\<close>

theorem set_next_block_timestamp_exact:
  assumes "last_timestamp tm \<le> t"
  shows "\<exists>tm' tm''. set_next_block_timestamp t tm = Some tm' \<and>
           next_timestamp now tm' = (t, tm'') \<and>
           (interval tm = None \<longrightarrow> uint t + uint d < 2 ^ 64 \<longrightarrow> uint now + uint d < 2 ^ 64 \<longrightarrow>
              fst (next_timestamp (now + d) tm'') = t + d)"
proof -
  let ?tm' = "tm\<lparr>next_exact_timestamp := Some t\<rparr>"
  let ?tm'' = "tm\<lparr>next_exact_timestamp := None, offset := uint t - uint now, last_timestamp := t\<rparr>"
  have "set_next_block_timestamp t tm = Some ?tm'"
    using assms by (simp add: set_next_block_timestamp_def)
  moreover have next1: "next_timestamp now ?tm' = (t, ?tm'')"
    using leD [OF assms] by (simp add: next_timestamp_def compute_next_timestamp_def Let_def)
  moreover have "fst (next_timestamp (now + d) ?tm'') = t + d"
    if "interval tm = None" "uint t + uint d < 2 ^ 64" "uint now + uint d < 2 ^ 64"
  proof -
    have nd: "uint (now + d) = uint now + uint d" "uint (t + d) = uint t + uint d"
      using that(2,3) by (simp_all add: uint_add_no_wrap)
    have "uint now + uint d + (uint t - uint now) = uint t + uint d" by simp
    moreover have "sat_i128 (uint t + uint d) = uint t + uint d"
    proof (rule sat_i128_id)
      have "0 \<le> uint t + uint d" by (intro add_nonneg_nonneg) simp_all
      then show "- (2 ^ 127) \<le> uint t + uint d" by (rule order_trans [rotated]) simp
    qed (use that(2) in simp)
    ultimately have "sat_i128 (uint (now + d) + (uint t - uint now)) = uint (t + d)"
      by (simp only: nd)
    moreover have "\<not> t + d < t" by (simp add: word_less_def nd(2))
    ultimately show ?thesis
      using that(1) by (simp add: next_timestamp_def compute_next_timestamp_def Let_def)
  qed
  ultimately show ?thesis
    by (intro exI [of _ ?tm'] exI [of _ ?tm''] conjI impI)
qed

theorem set_next_block_timestamp_exact_witness:
  "\<exists>tm' tm''. set_next_block_timestamp 200 (TimeManager_new 100 100) = Some tm' \<and>
     next_timestamp 106 tm' = (200, tm'') \<and> fst (next_timestamp (106 + 3) tm'') = 200 + 3"
proof -
  have "last_timestamp (TimeManager_new 100 100) \<le> 200" "interval (TimeManager_new 100 100) = None"
    by (simp_all add: TimeManager_new_def time_reset_def)
  with set_next_block_timestamp_exact [of "TimeManager_new 100 100" 200 106 3] show ?thesis by auto
qed

end
