(* ===== verification/Block_States.thy ===== *)
theory Block_States
  imports Prelude
begin

text \<open>
  The historical states of anvil: \<open>InMemoryBlockStates\<close> (anvil/src/eth/backend/mem/storage.rs), which
  keeps the states of recent blocks in memory and moves older ones to disk, and the conversion between
  a cached database and the snapshot that is written (\<open>clear_into_state_snapshot\<close>,
  \<open>init_from_state_snapshot\<close> of anvil/src/eth/backend/db.rs). The cache directory on disk is a
  parameter (\<open>disk_ops\<close>): its writes happen on another thread and any access may fail.
\<close>

section \<open>Snapshots of a cached database\<close>

text \<open>Accounts as revm represents them; \<open>'c\<close> is the bytecode.\<close>

record 'c AccountInfo =
  balance :: u256
  nonce :: u64
  code_hash :: b256
  code :: "'c option"

datatype AccountState = AccNotExisting | AccTouched | AccStorageCleared | AccNone

record 'c DbAccount =
  info :: "'c AccountInfo"
  storage :: "(u256, u256) fmap"
  account_state :: AccountState

record 'c CacheDB =
  accounts :: "(address, 'c DbAccount) fmap"
  contracts :: "(b256, 'c) fmap"
  cached_block_hashes :: "(u256, b256) fmap"

record 'c StateSnapshot =
  snap_accounts :: "(address, 'c AccountInfo) fmap"
  snap_storage :: "(address, (u256, u256) fmap) fmap"
  snap_block_hashes :: "(u256, b256) fmap"

text \<open>The loop over the accounts; \<open>addrs\<close> is the order in which the hash map yields them.\<close>

fun clear_accounts ::
    "address list \<Rightarrow> (address, 'c DbAccount) fmap
       \<Rightarrow> (address, 'c AccountInfo) fmap \<times> (address, (u256, u256) fmap) fmap \<times> (b256, 'c) fmap
       \<Rightarrow> (address, 'c AccountInfo) fmap \<times> (address, (u256, u256) fmap) fmap \<times> (b256, 'c) fmap" where
  "clear_accounts [] accs st = st"
| "clear_accounts (addr # addrs) accs (infos, stor, conts) =
     (case fmlookup accs addr of
        None \<Rightarrow> clear_accounts addrs accs (infos, stor, conts)
      | Some acc \<Rightarrow>
          clear_accounts addrs accs
            (fmupd addr ((info acc)\<lparr>code := fmlookup conts (code_hash (info acc))\<rparr>) infos,
             fmupd addr (storage acc) stor,
             fmdrop (code_hash (info acc)) conts))"

definition clear_into_state_snapshot ::
    "(address fset \<Rightarrow> address list) \<Rightarrow> 'c CacheDB \<Rightarrow> 'c StateSnapshot \<times> 'c CacheDB" where
  "clear_into_state_snapshot ao db =
     (let (infos, stor, conts) =
        clear_accounts (ao (fmdom (accounts db))) (accounts db) (fmempty, fmempty, contracts db)
      in (\<lparr>snap_accounts = infos, snap_storage = stor, snap_block_hashes = cached_block_hashes db\<rparr>,
          \<lparr>accounts = fmempty, contracts = conts, cached_block_hashes = fmempty\<rparr>))"

definition read_as_state_snapshot :: "'c CacheDB \<Rightarrow> 'c StateSnapshot" where
  "read_as_state_snapshot db =
     \<lparr>snap_accounts = fmmap (\<lambda>acc. (info acc)\<lparr>code := fmlookup (contracts db) (code_hash (info acc))\<rparr>) (accounts db),
      snap_storage = fmmap storage (accounts db), snap_block_hashes = cached_block_hashes db\<rparr>"

definition cache_clear :: "(address fset \<Rightarrow> address list) \<Rightarrow> 'c CacheDB \<Rightarrow> 'c CacheDB" where
  "cache_clear ao db = snd (clear_into_state_snapshot ao db)"

fun load_accounts ::
    "address list \<Rightarrow> (address, 'c AccountInfo) fmap \<Rightarrow> (address, (u256, u256) fmap) fmap \<Rightarrow> 'c CacheDB
       \<Rightarrow> 'c CacheDB" where
  "load_accounts [] infos stor db = db"
| "load_accounts (addr # addrs) infos stor db =
     (case fmlookup infos addr of
        None \<Rightarrow> load_accounts addrs infos stor db
      | Some acc \<Rightarrow>
          load_accounts addrs infos (fmdrop addr stor)
            (db\<lparr>contracts := (case code acc of Some c \<Rightarrow> fmupd (code_hash acc) c (contracts db)
                              | None \<Rightarrow> contracts db),
                accounts := fmupd addr
                  \<lparr>info = acc\<lparr>code := None\<rparr>,
                   storage = (case fmlookup stor addr of Some s \<Rightarrow> s | None \<Rightarrow> fmempty),
                   account_state = AccNone\<rparr> (accounts db)\<rparr>))"

definition init_from_state_snapshot ::
    "(address fset \<Rightarrow> address list) \<Rightarrow> 'c StateSnapshot \<Rightarrow> 'c CacheDB \<Rightarrow> 'c CacheDB" where
  "init_from_state_snapshot ao snap db =
     (load_accounts (ao (fmdom (snap_accounts snap))) (snap_accounts snap) (snap_storage snap) db)
       \<lparr>cached_block_hashes := snap_block_hashes snap\<rparr>"

section \<open>Historical block states\<close>

record ('db, 'snap, 'disk) disk_ops =
  clear_into :: "'db \<Rightarrow> 'snap \<times> 'db"
  init_from :: "'snap \<Rightarrow> 'db \<Rightarrow> 'db"
  read_snapshot :: "'db \<Rightarrow> 'snap"
  disk_write :: "b256 \<Rightarrow> 'snap \<Rightarrow> 'disk \<Rightarrow> 'disk"
  disk_read :: "b256 \<Rightarrow> 'disk \<Rightarrow> 'snap option \<times> 'disk"
  disk_remove :: "b256 \<Rightarrow> 'disk \<Rightarrow> 'disk"

record ('db, 'disk) InMemoryBlockStates =
  states :: "(b256, 'db) fmap"
  on_disk_states :: "(b256, 'db) fmap"
  in_memory_limit :: nat
  min_in_memory_limit :: nat
  max_on_disk_limit :: nat
  oldest_on_disk :: "b256 list"
  present :: "b256 list"
  disk_cache :: 'disk

definition DEFAULT_HISTORY_LIMIT :: nat where "DEFAULT_HISTORY_LIMIT = 500"
definition MIN_HISTORY_LIMIT :: nat where "MIN_HISTORY_LIMIT = 10"
definition MAX_ON_DISK_HISTORY_LIMIT :: nat where "MAX_ON_DISK_HISTORY_LIMIT = 3600"

definition BlockStates_new :: "'disk \<Rightarrow> nat \<Rightarrow> nat \<Rightarrow> ('db, 'disk) InMemoryBlockStates" where
  "BlockStates_new disk mem_limit on_disk_limit =
     \<lparr>states = fmempty, on_disk_states = fmempty, in_memory_limit = mem_limit,
      min_in_memory_limit = min mem_limit MIN_HISTORY_LIMIT, max_on_disk_limit = on_disk_limit,
      oldest_on_disk = [], present = [], disk_cache = disk\<rparr>"

definition BlockStates_default :: "'disk \<Rightarrow> ('db, 'disk) InMemoryBlockStates" where
  "BlockStates_default disk = BlockStates_new disk DEFAULT_HISTORY_LIMIT MAX_ON_DISK_HISTORY_LIMIT"

definition memory_only :: "('db, 'disk) InMemoryBlockStates \<Rightarrow> ('db, 'disk) InMemoryBlockStates" where
  "memory_only s = s\<lparr>max_on_disk_limit := 0\<rparr>"

definition is_memory_only :: "('db, 'disk) InMemoryBlockStates \<Rightarrow> bool" where
  "is_memory_only s \<longleftrightarrow> max_on_disk_limit s = 0"

text \<open>The body of the first loop of \<open>enforce_limits\<close>.\<close>

definition evict_oldest ::
    "('db, 'snap, 'disk) disk_ops \<Rightarrow> ('db, 'disk) InMemoryBlockStates \<Rightarrow> ('db, 'disk) InMemoryBlockStates" where
  "evict_oldest ops s =
     (case present s of
        [] \<Rightarrow> s
      | hash # rest \<Rightarrow>
          (case fmlookup (states s) hash of
             None \<Rightarrow> s\<lparr>present := rest\<rparr>
           | Some state \<Rightarrow>
               (let s1 = s\<lparr>present := rest, states := fmdrop hash (states s)\<rparr> in
                if is_memory_only s then s1
                else
                  (let (snap, state') = clear_into ops state in
                   s1\<lparr>disk_cache := disk_write ops hash snap (disk_cache s1),
                      on_disk_states := fmupd hash state' (on_disk_states s1),
                      oldest_on_disk := oldest_on_disk s1 @ [hash]\<rparr>))))"

partial_function (option) evict_memory ::
    "('db, 'snap, 'disk) disk_ops \<Rightarrow> ('db, 'disk) InMemoryBlockStates
       \<Rightarrow> ('db, 'disk) InMemoryBlockStates option" where
  "evict_memory ops s =
     (if in_memory_limit s \<le> length (present s) then evict_memory ops (evict_oldest ops s) else Some s)"

text \<open>The second loop. An entry that is not there any more is skipped.\<close>

definition purge_oldest ::
    "('db, 'snap, 'disk) disk_ops \<Rightarrow> ('db, 'disk) InMemoryBlockStates \<Rightarrow> ('db, 'disk) InMemoryBlockStates" where
  "purge_oldest ops s =
     (case oldest_on_disk s of
        [] \<Rightarrow> s
      | hash # rest \<Rightarrow>
          s\<lparr>oldest_on_disk := rest, on_disk_states := fmdrop hash (on_disk_states s),
            disk_cache := disk_remove ops hash (disk_cache s)\<rparr>)"

partial_function (option) evict_disk ::
    "('db, 'snap, 'disk) disk_ops \<Rightarrow> ('db, 'disk) InMemoryBlockStates
       \<Rightarrow> ('db, 'disk) InMemoryBlockStates option" where
  "evict_disk ops s =
     (if \<not> is_memory_only s \<and> max_on_disk_limit s \<le> length (oldest_on_disk s)
      then evict_disk ops (purge_oldest ops s) else Some s)"

definition enforce_limits ::
    "('db, 'snap, 'disk) disk_ops \<Rightarrow> ('db, 'disk) InMemoryBlockStates
       \<Rightarrow> ('db, 'disk) InMemoryBlockStates option" where
  "enforce_limits ops s = Option.bind (evict_memory ops s) (evict_disk ops)"

definition states_insert ::
    "('db, 'snap, 'disk) disk_ops \<Rightarrow> b256 \<Rightarrow> 'db \<Rightarrow> ('db, 'disk) InMemoryBlockStates
       \<Rightarrow> ('db, 'disk) InMemoryBlockStates option" where
  "states_insert ops hash state s =
     (let s1 = (if \<not> is_memory_only s \<and> in_memory_limit s \<le> length (present s)
                then s\<lparr>in_memory_limit := max (in_memory_limit s - 1) (min_in_memory_limit s)\<rparr> else s)
      in map_option
           (\<lambda>s2. s2\<lparr>states := fmupd hash state (states s2), present := present s2 @ [hash]\<rparr>)
           (enforce_limits ops s1))"

definition states_get ::
    "('db, 'snap, 'disk) disk_ops \<Rightarrow> b256 \<Rightarrow> ('db, 'disk) InMemoryBlockStates
       \<Rightarrow> 'db option \<times> ('db, 'disk) InMemoryBlockStates" where
  "states_get ops hash s =
     (case fmlookup (states s) hash of
        Some state \<Rightarrow> (Some state, s)
      | None \<Rightarrow>
          (case fmlookup (on_disk_states s) hash of
             None \<Rightarrow> (None, s)
           | Some state \<Rightarrow>
               (case disk_read ops hash (disk_cache s) of
                  (None, d) \<Rightarrow> (None, s\<lparr>disk_cache := d\<rparr>)
                | (Some cached, d) \<Rightarrow>
                    (let state' = init_from ops cached state in
                     (Some state',
                      s\<lparr>disk_cache := d, on_disk_states := fmupd hash state' (on_disk_states s)\<rparr>)))))"

definition update_interval_mine_block_time ::
    "('db, 'snap, 'disk) disk_ops \<Rightarrow> u64 \<Rightarrow> ('db, 'disk) InMemoryBlockStates
       \<Rightarrow> ('db, 'disk) InMemoryBlockStates option" where
  "update_interval_mine_block_time ops block_time s =
     (if block_time \<le> 2 then enforce_limits ops (s\<lparr>in_memory_limit := DEFAULT_HISTORY_LIMIT * 3\<rparr>)
      else Some s)"

definition set_cache_limit :: "nat \<Rightarrow> ('db, 'disk) InMemoryBlockStates \<Rightarrow> ('db, 'disk) InMemoryBlockStates" where
  "set_cache_limit limit s = s\<lparr>in_memory_limit := limit\<rparr>"

definition states_clear ::
    "('db, 'snap, 'disk) disk_ops \<Rightarrow> ('db, 'disk) InMemoryBlockStates \<Rightarrow> ('db, 'disk) InMemoryBlockStates" where
  "states_clear ops s =
     s\<lparr>states := fmempty, on_disk_states := fmempty, present := [], oldest_on_disk := [],
       disk_cache := fold (disk_remove ops) (oldest_on_disk s) (disk_cache s)\<rparr>"

text \<open>\<open>load_states\<close>; \<open>empty_db\<close> is \<open>StateDb::new(MemDb::default())\<close>.\<close>

fun load_states ::
    "('db, 'snap, 'disk) disk_ops \<Rightarrow> 'db \<Rightarrow> (b256 \<times> 'snap) list \<Rightarrow> ('db, 'disk) InMemoryBlockStates
       \<Rightarrow> ('db, 'disk) InMemoryBlockStates option" where
  "load_states ops empty_db [] s = Some s"
| "load_states ops empty_db ((hash, snap) # snaps) s =
     Option.bind (states_insert ops hash (init_from ops snap empty_db) s) (load_states ops empty_db snaps)"

text \<open>\<open>serialized_states\<close>; \<open>ord\<close> is the iteration order of the two hash maps.\<close>

fun read_on_disk ::
    "('db, 'snap, 'disk) disk_ops \<Rightarrow> b256 list \<Rightarrow> 'disk \<Rightarrow> (b256 \<times> 'snap) list \<times> 'disk" where
  "read_on_disk ops [] d = ([], d)"
| "read_on_disk ops (hash # hashes) d =
     (let (snap, d1) = disk_read ops hash d;
          (rest, d2) = read_on_disk ops hashes d1
      in (case snap of None \<Rightarrow> (rest, d2) | Some sn \<Rightarrow> ((hash, sn) # rest, d2)))"

definition serialized_states ::
    "('db, 'snap, 'disk) disk_ops \<Rightarrow> (b256 fset \<Rightarrow> b256 list) \<Rightarrow> ('db, 'disk) InMemoryBlockStates
       \<Rightarrow> (b256 \<times> 'snap) list \<times> ('db, 'disk) InMemoryBlockStates" where
  "serialized_states ops ord s =
     (let (on_disk, d) = read_on_disk ops (ord (fmdom (on_disk_states s))) (disk_cache s)
      in (map (\<lambda>h. (h, read_snapshot ops (the (fmlookup (states s) h)))) (ord (fmdom (states s))) @ on_disk,
          s\<lparr>disk_cache := d\<rparr>))"

section \<open>The snapshot conversion\<close>

text \<open>
  What \<open>clear_accounts\<close> has done after some addresses: each account is listed without its code, or
  with the code its hash stands for; the code of a hash is with exactly one listed account or still in
  the contract table.
\<close>

definition split_codes ::
    "(b256, 'c) fmap \<Rightarrow> (address, 'c AccountInfo) fmap \<Rightarrow> (b256, 'c) fmap \<Rightarrow> bool" where
  "split_codes conts0 infos conts \<longleftrightarrow>
     (\<forall>a i c. fmlookup infos a = Some i \<longrightarrow> code i = Some c \<longrightarrow> fmlookup conts0 (code_hash i) = Some c) \<and>
     (\<forall>h c. fmlookup conts h = Some c \<longrightarrow> fmlookup conts0 h = Some c) \<and>
     (\<forall>h c. fmlookup conts0 h = Some c \<longrightarrow>
        fmlookup conts h = Some c \<or> (\<exists>a i. fmlookup infos a = Some i \<and> code_hash i = h \<and> code i = Some c))"

lemma split_codes_step:
  assumes "split_codes conts0 infos conts" and "fmlookup infos a = None"
  shows "split_codes conts0 (fmupd a (i\<lparr>code := fmlookup conts (code_hash i)\<rparr>) infos) (fmdrop (code_hash i) conts)"
proof -
  let ?infos = "fmupd a (i\<lparr>code := fmlookup conts (code_hash i)\<rparr>) infos"
  have "fmlookup (fmdrop (code_hash i) conts) h = Some c \<or>
      (\<exists>a i. fmlookup ?infos a = Some i \<and> code_hash i = h \<and> code i = Some c)"
    if h: "fmlookup conts0 h = Some c" for h c
  proof (cases "\<exists>b j. fmlookup infos b = Some j \<and> code_hash j = h \<and> code j = Some c")
    case True
    then obtain b j where b: "fmlookup infos b = Some j" "code_hash j = h" "code j = Some c" by blast
    then have "b \<noteq> a" using assms(2) by auto
    with b have "fmlookup ?infos b = Some j" by simp
    with b show ?thesis by blast
  next
    case False
    with assms(1) h have conts: "fmlookup conts h = Some c" unfolding split_codes_def by blast
    show ?thesis
    proof (cases "h = code_hash i")
      case True
      with conts show ?thesis by (intro disjI2 exI [of _ a]) simp
    qed (use conts in simp)
  qed
  with assms show ?thesis
    unfolding split_codes_def by (auto split: if_splits)
qed

lemma clear_accounts_spec:
  assumes "clear_accounts addrs accs (infos0, stor0, conts) = (infos, stor, conts')"
    and "distinct addrs" and "\<forall>a \<in> set addrs. fmlookup accs a \<noteq> None \<and> fmlookup infos0 a = None"
    and "split_codes conts0 infos0 conts"
  shows "split_codes conts0 infos conts' \<and>
         (\<forall>a. map_option (\<lambda>i. i\<lparr>code := None\<rparr>) (fmlookup infos a) =
            (if a \<in> set addrs then map_option (\<lambda>acc. (info acc)\<lparr>code := None\<rparr>) (fmlookup accs a)
             else map_option (\<lambda>i. i\<lparr>code := None\<rparr>) (fmlookup infos0 a))) \<and>
         (\<forall>a. fmlookup stor a =
            (if a \<in> set addrs then map_option storage (fmlookup accs a) else fmlookup stor0 a))"
  using assms
proof (induction addrs arbitrary: infos0 stor0 conts)
  case (Cons a addrs)
  from Cons.prems(3) obtain acc where acc: "fmlookup accs a = Some acc" by auto
  let ?infos = "fmupd a ((info acc)\<lparr>code := fmlookup conts (code_hash (info acc))\<rparr>) infos0"
  let ?stor = "fmupd a (storage acc) stor0"
  let ?conts = "fmdrop (code_hash (info acc)) conts"
  have "clear_accounts addrs accs (?infos, ?stor, ?conts) = (infos, stor, conts')"
    using Cons.prems(1) acc by simp
  moreover have "\<forall>b \<in> set addrs. fmlookup accs b \<noteq> None \<and> fmlookup ?infos b = None"
    using Cons.prems(2,3) by auto
  moreover have "split_codes conts0 ?infos ?conts"
    using split_codes_step [OF Cons.prems(4)] Cons.prems(3) by simp
  ultimately have IH: "split_codes conts0 infos conts'"
    "\<And>b. map_option (\<lambda>i. i\<lparr>code := None\<rparr>) (fmlookup infos b) =
       (if b \<in> set addrs then map_option (\<lambda>acc. (info acc)\<lparr>code := None\<rparr>) (fmlookup accs b)
        else map_option (\<lambda>i. i\<lparr>code := None\<rparr>) (fmlookup ?infos b))"
    "\<And>b. fmlookup stor b = (if b \<in> set addrs then map_option storage (fmlookup accs b) else fmlookup ?stor b)"
    using Cons.IH [of ?infos ?stor ?conts] Cons.prems(2) by auto
  have "map_option (\<lambda>i. i\<lparr>code := None\<rparr>) (fmlookup infos b) =
      (if b \<in> set (a # addrs) then map_option (\<lambda>acc. (info acc)\<lparr>code := None\<rparr>) (fmlookup accs b)
       else map_option (\<lambda>i. i\<lparr>code := None\<rparr>) (fmlookup infos0 b))" for b
    unfolding IH(2) using Cons.prems(2) acc by simp
  moreover have "fmlookup stor b =
      (if b \<in> set (a # addrs) then map_option storage (fmlookup accs b) else fmlookup stor0 b)" for b
    unfolding IH(3) using Cons.prems(2) acc by simp
  ultimately show ?case using IH(1) by blast
qed simp

text \<open>Loading the accounts back.\<close>

lemma load_accounts_spec:
  assumes "distinct addrs" and "\<forall>a \<in> set addrs. fmlookup infos a \<noteq> None"
    and "\<And>a i c. fmlookup infos a = Some i \<Longrightarrow> code i = Some c \<Longrightarrow> fmlookup conts0 (code_hash i) = Some c"
    and "\<And>h c. fmlookup (contracts db) h = Some c \<Longrightarrow> fmlookup conts0 h = Some c"
  shows "(\<forall>a. fmlookup (accounts (load_accounts addrs infos stor db)) a =
            (if a \<in> set addrs
             then map_option (\<lambda>i. \<lparr>info = i\<lparr>code := None\<rparr>,
                     storage = (case fmlookup stor a of Some s \<Rightarrow> s | None \<Rightarrow> fmempty),
                     account_state = AccNone\<rparr>) (fmlookup infos a)
             else fmlookup (accounts db) a)) \<and>
         (\<forall>h c. fmlookup (contracts (load_accounts addrs infos stor db)) h = Some c \<longleftrightarrow>
            fmlookup (contracts db) h = Some c \<or>
            (\<exists>a \<in> set addrs. \<exists>i. fmlookup infos a = Some i \<and> code_hash i = h \<and> code i = Some c))"
  using assms(1,2,4)
proof (induction addrs arbitrary: stor db)
  case (Cons a addrs)
  from Cons.prems(2) obtain i where i: "fmlookup infos a = Some i" by auto
  let ?db = "db\<lparr>contracts := (case code i of Some c \<Rightarrow> fmupd (code_hash i) c (contracts db) | None \<Rightarrow> contracts db),
       accounts := fmupd a \<lparr>info = i\<lparr>code := None\<rparr>,
         storage = (case fmlookup stor a of Some s \<Rightarrow> s | None \<Rightarrow> fmempty), account_state = AccNone\<rparr> (accounts db)\<rparr>"
  have conts: "fmlookup (contracts ?db) h = Some c \<longleftrightarrow>
      fmlookup (contracts db) h = Some c \<or> code_hash i = h \<and> code i = Some c" for h c
    using assms(3) [OF i] Cons.prems(3) [of h] by (fastforce split: option.splits if_splits)
  have below: "fmlookup conts0 h = Some c" if "fmlookup (contracts ?db) h = Some c" for h c
    using that Cons.prems(3) assms(3) [OF i] unfolding conts by blast
  note IH = Cons.IH [of ?db "fmdrop a stor", OF _ _ below]
  have d: "distinct addrs" "\<forall>b \<in> set addrs. fmlookup infos b \<noteq> None" using Cons.prems(1,2) by auto
  have load: "load_accounts (a # addrs) infos stor db = load_accounts addrs infos (fmdrop a stor) ?db"
    by (simp add: i)
  have "fmlookup (accounts (load_accounts addrs infos (fmdrop a stor) ?db)) b =
      (if b \<in> set (a # addrs)
       then map_option (\<lambda>i. \<lparr>info = i\<lparr>code := None\<rparr>,
               storage = (case fmlookup stor b of Some s \<Rightarrow> s | None \<Rightarrow> fmempty),
               account_state = AccNone\<rparr>) (fmlookup infos b)
       else fmlookup (accounts db) b)" for b
    using conjunct1 [OF IH [OF d], rule_format, of b] Cons.prems(1) i by (cases "b = a") auto
  moreover have "fmlookup (contracts (load_accounts addrs infos (fmdrop a stor) ?db)) h = Some c \<longleftrightarrow>
      fmlookup (contracts db) h = Some c \<or>
      (\<exists>a \<in> set (a # addrs). \<exists>i. fmlookup infos a = Some i \<and> code_hash i = h \<and> code i = Some c)" for h c
    using conjunct2 [OF IH [OF d], rule_format, of h c] i unfolding conts by auto
  ultimately show ?case unfolding load by blast
qed simp

lemma fmap_eq_by_Some:
  assumes "\<And>h c. fmlookup m h = Some c \<longleftrightarrow> fmlookup m' h = Some c"
  shows "m = m'"
  by (rule fmap_ext) (metis assms option.exhaust)

text \<open>What a database shows: its accounts without inlined code, its contracts and block hashes.\<close>

definition db_view ::
    "'c CacheDB \<Rightarrow> (address, 'c AccountInfo \<times> (u256, u256) fmap) fmap \<times> (b256, 'c) fmap \<times> (u256, b256) fmap" where
  "db_view db =
     (fmmap (\<lambda>acc. ((info acc)\<lparr>code := None\<rparr>, storage acc)) (accounts db), contracts db, cached_block_hashes db)"

lemma load_all_accounts:
  assumes ao: "enumerates ao"
    and codes: "\<forall>a i c. fmlookup infos a = Some i \<longrightarrow> code i = Some c \<longrightarrow> fmlookup conts0 (code_hash i) = Some c"
    and conts: "\<forall>h c. fmlookup (contracts db) h = Some c \<longrightarrow> fmlookup conts0 h = Some c"
    and load: "load = load_accounts (ao (fmdom infos)) infos stor db"
  shows "fmlookup (accounts load) a =
      (case fmlookup infos a of
         None \<Rightarrow> fmlookup (accounts db) a
       | Some i \<Rightarrow> Some \<lparr>info = i\<lparr>code := None\<rparr>, storage = (case fmlookup stor a of Some s \<Rightarrow> s | None \<Rightarrow> fmempty),
                        account_state = AccNone\<rparr>)"
    and "fmlookup (contracts load) h = Some c \<longleftrightarrow> fmlookup (contracts db) h = Some c \<or>
       (\<exists>a i. fmlookup infos a = Some i \<and> code_hash i = h \<and> code i = Some c)"
proof -
  have set: "set (ao (fmdom infos)) = fset (fmdom infos)" using ao by (simp add: enumerates_set)
  have "\<forall>a \<in> set (ao (fmdom infos)). fmlookup infos a \<noteq> None" by (auto simp: set fmlookup_dom_iff)
  with codes conts have spec: "(\<forall>a. fmlookup (accounts load) a =
      (if a \<in> set (ao (fmdom infos))
       then map_option (\<lambda>i. \<lparr>info = i\<lparr>code := None\<rparr>, storage = (case fmlookup stor a of Some s \<Rightarrow> s | None \<Rightarrow> fmempty),
          account_state = AccNone\<rparr>) (fmlookup infos a) else fmlookup (accounts db) a)) \<and>
    (\<forall>h c. fmlookup (contracts load) h = Some c \<longleftrightarrow> fmlookup (contracts db) h = Some c \<or>
       (\<exists>a \<in> set (ao (fmdom infos)). \<exists>i. fmlookup infos a = Some i \<and> code_hash i = h \<and> code i = Some c))"
    unfolding load by (intro load_accounts_spec enumerates_distinct [OF ao]) blast+
  show "fmlookup (accounts load) a =
      (case fmlookup infos a of
         None \<Rightarrow> fmlookup (accounts db) a
       | Some i \<Rightarrow> Some \<lparr>info = i\<lparr>code := None\<rparr>, storage = (case fmlookup stor a of Some s \<Rightarrow> s | None \<Rightarrow> fmempty),
                        account_state = AccNone\<rparr>)"
    unfolding conjunct1 [OF spec, rule_format] by (auto simp: set fmlookup_dom_iff split: option.splits)
  show "fmlookup (contracts load) h = Some c \<longleftrightarrow> fmlookup (contracts db) h = Some c \<or>
       (\<exists>a i. fmlookup infos a = Some i \<and> code_hash i = h \<and> code i = Some c)"
    unfolding conjunct2 [OF spec, rule_format] by (auto simp: set dest: fmdomI)
qed

definition plain_account :: "'c DbAccount \<Rightarrow> 'c DbAccount" where
  "plain_account acc = \<lparr>info = (info acc)\<lparr>code := None\<rparr>, storage = storage acc, account_state = AccNone\<rparr>"

lemma cache_codec_exact:
  assumes "enumerates ao" and "clear_into_state_snapshot ao db = (snap, db')"
  shows "init_from_state_snapshot ao snap db' = db\<lparr>accounts := fmmap plain_account (accounts db)\<rparr>"
proof -
  let ?addrs = "ao (fmdom (accounts db))"
  obtain infos stor conts where
    run: "clear_accounts ?addrs (accounts db) (fmempty, fmempty, contracts db) = (infos, stor, conts)"
    by (metis prod_cases3)
  have set: "set ?addrs = fset (fmdom (accounts db))" and dist: "distinct ?addrs"
    using assms(1) by (simp_all add: enumerates_set enumerates_distinct)
  have "split_codes (contracts db) fmempty (contracts db)" by (simp add: split_codes_def)
  then have cleared: "split_codes (contracts db) infos conts"
    "\<And>a. map_option (\<lambda>i. i\<lparr>code := None\<rparr>) (fmlookup infos a) =
       map_option (\<lambda>acc. (info acc)\<lparr>code := None\<rparr>) (fmlookup (accounts db) a)"
    "\<And>a. fmlookup stor a = map_option storage (fmlookup (accounts db) a)"
    using clear_accounts_spec [OF run dist] set by (fastforce simp: fmdom_notD)+
  from assms(2) run have snap: "snap = \<lparr>snap_accounts = infos, snap_storage = stor, snap_block_hashes = cached_block_hashes db\<rparr>"
    and db': "db' = \<lparr>accounts = fmempty, contracts = conts, cached_block_hashes = fmempty\<rparr>"
    by (simp_all add: clear_into_state_snapshot_def)
  let ?load = "load_accounts (ao (fmdom infos)) infos stor db'"
  have codes: "\<forall>a i c. fmlookup infos a = Some i \<longrightarrow> code i = Some c \<longrightarrow> fmlookup (contracts db) (code_hash i) = Some c"
    "\<forall>h c. fmlookup (contracts db') h = Some c \<longrightarrow> fmlookup (contracts db) h = Some c"
    using cleared(1) unfolding split_codes_def by (simp_all add: db')
  have empty: "accounts db' = fmempty" by (simp add: db')
  note loaded = load_all_accounts [where load = ?load, OF assms(1) codes refl]
  have "fmlookup (contracts ?load) h = Some c \<longleftrightarrow> fmlookup (contracts db) h = Some c" for h c
    unfolding loaded(2) using cleared(1) unfolding split_codes_def by (auto simp: db')
  then have conts: "contracts ?load = contracts db" by (rule fmap_eq_by_Some)
  have "fmlookup (accounts ?load) a = fmlookup (fmmap plain_account (accounts db)) a" for a
    using cleared(2,3) [of a]
    by (cases "fmlookup infos a"; cases "fmlookup (accounts db) a")
      (auto simp: loaded(1) empty plain_account_def)
  then have "accounts ?load = fmmap plain_account (accounts db)" by (rule fmap_ext)
  then show ?thesis
    using conts by (simp add: init_from_state_snapshot_def snap)
qed

lemma fmmap_fmmap: "fmmap f (fmmap g m) = fmmap (f \<circ> g) m"
  by (rule fmap_ext) (simp add: option.map_comp)

lemma cache_codec:
  assumes "enumerates ao" and "clear_into_state_snapshot ao db = (snap, db')"
  shows "db_view (init_from_state_snapshot ao snap db') = db_view db"
  unfolding cache_codec_exact [OF assms] db_view_def by (simp add: fmmap_fmmap plain_account_def comp_def)

lemma read_codec:
  assumes ao: "enumerates ao"
  defines "empty_db \<equiv> \<lparr>accounts = fmempty, contracts = fmempty, cached_block_hashes = fmempty\<rparr>"
  shows "init_from_state_snapshot ao (read_as_state_snapshot db) empty_db =
     db\<lparr>accounts := fmmap plain_account (accounts db),
        contracts := fmrestrict_fset ((\<lambda>acc. code_hash (info acc)) |`| fmran (accounts db)) (contracts db)\<rparr>"
proof -
  let ?infos = "snap_accounts (read_as_state_snapshot db)"
  let ?load = "load_accounts (ao (fmdom ?infos)) ?infos (snap_storage (read_as_state_snapshot db)) empty_db"
  have infos: "fmlookup ?infos a =
      map_option (\<lambda>acc. (info acc)\<lparr>code := fmlookup (contracts db) (code_hash (info acc))\<rparr>) (fmlookup (accounts db) a)" for a
    by (simp add: read_as_state_snapshot_def)
  have codes: "\<forall>a i c. fmlookup ?infos a = Some i \<longrightarrow> code i = Some c \<longrightarrow> fmlookup (contracts db) (code_hash i) = Some c"
    "\<forall>h c. fmlookup (contracts empty_db) h = Some c \<longrightarrow> fmlookup (contracts db) h = Some c"
    by (auto simp: infos empty_db_def)
  note loaded = load_all_accounts [where load = ?load, OF ao codes refl]
  have "fmlookup (accounts ?load) a = fmlookup (fmmap plain_account (accounts db)) a" for a
    unfolding loaded(1)
    by (cases "fmlookup (accounts db) a") (simp_all add: infos empty_db_def read_as_state_snapshot_def plain_account_def)
  then have "accounts ?load = fmmap plain_account (accounts db)" by (rule fmap_ext)
  moreover have "fmlookup (contracts ?load) h = Some c \<longleftrightarrow>
      fmlookup (fmrestrict_fset ((\<lambda>acc. code_hash (info acc)) |`| fmran (accounts db)) (contracts db)) h = Some c" for h c
    unfolding loaded(2)
    by (auto simp: infos empty_db_def intro: fmranI elim!: fmranE) (intro exI conjI, assumption, rule refl, simp_all)
  then have "contracts ?load = fmrestrict_fset ((\<lambda>acc. code_hash (info acc)) |`| fmran (accounts db)) (contracts db)"
    by (rule fmap_eq_by_Some)
  ultimately show ?thesis
    by (simp add: init_from_state_snapshot_def read_as_state_snapshot_def)
qed

lemma load_accounts_overlay:
  "\<exists>K A. \<forall>db. load_accounts addrs infos stor db =
      db\<lparr>contracts := contracts db ++\<^sub>f K, accounts := accounts db ++\<^sub>f A\<rparr>"
proof (induction addrs arbitrary: stor)
  case Nil
  show ?case by (rule exI [of _ fmempty], rule exI [of _ fmempty]) simp
next
  case (Cons a addrs)
  show ?case
  proof (cases "fmlookup infos a")
    case None
    with Cons [of stor] show ?thesis by simp
  next
    case (Some i)
    from Cons [of "fmdrop a stor"] obtain K A where
      IH: "\<And>db. load_accounts addrs infos (fmdrop a stor) db =
        db\<lparr>contracts := contracts db ++\<^sub>f K, accounts := accounts db ++\<^sub>f A\<rparr>" by blast
    let ?acc = "\<lparr>info = i\<lparr>code := None\<rparr>,
         storage = (case fmlookup stor a of Some s \<Rightarrow> s | None \<Rightarrow> fmempty), account_state = AccNone\<rparr>"
    let ?K = "(case code i of Some c \<Rightarrow> fmupd (code_hash i) c fmempty | None \<Rightarrow> fmempty) ++\<^sub>f K"
    show ?thesis
      by (rule exI [of _ ?K], rule exI [of _ "fmupd a ?acc fmempty ++\<^sub>f A"])
        (auto simp: Some IH fmadd_fmupd split: option.splits)
  qed
qed

lemma cache_reload:
  "db_view (init_from_state_snapshot ao snap (init_from_state_snapshot ao snap db)) =
   db_view (init_from_state_snapshot ao snap db)"
proof -
  obtain K A where "\<And>db. load_accounts (ao (fmdom (snap_accounts snap))) (snap_accounts snap) (snap_storage snap) db =
      db\<lparr>contracts := contracts db ++\<^sub>f K, accounts := accounts db ++\<^sub>f A\<rparr>"
    using load_accounts_overlay by blast
  then show ?thesis by (simp add: init_from_state_snapshot_def db_view_def flip: fmadd_assoc)
qed

section \<open>Eviction\<close>

lemma evict_oldest_limit [simp]: "in_memory_limit (evict_oldest ops s) = in_memory_limit s"
  by (auto simp: evict_oldest_def Let_def split: list.splits option.splits prod.splits)

lemma evict_memory_limit_pos:
  assumes "evict_memory ops s = Some s'"
  shows "in_memory_limit s \<noteq> 0"
  by (rule evict_memory.raw_induct [where P = "\<lambda>ops s s'. in_memory_limit s \<noteq> 0", OF _ assms])
    (metis evict_oldest_limit le_zero_eq not_less_eq_eq option.inject le0)

lemma evict_memory_returns:
  "0 < in_memory_limit s \<Longrightarrow>
   evict_memory ops s = Some ((evict_oldest ops ^^ (Suc (length (present s)) - in_memory_limit s)) s)"
proof (induction "length (present s)" arbitrary: s)
  case 0
  then show ?case by (subst evict_memory.simps) simp
next
  case (Suc n)
  then obtain h rest where p: "present s = h # rest" by (cases "present s") auto
  have rest: "present (evict_oldest ops s) = rest"
    by (auto simp: evict_oldest_def p Let_def split: option.splits prod.splits)
  show ?case
  proof (cases "in_memory_limit s \<le> length (present s)")
    case True
    with Suc.hyps(1) [of "evict_oldest ops s"] Suc.prems Suc.hyps(2) p rest
    have "evict_memory ops s = Some ((evict_oldest ops ^^ (Suc (length rest) - in_memory_limit s)) (evict_oldest ops s))"
      by (subst evict_memory.simps) simp
    moreover have "Suc (length (present s)) - in_memory_limit s = Suc (Suc (length rest) - in_memory_limit s)"
      using True p by simp
    ultimately show ?thesis by (simp add: funpow_swap1)
  next
    case False
    then show ?thesis by (subst evict_memory.simps) simp
  qed
qed

lemma purge_oldest_simps [simp]:
  "oldest_on_disk (purge_oldest ops s) = tl (oldest_on_disk s)"
  "max_on_disk_limit (purge_oldest ops s) = max_on_disk_limit s"
  "in_memory_limit (purge_oldest ops s) = in_memory_limit s"
  "present (purge_oldest ops s) = present s"
  "min_in_memory_limit (purge_oldest ops s) = min_in_memory_limit s"
  by (auto simp: purge_oldest_def split: list.splits)

lemma evict_disk_returns:
  "evict_disk ops s =
     Some (if is_memory_only s then s
           else (purge_oldest ops ^^ (Suc (length (oldest_on_disk s)) - max_on_disk_limit s)) s)"
proof (induction "length (oldest_on_disk s)" arbitrary: s)
  case 0
  then show ?case by (subst evict_disk.simps) (auto simp: is_memory_only_def)
next
  case (Suc n)
  show ?case
  proof (cases "\<not> is_memory_only s \<and> max_on_disk_limit s \<le> length (oldest_on_disk s)")
    case True
    then have "evict_disk ops s =
        Some ((purge_oldest ops ^^ (Suc n - max_on_disk_limit s)) (purge_oldest ops s))"
      using Suc.hyps(1) [of "purge_oldest ops s"] Suc.hyps(2)
      by (subst evict_disk.simps) (simp add: is_memory_only_def)
    moreover have "Suc (length (oldest_on_disk s)) - max_on_disk_limit s = Suc (Suc n - max_on_disk_limit s)"
      using True Suc.hyps(2) by (simp add: Suc_diff_le)
    ultimately show ?thesis using True by (simp add: funpow_swap1)
  next
    case False
    then show ?thesis by (subst evict_disk.simps) (auto simp: is_memory_only_def)
  qed
qed

section \<open>Refinement: a sliding window over the inserted states\<close>

text \<open>
  The bookkeeping invariant: the two queues list the hashes of the two maps, each once, oldest first,
  and the file of every state on disk is there. \<open>files\<close> reads the content of the cache directory.
\<close>

definition states_wf :: "('disk \<Rightarrow> b256 \<Rightarrow> 'snap option) \<Rightarrow> ('db, 'disk) InMemoryBlockStates \<Rightarrow> bool" where
  "states_wf files s \<longleftrightarrow>
     distinct (oldest_on_disk s @ present s) \<and>
     fset (fmdom (states s)) = set (present s) \<and>
     fset (fmdom (on_disk_states s)) = set (oldest_on_disk s) \<and>
     (is_memory_only s \<longrightarrow> oldest_on_disk s = []) \<and>
     (\<forall>h \<in> set (oldest_on_disk s). files (disk_cache s) h \<noteq> None)"

text \<open>What a client sees of the state of a block.\<close>

definition recall ::
    "('db, 'snap, 'disk) disk_ops \<Rightarrow> ('db \<Rightarrow> 'v) \<Rightarrow> ('db, 'disk) InMemoryBlockStates \<Rightarrow> b256 \<Rightarrow> 'v option" where
  "recall ops view s h = map_option view (fst (states_get ops h s))"

text \<open>
  The specification of an insertion: the memory limit shrinks by one when memory is full, the oldest
  states in memory move on to disk (or are dropped without a disk), and the oldest on disk are dropped.
\<close>

definition limit_after :: "('db, 'disk) InMemoryBlockStates \<Rightarrow> nat" where
  "limit_after s =
     (if \<not> is_memory_only s \<and> in_memory_limit s \<le> length (present s)
      then max (in_memory_limit s - 1) (min_in_memory_limit s) else in_memory_limit s)"

definition window_after :: "('db, 'disk) InMemoryBlockStates \<Rightarrow> b256 list \<times> b256 list" where
  "window_after s =
     (let moved = Suc (length (present s)) - limit_after s;
          on_disk = oldest_on_disk s @ take moved (present s)
      in (if is_memory_only s then [] else drop (Suc (length on_disk) - max_on_disk_limit s) on_disk,
          drop moved (present s)))"

text \<open>
  The contract with the database and the cache directory: a state that is cleared and initialised
  again from its snapshot shows the same content, initialising twice is the same as once, and the
  directory behaves as a map.
\<close>

locale state_codec =
  fixes ops :: "('db, 'snap, 'disk) disk_ops"
    and view :: "'db \<Rightarrow> 'v"
    and files :: "'disk \<Rightarrow> b256 \<Rightarrow> 'snap option"
  assumes codec: "clear_into ops db = (snap, db') \<Longrightarrow> view (init_from ops snap db') = view db"
    and reload: "view (init_from ops snap (init_from ops snap db)) = view (init_from ops snap db)"
    and written: "files (disk_write ops h snap d) = (files d)(h \<mapsto> snap)"
    and looked_up: "fst (disk_read ops h d) = files d h" "files (snd (disk_read ops h d)) = files d"
    and removed: "files (disk_remove ops h d) = (files d)(h := None)"
begin

lemma recall_cases:
  "recall ops view s g =
     (case fmlookup (states s) g of
        Some st \<Rightarrow> Some (view st)
      | None \<Rightarrow> (case fmlookup (on_disk_states s) g of
                   None \<Rightarrow> None
                 | Some st \<Rightarrow> map_option (\<lambda>sn. view (init_from ops sn st)) (files (disk_cache s) g)))"
proof -
  obtain r d where "disk_read ops g (disk_cache s) = (r, d)" by fastforce
  moreover from this looked_up(1) [of g "disk_cache s"] have "files (disk_cache s) g = r" by simp
  ultimately show ?thesis
    by (auto simp: recall_def states_get_def Let_def split: option.splits)
qed

lemma evict_oldest_refines:
  assumes "states_wf files s" and "present s = h # rest"
  defines "s' \<equiv> evict_oldest ops s"
  shows "states_wf files s'" and "present s' = rest"
    and "oldest_on_disk s' = (if is_memory_only s then [] else oldest_on_disk s @ [h])"
    and "max_on_disk_limit s' = max_on_disk_limit s"
    and "recall ops view s' g = (if is_memory_only s \<and> g = h then None else recall ops view s g)"
proof -
  from assms(1,2) have "h \<in> fset (fmdom (states s))" by (simp add: states_wf_def)
  then obtain st where st: "fmlookup (states s) h = Some st" by (auto simp: fmlookup_dom_iff)
  obtain snap st' where c: "clear_into ops st = (snap, st')" by fastforce
  have s': "s' = (if is_memory_only s then s\<lparr>present := rest, states := fmdrop h (states s)\<rparr>
      else s\<lparr>present := rest, states := fmdrop h (states s),
             disk_cache := disk_write ops h snap (disk_cache s),
             on_disk_states := fmupd h st' (on_disk_states s), oldest_on_disk := oldest_on_disk s @ [h]\<rparr>)"
    by (simp add: s'_def evict_oldest_def assms(2) st c)
  show "states_wf files s'"
    using assms(1,2) unfolding states_wf_def s' by (auto simp: is_memory_only_def written)
  show "present s' = rest" "max_on_disk_limit s' = max_on_disk_limit s"
    "oldest_on_disk s' = (if is_memory_only s then [] else oldest_on_disk s @ [h])"
    using assms(1) by (simp_all add: s' states_wf_def)
  have "fmlookup (on_disk_states s) h = None"
    using assms(1,2) by (auto simp: states_wf_def fmdom_notD)
  then show "recall ops view s' g = (if is_memory_only s \<and> g = h then None else recall ops view s g)"
    using st codec [OF c] unfolding recall_cases s' by (auto simp: written split: option.splits)
qed

lemma evict_many_refines:
  assumes "states_wf files s" and "n \<le> length (present s)"
  defines "s' \<equiv> (evict_oldest ops ^^ n) s"
  shows "states_wf files s' \<and> present s' = drop n (present s) \<and>
     oldest_on_disk s' = (if is_memory_only s then [] else oldest_on_disk s @ take n (present s)) \<and>
     max_on_disk_limit s' = max_on_disk_limit s \<and>
     (\<forall>g. recall ops view s' g =
        (if is_memory_only s \<and> g \<in> set (take n (present s)) then None else recall ops view s g))"
  using assms(2) unfolding s'_def
proof (induction n)
  case 0
  then show ?case using assms(1) by (auto simp: states_wf_def)
next
  case (Suc n)
  let ?t = "(evict_oldest ops ^^ n) s"
  from Suc have IH: "states_wf files ?t" "present ?t = drop n (present s)"
    "oldest_on_disk ?t = (if is_memory_only s then [] else oldest_on_disk s @ take n (present s))"
    "max_on_disk_limit ?t = max_on_disk_limit s"
    "\<And>g. recall ops view ?t g =
       (if is_memory_only s \<and> g \<in> set (take n (present s)) then None else recall ops view s g)"
    by auto
  from Suc.prems have next_: "present ?t = present s ! n # drop (Suc n) (present s)"
    by (simp add: IH(2) Cons_nth_drop_Suc)
  have mo: "is_memory_only ?t = is_memory_only s" using IH(4) by (simp add: is_memory_only_def)
  note step = evict_oldest_refines [OF IH(1) next_, unfolded mo]
  have "take (Suc n) (present s) = take n (present s) @ [present s ! n]"
    using Suc.prems by (simp add: take_Suc_conv_app_nth)
  then show ?case
    using step IH(3,4,5) by auto
qed

lemma purge_oldest_refines:
  assumes "states_wf files s" and "oldest_on_disk s = h # rest"
  shows "states_wf files (purge_oldest ops s)"
    and "recall ops view (purge_oldest ops s) g = (if g = h then None else recall ops view s g)"
proof -
  have s': "purge_oldest ops s =
      s\<lparr>oldest_on_disk := rest, on_disk_states := fmdrop h (on_disk_states s),
        disk_cache := disk_remove ops h (disk_cache s)\<rparr>"
    by (simp add: purge_oldest_def assms(2))
  show "states_wf files (purge_oldest ops s)"
    using assms unfolding states_wf_def s' by (auto simp: is_memory_only_def removed)
  have "fmlookup (states s) h = None"
    using assms by (auto simp: states_wf_def fmdom_notD)
  then show "recall ops view (purge_oldest ops s) g = (if g = h then None else recall ops view s g)"
    unfolding recall_cases s' by (auto simp: removed split: option.splits)
qed

lemma purge_many_refines:
  assumes "states_wf files s" and "n \<le> length (oldest_on_disk s)"
  defines "s' \<equiv> (purge_oldest ops ^^ n) s"
  shows "states_wf files s' \<and> present s' = present s \<and> oldest_on_disk s' = drop n (oldest_on_disk s) \<and>
     max_on_disk_limit s' = max_on_disk_limit s \<and>
     (\<forall>g. recall ops view s' g =
        (if g \<in> set (take n (oldest_on_disk s)) then None else recall ops view s g))"
  using assms(2) unfolding s'_def
proof (induction n)
  case (Suc n)
  let ?t = "(purge_oldest ops ^^ n) s"
  from Suc have IH: "states_wf files ?t" "oldest_on_disk ?t = drop n (oldest_on_disk s)" by auto
  from Suc.prems have "oldest_on_disk ?t = oldest_on_disk s ! n # drop (Suc n) (oldest_on_disk s)"
    by (simp add: IH(2) Cons_nth_drop_Suc)
  note step = purge_oldest_refines [OF IH(1) this]
  have "take (Suc n) (oldest_on_disk s) = take n (oldest_on_disk s) @ [oldest_on_disk s ! n]"
    using Suc.prems by (simp add: take_Suc_conv_app_nth)
  then show ?case using step Suc by (auto simp: drop_Suc tl_drop)
qed (simp add: assms(1))

lemma recall_outside: "states_wf files s \<Longrightarrow> g \<notin> set (oldest_on_disk s @ present s) \<Longrightarrow> recall ops view s g = None"
  unfolding recall_cases states_wf_def by (auto simp: fmdom_notD)

lemma enforce_limits_refines:
  assumes wf: "states_wf files s" and pos: "0 < in_memory_limit s"
  defines "moved \<equiv> Suc (length (present s)) - in_memory_limit s"
  defines "on_disk \<equiv> oldest_on_disk s @ take moved (present s)"
  shows "\<exists>s'. enforce_limits ops s = Some s' \<and> states_wf files s' \<and> max_on_disk_limit s' = max_on_disk_limit s \<and>
     present s' = drop moved (present s) \<and>
     oldest_on_disk s' = (if is_memory_only s then [] else drop (Suc (length on_disk) - max_on_disk_limit s) on_disk) \<and>
     (\<forall>g. recall ops view s' g =
        (if g \<in> set (oldest_on_disk s' @ present s') then recall ops view s g else None))"
proof -
  let ?t = "(evict_oldest ops ^^ moved) s"
  have "moved \<le> length (present s)" using pos by (simp add: moved_def)
  note t = evict_many_refines [OF wf this]
  have mo: "is_memory_only ?t = is_memory_only s" using t by (simp add: is_memory_only_def)
  have mem: "evict_memory ops s = Some ?t" unfolding moved_def by (rule evict_memory_returns [OF pos])
  show ?thesis
  proof (cases "is_memory_only s")
    case True
    then have "enforce_limits ops s = Some ?t"
      unfolding enforce_limits_def mem by (simp add: evict_disk_returns mo)
    moreover have "recall ops view ?t g = (if g \<in> set (present ?t) then recall ops view s g else None)" for g
    proof -
      have "set (take moved (present s)) \<inter> set (drop moved (present s)) = {}"
        using wf by (intro set_take_disj_set_drop_if_distinct) (simp_all add: states_wf_def)
      then show ?thesis
        using t True recall_outside [of ?t g] by auto
    qed
    ultimately show ?thesis using t True by auto
  next
    case False
    let ?n = "Suc (length on_disk) - max_on_disk_limit s"
    let ?u = "(purge_oldest ops ^^ ?n) ?t"
    have old: "oldest_on_disk ?t = on_disk" "max_on_disk_limit ?t = max_on_disk_limit s"
      using t False by (simp_all add: on_disk_def)
    then have "?n \<le> length (oldest_on_disk ?t)" using False by (simp add: is_memory_only_def)
    note u = purge_many_refines [OF _ this, unfolded old]
    have "enforce_limits ops s = Some ?u"
      unfolding enforce_limits_def mem using False by (simp add: evict_disk_returns mo old)
    moreover have "recall ops view ?u g =
        (if g \<in> set (oldest_on_disk ?u @ present ?u) then recall ops view s g else None)" for g
    proof -
      have "distinct (on_disk @ present ?t)" using t unfolding states_wf_def old(1) by blast
      then have "set (take ?n on_disk) \<inter> set (drop ?n on_disk) = {}" "set (take ?n on_disk) \<inter> set (present ?t) = {}"
        using set_take_disj_set_drop_if_distinct [of on_disk ?n ?n] set_take_subset [of ?n on_disk] by auto
      then show ?thesis
        using u t False recall_outside [of ?u g] by (auto simp del: funpow.simps)
    qed
    ultimately show ?thesis using t u False by auto
  qed
qed

lemma insert_refines:
  assumes wf: "states_wf files s" and pos: "0 < limit_after s" and fresh: "h \<notin> set (oldest_on_disk s @ present s)"
  shows "\<exists>s'. states_insert ops h st s = Some s' \<and> states_wf files s' \<and>
     (oldest_on_disk s', present s') = (fst (window_after s), snd (window_after s) @ [h]) \<and>
     (\<forall>g. recall ops view s' g =
        (if g = h then Some (view st)
         else if g \<in> set (oldest_on_disk s' @ present s') then recall ops view s g else None))"
proof -
  let ?s1 = "s\<lparr>in_memory_limit := limit_after s\<rparr>"
  have s1: "(if \<not> is_memory_only s \<and> in_memory_limit s \<le> length (present s)
      then s\<lparr>in_memory_limit := max (in_memory_limit s - 1) (min_in_memory_limit s)\<rparr> else s) = ?s1"
    by (simp add: limit_after_def)
  have "states_wf files ?s1" using wf by (simp add: states_wf_def is_memory_only_def)
  moreover have "recall ops view ?s1 g = recall ops view s g" for g
    by (simp add: recall_cases split: option.split)
  ultimately obtain s2 where s2: "enforce_limits ops ?s1 = Some s2" "states_wf files s2"
    "max_on_disk_limit s2 = max_on_disk_limit s"
    "(oldest_on_disk s2, present s2) = window_after s"
    "\<And>g. recall ops view s2 g =
       (if g \<in> set (oldest_on_disk s2 @ present s2) then recall ops view s g else None)"
    using enforce_limits_refines [of ?s1] pos
    by (auto simp: window_after_def Let_def is_memory_only_def)
  let ?s' = "s2\<lparr>states := fmupd h st (states s2), present := present s2 @ [h]\<rparr>"
  have "set (oldest_on_disk s2 @ present s2) \<subseteq> set (oldest_on_disk s @ present s)"
    using s2(4) by (auto simp: window_after_def Let_def split: if_splits dest!: in_set_dropD in_set_takeD)
  with fresh have new: "h \<notin> set (oldest_on_disk s2 @ present s2)" by blast
  have "states_insert ops h st s = Some ?s'" unfolding states_insert_def Let_def s1 s2(1) by simp
  moreover have "states_wf files ?s'" using s2(2) new by (auto simp: states_wf_def is_memory_only_def)
  moreover have "recall ops view ?s' g = (if g = h then Some (view st) else recall ops view s2 g)" for g
    by (simp add: recall_cases split: option.split)
  ultimately show ?thesis using s2(5) by (auto simp flip: s2(4))
qed

lemma get_keeps:
  assumes "states_wf files s" and "states_get ops h s = (r, s')"
  shows "states_wf files s' \<and> recall ops view s' = recall ops view s"
proof (cases "fst (disk_read ops h (disk_cache s)) = None \<or> fmlookup (states s) h \<noteq> None \<or> fmlookup (on_disk_states s) h = None")
  case True
  then have "s' = s \<or> s' = s\<lparr>disk_cache := snd (disk_read ops h (disk_cache s))\<rparr>"
    using assms(2) by (auto simp: states_get_def split: option.splits prod.splits)
  then show ?thesis
    using assms(1) by (auto simp: states_wf_def recall_cases looked_up is_memory_only_def fun_eq_iff cong: option.case_cong)
next
  case False
  then obtain snap st where snap: "files (disk_cache s) h = Some snap" "fst (disk_read ops h (disk_cache s)) = Some snap"
    and st: "fmlookup (on_disk_states s) h = Some st" "fmlookup (states s) h = None"
    using looked_up(1) by auto
  then have "s' = s\<lparr>disk_cache := snd (disk_read ops h (disk_cache s)),
      on_disk_states := fmupd h (init_from ops snap st) (on_disk_states s)\<rparr>"
    using assms(2) by (auto simp: states_get_def Let_def split: option.splits prod.splits)
  moreover have "h \<in> set (oldest_on_disk s)"
    using assms(1) st(1) by (auto simp: states_wf_def dest: fmdomI)
  ultimately show ?thesis
    using assms(1) snap st
    by (auto simp: states_wf_def recall_cases looked_up is_memory_only_def fun_eq_iff reload cong: option.case_cong)
qed

end

section \<open>The contract of the cached database\<close>

text \<open>
  A cache directory on which every operation succeeds. This is what the operating system documents
  for files that no other process touches.
\<close>

definition faithful_disk ::
    "('disk \<Rightarrow> b256 \<Rightarrow> 'snap option) \<Rightarrow> ('db, 'snap, 'disk) disk_ops \<Rightarrow> bool" where
  "faithful_disk files ops \<longleftrightarrow>
     (\<forall>h snap d. files (disk_write ops h snap d) = (files d)(h \<mapsto> snap)) \<and>
     (\<forall>h d. fst (disk_read ops h d) = files d h \<and> files (snd (disk_read ops h d)) = files d) \<and>
     (\<forall>h d. files (disk_remove ops h d) = (files d)(h := None))"

lemma cached_database_codec:
  assumes "enumerates ao" and "clear_into ops = clear_into_state_snapshot ao"
    and "init_from ops = init_from_state_snapshot ao" and "faithful_disk files ops"
  shows "state_codec ops db_view files"
  using assms
  by unfold_locales (simp_all add: cache_codec cache_reload faithful_disk_def)

text \<open>The model's own database over a directory that is a map.\<close>

definition map_disk_ops ::
    "('c CacheDB, 'c StateSnapshot, (b256, 'c StateSnapshot) fmap) disk_ops" where
  "map_disk_ops =
     \<lparr>clear_into = clear_into_state_snapshot sorted_list_of_fset,
      init_from = init_from_state_snapshot sorted_list_of_fset,
      read_snapshot = read_as_state_snapshot, disk_write = fmupd,
      disk_read = (\<lambda>h d. (fmlookup d h, d)), disk_remove = fmdrop\<rparr>"

lemma map_disk_faithful: "faithful_disk fmlookup map_disk_ops"
  by (simp add: faithful_disk_def map_disk_ops_def fun_eq_iff)

lemma map_disk_codec:
  "clear_into map_disk_ops = clear_into_state_snapshot sorted_list_of_fset"
  "init_from map_disk_ops = init_from_state_snapshot sorted_list_of_fset"
  by (simp_all add: map_disk_ops_def)

lemmas map_disk = enumerates_sorted_list_of_fset map_disk_codec map_disk_faithful

interpretation cached_states: state_codec map_disk_ops db_view fmlookup
  by (rule cached_database_codec [OF map_disk])

section \<open>Every sequence of operations returns\<close>

datatype ('db, 'snap) StatesOp =
  StatesInsert b256 'db | StatesGet b256 | StatesInterval u64 | StatesLimit nat | StatesClear
| StatesLoad "(b256 \<times> 'snap) list"

fun states_step ::
    "('db, 'snap, 'disk) disk_ops \<Rightarrow> 'db \<Rightarrow> ('db, 'snap) StatesOp \<Rightarrow> ('db, 'disk) InMemoryBlockStates
       \<Rightarrow> ('db, 'disk) InMemoryBlockStates option" where
  "states_step ops empty_db (StatesInsert h st) s = states_insert ops h st s"
| "states_step ops empty_db (StatesGet h) s = Some (snd (states_get ops h s))"
| "states_step ops empty_db (StatesInterval t) s = update_interval_mine_block_time ops t s"
| "states_step ops empty_db (StatesLimit n) s = Some (set_cache_limit n s)"
| "states_step ops empty_db StatesClear s = Some (states_clear ops s)"
| "states_step ops empty_db (StatesLoad l) s = load_states ops empty_db l s"

fun positive_limit :: "('db, 'snap) StatesOp \<Rightarrow> bool" where
  "positive_limit (StatesLimit n) \<longleftrightarrow> 0 < n"
| "positive_limit _ \<longleftrightarrow> True"

definition limits_pos :: "('db, 'disk) InMemoryBlockStates \<Rightarrow> bool" where
  "limits_pos s \<longleftrightarrow> 0 < in_memory_limit s \<and> 0 < min_in_memory_limit s"

lemma evict_oldest_min [simp]: "min_in_memory_limit (evict_oldest ops s) = min_in_memory_limit s"
  by (auto simp: evict_oldest_def Let_def split: list.splits option.splits prod.splits)

lemma evict_many_limits [simp]:
  "in_memory_limit ((evict_oldest ops ^^ n) s) = in_memory_limit s"
  "min_in_memory_limit ((evict_oldest ops ^^ n) s) = min_in_memory_limit s"
  "in_memory_limit ((purge_oldest ops ^^ n) s) = in_memory_limit s"
  "min_in_memory_limit ((purge_oldest ops ^^ n) s) = min_in_memory_limit s"
  by (induction n) simp_all

lemma enforce_limits_pos: "limits_pos s \<Longrightarrow> \<exists>s'. enforce_limits ops s = Some s' \<and> limits_pos s'"
  by (auto simp: enforce_limits_def limits_pos_def evict_memory_returns evict_disk_returns)

lemma states_insert_pos:
  assumes "limits_pos s"
  shows "\<exists>s'. states_insert ops h st s = Some s' \<and> limits_pos s'"
proof -
  let ?s1 = "if \<not> is_memory_only s \<and> in_memory_limit s \<le> length (present s)
    then s\<lparr>in_memory_limit := max (in_memory_limit s - 1) (min_in_memory_limit s)\<rparr> else s"
  have "limits_pos ?s1" using assms by (auto simp: limits_pos_def)
  then obtain s2 where "enforce_limits ops ?s1 = Some s2" "limits_pos s2" using enforce_limits_pos by blast
  then show ?thesis unfolding states_insert_def Let_def by (simp add: limits_pos_def)
qed

lemma load_states_pos: "limits_pos s \<Longrightarrow> \<exists>s'. load_states ops empty_db l s = Some s' \<and> limits_pos s'"
proof (induction l arbitrary: s)
  case (Cons p l)
  obtain h snap where "p = (h, snap)" by fastforce
  with Cons states_insert_pos [OF Cons.prems, of ops h "init_from ops snap empty_db"] show ?case by auto
qed simp

lemma states_get_limits:
  "in_memory_limit (snd (states_get ops h s)) = in_memory_limit s"
  "min_in_memory_limit (snd (states_get ops h s)) = min_in_memory_limit s"
  by (auto simp: states_get_def Let_def split: option.splits prod.splits)

interpretation states_ops: op_system "states_step ops empty_db" positive_limit limits_pos
  for ops :: "('db, 'snap, 'disk) disk_ops" and empty_db :: 'db
proof
  fix s :: "('db, 'disk) InMemoryBlockStates" and x :: "('db, 'snap) StatesOp"
  assume "limits_pos s" "positive_limit x"
  then show "\<exists>s'. states_step ops empty_db x s = Some s' \<and> limits_pos s'"
  proof (cases x)
    case (StatesInterval t)
    have "limits_pos (s\<lparr>in_memory_limit := DEFAULT_HISTORY_LIMIT * 3\<rparr>)"
      using \<open>limits_pos s\<close> by (simp add: limits_pos_def DEFAULT_HISTORY_LIMIT_def)
    from enforce_limits_pos [OF this, of ops] \<open>limits_pos s\<close> StatesInterval show ?thesis
      by (auto simp: update_interval_mine_block_time_def)
  next
    case (StatesLimit n)
    with \<open>limits_pos s\<close> \<open>positive_limit x\<close> show ?thesis by (simp add: set_cache_limit_def limits_pos_def)
  next
    case (StatesGet h)
    with \<open>limits_pos s\<close> show ?thesis by (simp add: limits_pos_def states_get_limits)
  next
    case StatesClear
    with \<open>limits_pos s\<close> show ?thesis by (simp add: limits_pos_def states_clear_def)
  qed (simp_all add: states_insert_pos load_states_pos)
qed

section \<open>Properties\<close>


definition sample_db :: "nat CacheDB" where
  "sample_db =
     \<lparr>accounts = fmupd 1 \<lparr>info = \<lparr>balance = 5, nonce = 1, code_hash = 9, code = Some 77\<rparr>,
                          storage = fmupd 0 3 fmempty, account_state = AccTouched\<rparr> fmempty,
      contracts = fmupd 9 77 fmempty, cached_block_hashes = fmempty\<rparr>"

text \<open>One state in memory, with room for one in memory and four on disk.\<close>

definition sample_states :: "(nat CacheDB, (b256, nat StateSnapshot) fmap) InMemoryBlockStates" where
  "sample_states = (BlockStates_new fmempty 1 5)\<lparr>states := fmupd 1 sample_db fmempty, present := [1]\<rparr>"

lemma sample_states_wf: "states_wf fmlookup sample_states" "0 < limit_after sample_states"
  by (simp_all add: sample_states_def states_wf_def limit_after_def BlockStates_new_def is_memory_only_def
      MIN_HISTORY_LIMIT_def)

lemma sample_window: "window_after sample_states = ([1], [])"
  by (simp add: sample_states_def window_after_def limit_after_def BlockStates_new_def is_memory_only_def
      MIN_HISTORY_LIMIT_def Let_def)




text \<open>
  Insertion returns exactly when the memory limit that applies to it is positive: with a limit of
  zero the eviction loop never ends.
\<close>

theorem states_insert_returns_iff: "(\<exists>s'. states_insert ops h st s = Some s') \<longleftrightarrow> 0 < limit_after s"
proof -
  have s1: "(if \<not> is_memory_only s \<and> in_memory_limit s \<le> length (present s)
      then s\<lparr>in_memory_limit := max (in_memory_limit s - 1) (min_in_memory_limit s)\<rparr> else s) =
      s\<lparr>in_memory_limit := limit_after s\<rparr>"
    by (simp add: limit_after_def)
  have "evict_memory ops (s\<lparr>in_memory_limit := limit_after s\<rparr>) \<noteq> None \<longleftrightarrow> 0 < limit_after s"
    using evict_memory_returns [of "s\<lparr>in_memory_limit := limit_after s\<rparr>" ops]
      evict_memory_limit_pos [of ops "s\<lparr>in_memory_limit := limit_after s\<rparr>"] by auto
  then show ?thesis
    unfolding states_insert_def Let_def s1 enforce_limits_def
    by (auto simp: evict_disk_returns)
qed

text \<open>
  C21. Block states configured with a positive memory limit, and whose limit is never set to zero,
  return from every sequence of operations.
\<close>

theorem block_states_always_return:
  assumes "0 < mem_limit" and "list_all positive_limit xs"
  shows "\<exists>s'. run_ops (states_step ops empty_db) xs (BlockStates_new disk mem_limit on_disk_limit) = Some s' \<and>
     limits_pos s'"
  by (rule states_ops.run_inv [OF _ assms(2)])
    (use assms(1) in \<open>simp add: limits_pos_def BlockStates_new_def MIN_HISTORY_LIMIT_def\<close>)

theorem block_states_always_return_witness:
  "\<exists>s'. run_ops (states_step map_disk_ops sample_db) [StatesInsert 1 sample_db, StatesLimit 3, StatesInsert 2 sample_db]
     (BlockStates_new fmempty 1 0) = Some s' \<and> limits_pos s'"
  by (rule block_states_always_return) simp_all

text \<open>
  A database cleared into a snapshot and initialised from it again is the same but for the inlined
  code of its accounts, which is kept in the contract table, and their account state, which is reset.
\<close>

theorem snapshot_roundtrip:
  assumes "enumerates ao" and "clear_into_state_snapshot ao db = (snap, db')"
  shows "init_from_state_snapshot ao snap db' = db\<lparr>accounts := fmmap plain_account (accounts db)\<rparr>"
  by (rule cache_codec_exact [OF assms])

theorem snapshot_roundtrip_witness:
  "case clear_into_state_snapshot sorted_list_of_fset sample_db of
     (snap, db') \<Rightarrow> init_from_state_snapshot sorted_list_of_fset snap db' =
       sample_db\<lparr>accounts := fmmap plain_account (accounts sample_db)\<rparr>"
  by (auto split: prod.split intro: snapshot_roundtrip enumerates_sorted_list_of_fset)



end
