(* ===== verification/Chain_Storage.thy ===== *)
theory Chain_Storage
  imports Prelude
begin

text \<open>
  The block storage of anvil: headers and blocks (anvil/core/src/eth/block.rs), \<open>BlockchainStorage\<close>
  and \<open>Blockchain\<close> (anvil/src/eth/backend/mem/storage.rs), and the parts of the backend that write to
  the storage: recording a mined block, reverting to a snapshot and loading a saved chain
  (anvil/src/eth/backend/mem/mod.rs). Hashing and the roots of tries are parameters (\<open>chain_ops\<close>).
\<close>

section \<open>Blocks\<close>

record Header =
  parent_hash :: b256
  ommers_hash :: b256
  beneficiary :: address
  state_root :: b256
  transactions_root :: b256
  receipts_root :: b256
  logs_bloom :: bytes
  difficulty :: u256
  number :: u64
  gas_limit :: u64
  gas_used :: u64
  timestamp :: u64
  extra_data :: bytes
  mix_hash :: b256
  header_nonce :: u64
  base_fee_per_gas :: "u64 option"
  withdrawals_root :: "b256 option"
  blob_gas_used :: "u64 option"
  excess_blob_gas :: "u64 option"
  parent_beacon_block_root :: "b256 option"
  requests_hash :: "b256 option"

record PartialHeader =
  ph_parent_hash :: b256
  ph_beneficiary :: address
  ph_state_root :: b256
  ph_receipts_root :: b256
  ph_logs_bloom :: bytes
  ph_difficulty :: u256
  ph_number :: u64
  ph_gas_limit :: u64
  ph_gas_used :: u64
  ph_timestamp :: u64
  ph_extra_data :: bytes
  ph_mix_hash :: b256
  ph_blob_gas_used :: "u64 option"
  ph_excess_blob_gas :: "u64 option"
  ph_parent_beacon_block_root :: "b256 option"
  ph_nonce :: u64
  ph_base_fee :: "u64 option"
  ph_withdrawals_root :: "b256 option"
  ph_requests_hash :: "b256 option"

record 'tx Block =
  header :: Header
  block_transactions :: "'tx list"
  ommers :: "Header list"

record 'tx chain_ops =
  hash_slow :: "Header \<Rightarrow> b256"
  block_tx_hash :: "'tx \<Rightarrow> b256"
  calculate_transaction_root :: "'tx list \<Rightarrow> b256"
  EMPTY_OMMER_ROOT_HASH :: b256
  EMPTY_WITHDRAWALS :: b256
  EMPTY_REQUESTS_HASH :: b256

definition Block_new :: "'tx chain_ops \<Rightarrow> PartialHeader \<Rightarrow> 'tx list \<Rightarrow> 'tx Block" where
  "Block_new ops ph txs =
     \<lparr>header =
        \<lparr>parent_hash = ph_parent_hash ph, ommers_hash = EMPTY_OMMER_ROOT_HASH ops, beneficiary = ph_beneficiary ph,
         state_root = ph_state_root ph, transactions_root = calculate_transaction_root ops txs,
         receipts_root = ph_receipts_root ph, logs_bloom = ph_logs_bloom ph, difficulty = ph_difficulty ph,
         number = ph_number ph, gas_limit = ph_gas_limit ph, gas_used = ph_gas_used ph,
         timestamp = ph_timestamp ph, extra_data = ph_extra_data ph, mix_hash = ph_mix_hash ph,
         header_nonce = ph_nonce ph, base_fee_per_gas = ph_base_fee ph,
         withdrawals_root = ph_withdrawals_root ph, blob_gas_used = ph_blob_gas_used ph,
         excess_blob_gas = ph_excess_blob_gas ph, parent_beacon_block_root = ph_parent_beacon_block_root ph,
         requests_hash = ph_requests_hash ph\<rparr>,
      block_transactions = txs, ommers = []\<rparr>"

definition PartialHeader_from :: "Header \<Rightarrow> PartialHeader" where
  "PartialHeader_from h =
     \<lparr>ph_parent_hash = parent_hash h, ph_beneficiary = beneficiary h, ph_state_root = state_root h,
      ph_receipts_root = receipts_root h, ph_logs_bloom = logs_bloom h, ph_difficulty = difficulty h,
      ph_number = number h, ph_gas_limit = gas_limit h, ph_gas_used = gas_used h, ph_timestamp = timestamp h,
      ph_extra_data = extra_data h, ph_mix_hash = mix_hash h, ph_blob_gas_used = blob_gas_used h,
      ph_excess_blob_gas = excess_blob_gas h, ph_parent_beacon_block_root = parent_beacon_block_root h,
      ph_nonce = header_nonce h, ph_base_fee = base_fee_per_gas h, ph_withdrawals_root = withdrawals_root h,
      ph_requests_hash = requests_hash h\<rparr>"

text \<open>\<open>PartialHeader::default()\<close>; the bloom is 256 zero bytes.\<close>

definition PartialHeader_default :: PartialHeader where
  "PartialHeader_default =
     \<lparr>ph_parent_hash = 0, ph_beneficiary = 0, ph_state_root = 0, ph_receipts_root = 0,
      ph_logs_bloom = replicate 256 0, ph_difficulty = 0, ph_number = 0, ph_gas_limit = 0, ph_gas_used = 0,
      ph_timestamp = 0, ph_extra_data = [], ph_mix_hash = 0, ph_blob_gas_used = None,
      ph_excess_blob_gas = None, ph_parent_beacon_block_root = None, ph_nonce = 0, ph_base_fee = None,
      ph_withdrawals_root = None, ph_requests_hash = None\<rparr>"

section \<open>Storage\<close>

record 'i TransactionInfo =
  transaction_hash :: b256
  transaction_details :: 'i

record ('i, 'r) MinedTransaction =
  mined_info :: "'i TransactionInfo"
  mined_receipt :: 'r
  mined_block_hash :: b256
  mined_block_number :: u64

record ('tx, 'i, 'r) BlockchainStorage =
  blocks :: "(b256, 'tx Block) fmap"
  hashes :: "(u64, b256) fmap"
  best_hash :: b256
  best_number :: u64
  genesis_hash :: b256
  transactions :: "(b256, ('i, 'r) MinedTransaction) fmap"
  total_difficulty :: u256

text \<open>The part of the environment that the genesis block takes its values from.\<close>

record BlockEnv =
  env_gas_limit :: u64
  env_beneficiary :: address
  env_difficulty :: u256
  env_blob_excess_gas_and_price :: "(u64 \<times> u128) option"

text \<open>The hard fork is compared with the three that change the header.\<close>

record 's spec_ids =
  SHANGHAI :: 's
  CANCUN :: 's
  PRAGUE :: 's

definition Storage_new ::
    "'tx chain_ops \<Rightarrow> 's::linorder spec_ids \<Rightarrow> BlockEnv \<Rightarrow> 's \<Rightarrow> u64 option \<Rightarrow> u64 \<Rightarrow> u64
       \<Rightarrow> ('tx, 'i, 'r) BlockchainStorage" where
  "Storage_new ops ids env spec_id base_fee start_timestamp genesis_number =
     (let is_shanghai = SHANGHAI ids \<le> spec_id;
          is_cancun = CANCUN ids \<le> spec_id;
          is_prague = PRAGUE ids \<le> spec_id;
          partial_header = PartialHeader_default
            \<lparr>ph_timestamp := start_timestamp, ph_base_fee := base_fee, ph_gas_limit := env_gas_limit env,
             ph_beneficiary := env_beneficiary env, ph_difficulty := env_difficulty env,
             ph_blob_gas_used := map_option (\<lambda>_. 0) (env_blob_excess_gas_and_price env),
             ph_excess_blob_gas := map_option fst (env_blob_excess_gas_and_price env),
             ph_number := genesis_number,
             ph_parent_beacon_block_root := (if is_cancun then Some 0 else None),
             ph_withdrawals_root := (if is_shanghai then Some (EMPTY_WITHDRAWALS ops) else None),
             ph_requests_hash := (if is_prague then Some (EMPTY_REQUESTS_HASH ops) else None)\<rparr>;
          block = Block_new ops partial_header [];
          hash = hash_slow ops (header block)
      in \<lparr>blocks = fmupd hash block fmempty, hashes = fmupd genesis_number hash fmempty, best_hash = hash,
          best_number = genesis_number, genesis_hash = hash, transactions = fmempty, total_difficulty = 0\<rparr>)"

definition Storage_forked :: "u64 \<Rightarrow> b256 \<Rightarrow> u256 \<Rightarrow> ('tx, 'i, 'r) BlockchainStorage" where
  "Storage_forked block_number block_hash td =
     \<lparr>blocks = fmempty, hashes = fmupd block_number block_hash fmempty, best_hash = block_hash,
      best_number = block_number, genesis_hash = 0, transactions = fmempty, total_difficulty = td\<rparr>"

definition Storage_empty :: "('tx, 'i, 'r) BlockchainStorage" where
  "Storage_empty =
     \<lparr>blocks = fmempty, hashes = fmempty, best_hash = 0, best_number = 0, genesis_hash = 0,
      transactions = fmempty, total_difficulty = 0\<rparr>"

text \<open>The transactions of a list are removed from the index one after the other.\<close>

definition remove_transactions ::
    "'tx chain_ops \<Rightarrow> 'tx list \<Rightarrow> (b256, 'm) fmap \<Rightarrow> (b256, 'm) fmap" where
  "remove_transactions ops txs m = fold (\<lambda>tx. fmdrop (block_tx_hash ops tx)) txs m"

definition remove_block_transactions ::
    "'tx chain_ops \<Rightarrow> b256 \<Rightarrow> ('tx, 'i, 'r) BlockchainStorage \<Rightarrow> ('tx, 'i, 'r) BlockchainStorage" where
  "remove_block_transactions ops block_hash s =
     (case fmlookup (blocks s) block_hash of
        None \<Rightarrow> s
      | Some block \<Rightarrow>
          s\<lparr>transactions := remove_transactions ops (block_transactions block) (transactions s),
            blocks := fmupd block_hash (block\<lparr>block_transactions := []\<rparr>) (blocks s)\<rparr>)"

definition remove_block_transactions_by_number ::
    "'tx chain_ops \<Rightarrow> u64 \<Rightarrow> ('tx, 'i, 'r) BlockchainStorage \<Rightarrow> ('tx, 'i, 'r) BlockchainStorage" where
  "remove_block_transactions_by_number ops num s =
     (case fmlookup (hashes s) num of None \<Rightarrow> s | Some hash \<Rightarrow> remove_block_transactions ops hash s)"

text \<open>The inclusive range \<open>a..=b\<close> of block numbers.\<close>

definition block_range :: "u64 \<Rightarrow> u64 \<Rightarrow> u64 list" where
  "block_range a b = map of_nat [unat a ..< Suc (unat b)]"

fun unwind_block ::
    "'tx chain_ops \<Rightarrow> u64 \<Rightarrow> ('tx, 'i, 'r) BlockchainStorage \<times> 'tx Block list
       \<Rightarrow> ('tx, 'i, 'r) BlockchainStorage \<times> 'tx Block list" where
  "unwind_block ops i (s, removed) =
     (case fmlookup (hashes s) i of
        None \<Rightarrow> (s, removed)
      | Some hash \<Rightarrow>
          (let s1 = s\<lparr>hashes := fmdrop i (hashes s)\<rparr> in
           case fmlookup (blocks s1) hash of
             None \<Rightarrow> (s1, removed)
           | Some block \<Rightarrow>
               (let s2 = s1\<lparr>blocks := fmdrop hash (blocks s1)\<rparr>;
                    s3 = remove_block_transactions_by_number ops (number (header block)) s2
                in (s3, removed @ [block]))))"

definition unwind_to ::
    "'tx chain_ops \<Rightarrow> u64 \<Rightarrow> b256 \<Rightarrow> ('tx, 'i, 'r) BlockchainStorage
       \<Rightarrow> ('tx, 'i, 'r) BlockchainStorage \<times> 'tx Block list" where
  "unwind_to ops block_number block_hash s =
     (let (s1, removed) = fold (unwind_block ops) (block_range (block_number + 1) (best_number s)) (s, [])
      in (s1\<lparr>best_hash := block_hash, best_number := block_number\<rparr>, removed))"

datatype BlockNumberOrTag = Latest | Finalized | Safe | Earliest | Pending | Number u64

definition storage_hash :: "BlockNumberOrTag \<Rightarrow> ('tx, 'i, 'r) BlockchainStorage \<Rightarrow> b256 option" where
  "storage_hash num s =
     (let slots_in_an_epoch = 32 in
      case num of
        Latest \<Rightarrow> Some (best_hash s)
      | Earliest \<Rightarrow> Some (genesis_hash s)
      | Pending \<Rightarrow> None
      | Number n \<Rightarrow> fmlookup (hashes s) n
      | Safe \<Rightarrow>
          (if slots_in_an_epoch < best_number s
           then fmlookup (hashes s) (best_number s - slots_in_an_epoch) else Some (genesis_hash s))
      | Finalized \<Rightarrow>
          (if slots_in_an_epoch * 2 < best_number s
           then fmlookup (hashes s) (best_number s - slots_in_an_epoch * 2) else Some (genesis_hash s)))"

text \<open>
  Saving and loading. The serialized forms carry the same data; \<open>ord\<close> is the iteration order of the
  hash map.
\<close>

definition serialized_blocks ::
    "(b256 fset \<Rightarrow> b256 list) \<Rightarrow> ('tx, 'i, 'r) BlockchainStorage \<Rightarrow> 'tx Block list" where
  "serialized_blocks ord s = List.map_filter (fmlookup (blocks s)) (ord (fmdom (blocks s)))"

definition serialized_transactions ::
    "(b256 fset \<Rightarrow> b256 list) \<Rightarrow> ('tx, 'i, 'r) BlockchainStorage \<Rightarrow> ('i, 'r) MinedTransaction list" where
  "serialized_transactions ord s = List.map_filter (fmlookup (transactions s)) (ord (fmdom (transactions s)))"

definition load_block ::
    "'tx chain_ops \<Rightarrow> 'tx Block \<Rightarrow> ('tx, 'i, 'r) BlockchainStorage \<Rightarrow> ('tx, 'i, 'r) BlockchainStorage" where
  "load_block ops block s =
     (let block_hash = hash_slow ops (header block);
          block_number = number (header block)
      in s\<lparr>blocks := fmupd block_hash block (blocks s), hashes := fmupd block_number block_hash (hashes s)\<rparr>)"

definition load_blocks ::
    "'tx chain_ops \<Rightarrow> 'tx Block list \<Rightarrow> ('tx, 'i, 'r) BlockchainStorage \<Rightarrow> ('tx, 'i, 'r) BlockchainStorage" where
  "load_blocks ops bs s = fold (load_block ops) bs s"

definition load_transactions ::
    "('i, 'r) MinedTransaction list \<Rightarrow> ('tx, 'i, 'r) BlockchainStorage \<Rightarrow> ('tx, 'i, 'r) BlockchainStorage" where
  "load_transactions txs s =
     fold (\<lambda>tx s. s\<lparr>transactions := fmupd (transaction_hash (mined_info tx)) tx (transactions s)\<rparr>) txs s"

datatype BlockId = BlockHash b256 | BlockNumber BlockNumberOrTag

definition Blockchain_hash :: "BlockId \<Rightarrow> ('tx, 'i, 'r) BlockchainStorage \<Rightarrow> b256 option" where
  "Blockchain_hash bid s = (case bid of BlockHash h \<Rightarrow> Some h | BlockNumber num \<Rightarrow> storage_hash num s)"

definition get_block_by_hash :: "b256 \<Rightarrow> ('tx, 'i, 'r) BlockchainStorage \<Rightarrow> 'tx Block option" where
  "get_block_by_hash hash s = fmlookup (blocks s) hash"

definition get_transaction_by_hash ::
    "b256 \<Rightarrow> ('tx, 'i, 'r) BlockchainStorage \<Rightarrow> ('i, 'r) MinedTransaction option" where
  "get_transaction_by_hash hash s = fmlookup (transactions s) hash"

definition blocks_count :: "('tx, 'i, 'r) BlockchainStorage \<Rightarrow> nat" where
  "blocks_count s = fcard (fmdom (blocks s))"

section \<open>Writers in the backend\<close>

text \<open>
  What \<open>do_mine_block\<close> writes once a block is executed. \<open>merged\<close> is \<open>is_eip3675()\<close>, \<open>keeper\<close> the
  option \<open>transaction_block_keeper\<close>; a keeper that is not a \<open>u64\<close> counts as the largest one.
\<close>

definition keeper_u64 :: "nat \<Rightarrow> u64" where
  "keeper_u64 k = (if k < 2 ^ 64 then of_nat k else - 1)"

definition insert_mined_transactions ::
    "b256 \<Rightarrow> u64 \<Rightarrow> ('i TransactionInfo \<times> 'r) list \<Rightarrow> (b256, ('i, 'r) MinedTransaction) fmap
       \<Rightarrow> (b256, ('i, 'r) MinedTransaction) fmap" where
  "insert_mined_transactions hash num txs m =
     fold (\<lambda>(inf, rec). fmupd (transaction_hash inf)
             \<lparr>mined_info = inf, mined_receipt = rec, mined_block_hash = hash, mined_block_number = num\<rparr>) txs m"

definition record_mined_block ::
    "'tx chain_ops \<Rightarrow> bool \<Rightarrow> nat option \<Rightarrow> u64 \<Rightarrow> 'tx Block \<Rightarrow> 'i TransactionInfo list \<Rightarrow> 'r list
       \<Rightarrow> ('tx, 'i, 'r) BlockchainStorage \<Rightarrow> ('tx, 'i, 'r) BlockchainStorage" where
  "record_mined_block ops merged keeper block_number block infos receipts s =
     (let block_hash = hash_slow ops (header block);
          s1 = s\<lparr>best_number := block_number, best_hash := block_hash,
                 total_difficulty := (if merged then total_difficulty s
                   else saturating_add (total_difficulty s) (difficulty (header block))),
                 blocks := fmupd block_hash block (blocks s),
                 hashes := fmupd block_number block_hash (hashes s),
                 transactions := insert_mined_transactions block_hash block_number (zip infos receipts) (transactions s)\<rparr>
      in case keeper of
           None \<Rightarrow> s1
         | Some k \<Rightarrow>
             (if k < blocks_count s1
              then remove_block_transactions_by_number ops (saturating_sub block_number (keeper_u64 k)) s1
              else s1))"

text \<open>The loop of \<open>revert_state_snapshot\<close> over the blocks newer than the snapshot, newest first.\<close>

definition revert_block ::
    "'tx chain_ops \<Rightarrow> u64 \<Rightarrow> ('tx, 'i, 'r) BlockchainStorage \<Rightarrow> ('tx, 'i, 'r) BlockchainStorage" where
  "revert_block ops n s =
     (case fmlookup (hashes s) n of
        None \<Rightarrow> s
      | Some hash \<Rightarrow>
          (let s1 = s\<lparr>hashes := fmdrop n (hashes s)\<rparr> in
           case fmlookup (blocks s1) hash of
             None \<Rightarrow> s1
           | Some block \<Rightarrow>
               s1\<lparr>blocks := fmdrop hash (blocks s1),
                  transactions := remove_transactions ops (block_transactions block) (transactions s1)\<rparr>))"

definition revert_blocks ::
    "'tx chain_ops \<Rightarrow> u64 \<Rightarrow> b256 \<Rightarrow> ('tx, 'i, 'r) BlockchainStorage \<Rightarrow> ('tx, 'i, 'r) BlockchainStorage" where
  "revert_blocks ops num hash s =
     (fold (revert_block ops) (rev (block_range (num + 1) (best_number s))) s)
       \<lparr>best_number := num, best_hash := hash\<rparr>"

text \<open>
  The storage part of \<open>load_state\<close>. \<open>env_number\<close> is the block number of the saved environment, \<open>fork\<close>
  the number and hash of the forked block. A missing best hash is an error that names the best
  number, which has been set by then.
\<close>

definition saturating_to_u64 :: "u256 \<Rightarrow> u64" where
  "saturating_to_u64 w = (if unat w < 2 ^ 64 then ucast w else - 1)"

definition set_best ::
    "u64 \<Rightarrow> ('tx, 'i, 'r) BlockchainStorage \<Rightarrow> ('tx, 'i, 'r) BlockchainStorage \<times> (u64 + unit)" where
  "set_best num s =
     (let s1 = s\<lparr>best_number := num\<rparr> in
      case storage_hash (Number num) s1 of
        None \<Rightarrow> (s1, Inl num)
      | Some hash \<Rightarrow> (s1\<lparr>best_hash := hash\<rparr>, Inr ()))"

definition load_chain ::
    "'tx chain_ops \<Rightarrow> (u64 \<times> b256) option \<Rightarrow> 'tx Block list \<Rightarrow> ('i, 'r) MinedTransaction list \<Rightarrow> u256 option
       \<Rightarrow> u64 option \<Rightarrow> ('tx, 'i, 'r) BlockchainStorage \<Rightarrow> ('tx, 'i, 'r) BlockchainStorage \<times> (u64 + unit)" where
  "load_chain ops fork bs txs env_number best_block_number s =
     (let s1 = load_transactions txs (load_blocks ops bs s) in
      case env_number of
        None \<Rightarrow> (s1, Inr ())
      | Some block_number \<Rightarrow>
          (let best = (case best_block_number of Some n \<Rightarrow> n | None \<Rightarrow> saturating_to_u64 block_number) in
           case fork of
             None \<Rightarrow> set_best best s1
           | Some (num, hash) \<Rightarrow>
               (if num < best then set_best best s1
                else (s1\<lparr>best_number := num, best_hash := hash\<rparr>, Inr ()))))"

section \<open>Removing blocks\<close>

lemma remove_transactions_lookup:
  "fmlookup (remove_transactions ops txs m) t = (if t \<in> block_tx_hash ops ` set txs then None else fmlookup m t)"
  by (induction txs arbitrary: m) (auto simp: remove_transactions_def)

lemma remove_transactions_Nil [simp]: "remove_transactions ops [] m = m"
  by (simp add: remove_transactions_def)

lemma set_block_range: "set (block_range a b) = {a..b}"
proof -
  have "of_nat ` {unat a..unat b} = {a..b}"
  proof
    show "{a..b} \<subseteq> of_nat ` {unat a..unat b}"
    proof
      fix x assume "x \<in> {a..b}"
      then have "unat x \<in> {unat a..unat b}" by (simp add: word_le_nat_alt)
      then show "x \<in> of_nat ` {unat a..unat b}" by (rule image_eqI [rotated]) simp
    qed
    show "of_nat ` {unat a..unat b} \<subseteq> {a..b}"
    proof
      fix x :: u64 assume "x \<in> of_nat ` {unat a..unat b}"
      then obtain n where n: "x = of_nat n" "unat a \<le> n" "n \<le> unat b" by auto
      then have "n < 2 ^ LENGTH(64)" using unat_below [of b] by linarith
      then have "unat x = n" unfolding n(1) by (rule unat_of_nat_below)
      with n show "x \<in> {a..b}" by (simp add: word_le_nat_alt)
    qed
  qed
  then show ?thesis by (simp add: block_range_def atLeastLessThanSuc_atLeastAtMost del: upt_Suc)
qed

lemma block_after_iff:
  fixes n :: u64
  assumes "n \<noteq> - 1"
  shows "x \<in> set (block_range (n + 1) b) \<longleftrightarrow> n < x \<and> x \<le> b"
  using unat_plus_one [OF assms] by (simp add: set_block_range word_less_nat_alt word_le_nat_alt Suc_le_eq)

text \<open>The blocks that a list of numbers stands for.\<close>

definition blocks_at :: "('tx, 'i, 'r) BlockchainStorage \<Rightarrow> u64 list \<Rightarrow> (b256 \<times> 'tx Block) list" where
  "blocks_at s ns =
     List.map_filter (\<lambda>n. Option.bind (fmlookup (hashes s) n) (\<lambda>h. map_option (Pair h) (fmlookup (blocks s) h))) ns"

lemma blocks_at_simps [simp]:
  "blocks_at s [] = []"
  "blocks_at s (n # ns) =
     (case fmlookup (hashes s) n of
        None \<Rightarrow> blocks_at s ns
      | Some h \<Rightarrow> (case fmlookup (blocks s) h of None \<Rightarrow> blocks_at s ns | Some b \<Rightarrow> (h, b) # blocks_at s ns))"
  by (simp_all add: blocks_at_def List.map_filter_simps split: option.split)

lemma revert_block_lookup:
  "fmlookup (hashes (revert_block ops n s)) m = (if m = n then None else fmlookup (hashes s) m)"
  "fmlookup (blocks (revert_block ops n s)) h = (if fmlookup (hashes s) n = Some h then None else fmlookup (blocks s) h)"
  "fmlookup (transactions (revert_block ops n s)) t =
     (if \<exists>h b. fmlookup (hashes s) n = Some h \<and> fmlookup (blocks s) h = Some b \<and> t \<in> block_tx_hash ops ` set (block_transactions b)
      then None else fmlookup (transactions s) t)"
  by (auto simp: revert_block_def Let_def remove_transactions_lookup split: option.splits)

lemma revert_blocks_lookup:
  "fmlookup (hashes (fold (revert_block ops) ns s)) m = (if m \<in> set ns then None else fmlookup (hashes s) m) \<and>
   fmlookup (blocks (fold (revert_block ops) ns s)) h =
     (if \<exists>n \<in> set ns. fmlookup (hashes s) n = Some h then None else fmlookup (blocks s) h) \<and>
   fmlookup (transactions (fold (revert_block ops) ns s)) t =
     (if \<exists>n \<in> set ns. \<exists>h b. fmlookup (hashes s) n = Some h \<and> fmlookup (blocks s) h = Some b \<and>
           t \<in> block_tx_hash ops ` set (block_transactions b)
      then None else fmlookup (transactions s) t)"
proof (induction ns arbitrary: s)
  case (Cons n ns)
  show ?case using Cons [of "revert_block ops n s"] unfolding revert_block_lookup fold_Cons comp_apply
    by (intro conjI; (auto split: if_splits; fail | metis list.set_intros option.inject option.distinct(1) set_ConsD))
qed simp

lemma revert_blocks_keep:
  "genesis_hash (fold (revert_block ops) ns s) = genesis_hash s"
  "total_difficulty (fold (revert_block ops) ns s) = total_difficulty s"
  "best_number (fold (revert_block ops) ns s) = best_number s"
  "best_hash (fold (revert_block ops) ns s) = best_hash s"
  by (induction ns arbitrary: s) (simp_all add: revert_block_def Let_def split: option.split)

lemma revert_blocks_any_order:
  assumes "set ns = set ms"
  shows "fold (revert_block ops) ns s = fold (revert_block ops) ms s"
proof -
  have "hashes (fold (revert_block ops) ns s) = hashes (fold (revert_block ops) ms s)"
    "blocks (fold (revert_block ops) ns s) = blocks (fold (revert_block ops) ms s)"
    "transactions (fold (revert_block ops) ns s) = transactions (fold (revert_block ops) ms s)"
    by (rule fmap_ext, simp add: revert_blocks_lookup assms)+
  then show ?thesis by (simp add: revert_blocks_keep)
qed

definition numbers_match :: "('tx, 'i, 'r) BlockchainStorage \<Rightarrow> bool" where
  "numbers_match s \<longleftrightarrow>
     (\<forall>n h b. fmlookup (hashes s) n = Some h \<longrightarrow> fmlookup (blocks s) h = Some b \<longrightarrow> number (header b) = n)"

lemma numbers_match_revert: "numbers_match s \<Longrightarrow> numbers_match (revert_block ops n s)"
  unfolding numbers_match_def revert_block_lookup by (auto split: if_splits)

lemma revert_block_other_transactions:
  "(revert_block ops n (s\<lparr>transactions := T\<rparr>))\<lparr>transactions := T'\<rparr> = (revert_block ops n s)\<lparr>transactions := T'\<rparr>"
  by (simp add: revert_block_def Let_def split: option.split)

lemma revert_blocks_other_transactions:
  "(fold (revert_block ops) ns (s\<lparr>transactions := T\<rparr>))\<lparr>transactions := T'\<rparr> =
   (fold (revert_block ops) ns s)\<lparr>transactions := T'\<rparr>"
proof (induction ns arbitrary: s T)
  case (Cons n ns)
  let ?u = "revert_block ops n (s\<lparr>transactions := T\<rparr>)"
  have "?u = (revert_block ops n s)\<lparr>transactions := transactions ?u\<rparr>"
    using revert_block_other_transactions [where T' = "transactions ?u" and s = s and T = T and ops = ops and n = n] by simp
  then show ?case using Cons.IH [where s = "revert_block ops n s" and T = "transactions ?u"] by simp
qed simp

lemma unwind_block_eq:
  assumes "numbers_match s"
  shows "unwind_block ops n (s, removed) =
     ((revert_block ops n s)\<lparr>transactions := transactions s\<rparr>, removed @ map snd (blocks_at s [n]))"
  using assms
  by (auto simp: numbers_match_def revert_block_def remove_block_transactions_by_number_def Let_def split: option.split)

lemma blocks_at_revert:
  assumes "numbers_match s" and "n \<notin> set ns"
  shows "blocks_at ((revert_block ops n s)\<lparr>transactions := T\<rparr>) ns = blocks_at s ns"
  using assms(2)
proof (induction ns)
  case (Cons m ns)
  have "fmlookup (blocks s) h = None" if "fmlookup (hashes s) n = Some h" "fmlookup (hashes s) m = Some h" for h
  proof (rule ccontr)
    assume "fmlookup (blocks s) h \<noteq> None"
    then obtain b where "fmlookup (blocks s) h = Some b" by blast
    with assms(1) that have "n = m" unfolding numbers_match_def by metis
    with Cons.prems show False by simp
  qed
  with Cons show ?case by (auto simp: revert_block_lookup split: option.split)
qed simp

lemma unwind_blocks_eq:
  assumes "numbers_match s" and "distinct ns"
  shows "fold (unwind_block ops) ns (s, removed) =
     ((fold (revert_block ops) ns s)\<lparr>transactions := transactions s\<rparr>, removed @ map snd (blocks_at s ns))"
  using assms
proof (induction ns arbitrary: s removed)
  case (Cons n ns)
  let ?s1 = "(revert_block ops n s)\<lparr>transactions := transactions s\<rparr>"
  have "numbers_match ?s1"
    using numbers_match_revert [OF Cons.prems(1), of ops n] by (simp add: numbers_match_def)
  from Cons.IH [OF this] Cons.prems show ?case
    unfolding fold_Cons comp_apply unwind_block_eq [OF Cons.prems(1)]
    by (simp add: revert_blocks_other_transactions blocks_at_revert split: option.split)
qed simp

lemma distinct_block_range: "distinct (block_range a b)"
proof -
  have "inj_on (of_nat :: nat \<Rightarrow> u64) {unat a..unat b}"
  proof (rule inj_onI)
    fix x y assume xy: "x \<in> {unat a..unat b}" "y \<in> {unat a..unat b}" "(of_nat x :: u64) = of_nat y"
    then have "x < 2 ^ LENGTH(64)" "y < 2 ^ LENGTH(64)" using unat_below [of b] by auto
    then show "x = y" using xy(3) unat_of_nat_below by metis
  qed
  then show ?thesis
    by (simp add: block_range_def distinct_map atLeastLessThanSuc_atLeastAtMost del: upt_Suc)
qed

section \<open>Mining on top of a chain\<close>

text \<open>
  The invariant of a chain: every block is filed under its hash and its number, no number is above
  the best one, and the best hash is the hash of the best number.
\<close>

definition chain_wf :: "'tx chain_ops \<Rightarrow> ('tx, 'i, 'r) BlockchainStorage \<Rightarrow> bool" where
  "chain_wf ops s \<longleftrightarrow>
     numbers_match s \<and>
     (\<forall>h b. fmlookup (blocks s) h = Some b \<longrightarrow>
        hash_slow ops (header b) = h \<and> fmlookup (hashes s) (number (header b)) = Some h) \<and>
     (\<forall>n h. fmlookup (hashes s) n = Some h \<longrightarrow> n \<le> best_number s) \<and>
     fmlookup (hashes s) (best_number s) = Some (best_hash s)"

text \<open>
  What is new about a block that is mined: a higher number, a hash not seen before and transactions
  that are not on the chain. The information of a transaction carries its hash.
\<close>

definition fresh_block ::
    "'tx chain_ops \<Rightarrow> ('tx, 'i, 'r) BlockchainStorage \<Rightarrow> 'tx Block \<Rightarrow> 'i TransactionInfo list \<Rightarrow> 'r list \<Rightarrow> bool" where
  "fresh_block ops s block infos receipts \<longleftrightarrow>
     best_number s < number (header block) \<and>
     (\<forall>n. fmlookup (hashes s) n \<noteq> Some (hash_slow ops (header block))) \<and>
     fmlookup (blocks s) (hash_slow ops (header block)) = None \<and>
     map transaction_hash infos = map (block_tx_hash ops) (block_transactions block) \<and>
     length receipts = length infos \<and>
     (\<forall>tx \<in> set (block_transactions block). fmlookup (transactions s) (block_tx_hash ops tx) = None)"

inductive mined ::
    "'tx chain_ops \<Rightarrow> ('tx, 'i, 'r) BlockchainStorage \<Rightarrow> ('tx, 'i, 'r) BlockchainStorage \<Rightarrow> bool"
  for ops s where
  mined_none: "mined ops s s"
| mined_block: "mined ops s t \<Longrightarrow> fresh_block ops t block infos receipts \<Longrightarrow>
    mined ops s (record_mined_block ops True None (number (header block)) block infos receipts t)"

lemma insert_mined_lookup_other:
  "x \<notin> (transaction_hash \<circ> fst) ` set txs \<Longrightarrow> fmlookup (insert_mined_transactions h n txs m) x = fmlookup m x"
  by (induction txs arbitrary: m) (auto simp: insert_mined_transactions_def)

lemma insert_mined_lookup_new:
  "x \<in> (transaction_hash \<circ> fst) ` set txs \<Longrightarrow>
   \<exists>tx. fmlookup (insert_mined_transactions h n txs m) x = Some tx \<and> transaction_hash (mined_info tx) = x \<and>
      mined_block_hash tx = h \<and> mined_block_number tx = n"
proof (induction txs arbitrary: m)
  case (Cons p txs)
  obtain inf rec where p: "p = (inf, rec)" by fastforce
  let ?m = "fmupd (transaction_hash inf)
     \<lparr>mined_info = inf, mined_receipt = rec, mined_block_hash = h, mined_block_number = n\<rparr> m"
  have run: "insert_mined_transactions h n (p # txs) m = insert_mined_transactions h n txs ?m"
    by (simp add: insert_mined_transactions_def p)
  show ?case
  proof (cases "x \<in> (transaction_hash \<circ> fst) ` set txs")
    case True
    then show ?thesis unfolding run by (rule Cons.IH)
  next
    case False
    with Cons.prems have "x = transaction_hash inf" by (simp add: p)
    with False show ?thesis unfolding run by (simp add: insert_mined_lookup_other)
  qed
qed simp

lemma mined_hashes:
  "fresh_block ops s block infos receipts \<Longrightarrow>
   (transaction_hash \<circ> fst) ` set (zip infos receipts) = block_tx_hash ops ` set (block_transactions block)"
proof -
  assume "fresh_block ops s block infos receipts"
  then have len: "length receipts = length infos"
    and h: "map transaction_hash infos = map (block_tx_hash ops) (block_transactions block)"
    by (simp_all add: fresh_block_def)
  have "(transaction_hash \<circ> fst) ` set (zip infos receipts) = transaction_hash ` set (map fst (zip infos receipts))"
    by (auto simp: image_image)
  also have "\<dots> = set (map transaction_hash infos)" by (simp add: len)
  also have "\<dots> = block_tx_hash ops ` set (block_transactions block)" unfolding h by simp
  finally show ?thesis .
qed

lemma record_mined_simps:
  defines "s' ops n block infos receipts s \<equiv> record_mined_block ops True None n block infos receipts s"
  shows "fmlookup (hashes (s' ops n block infos receipts s)) m =
      (if m = n then Some (hash_slow ops (header block)) else fmlookup (hashes s) m)"
    and "fmlookup (blocks (s' ops n block infos receipts s)) h =
      (if h = hash_slow ops (header block) then Some block else fmlookup (blocks s) h)"
    and "transactions (s' ops n block infos receipts s) =
      insert_mined_transactions (hash_slow ops (header block)) n (zip infos receipts) (transactions s)"
    and "best_number (s' ops n block infos receipts s) = n"
    and "best_hash (s' ops n block infos receipts s) = hash_slow ops (header block)"
    and "genesis_hash (s' ops n block infos receipts s) = genesis_hash s"
    and "total_difficulty (s' ops n block infos receipts s) = total_difficulty s"
  by (simp_all add: s'_def record_mined_block_def Let_def)

text \<open>How a chain relates to an earlier one that it grew from.\<close>

definition new_hash :: "('tx, 'i, 'r) BlockchainStorage \<Rightarrow> ('tx, 'i, 'r) BlockchainStorage \<Rightarrow> b256 \<Rightarrow> bool" where
  "new_hash s t h \<longleftrightarrow> (\<exists>n > best_number s. fmlookup (hashes t) n = Some h)"

definition new_tx ::
    "'tx chain_ops \<Rightarrow> ('tx, 'i, 'r) BlockchainStorage \<Rightarrow> ('tx, 'i, 'r) BlockchainStorage \<Rightarrow> b256 \<Rightarrow> bool" where
  "new_tx ops s t x \<longleftrightarrow>
     (\<exists>h b. new_hash s t h \<and> fmlookup (blocks t) h = Some b \<and> x \<in> block_tx_hash ops ` set (block_transactions b))"

definition extends ::
    "'tx chain_ops \<Rightarrow> ('tx, 'i, 'r) BlockchainStorage \<Rightarrow> ('tx, 'i, 'r) BlockchainStorage \<Rightarrow> bool" where
  "extends ops s t \<longleftrightarrow>
     best_number s \<le> best_number t \<and>
     (\<forall>n \<le> best_number s. fmlookup (hashes t) n = fmlookup (hashes s) n) \<and>
     (\<forall>n > best_number t. fmlookup (hashes t) n = None) \<and>
     (\<forall>h. new_hash s t h \<longrightarrow> fmlookup (blocks s) h = None) \<and>
     (\<forall>h. \<not> new_hash s t h \<longrightarrow> fmlookup (blocks t) h = fmlookup (blocks s) h) \<and>
     (\<forall>x. new_tx ops s t x \<longrightarrow> fmlookup (transactions s) x = None) \<and>
     (\<forall>x. \<not> new_tx ops s t x \<longrightarrow> fmlookup (transactions t) x = fmlookup (transactions s) x) \<and>
     genesis_hash t = genesis_hash s \<and> total_difficulty t = total_difficulty s"

lemma chain_wf_filed:
  "chain_wf ops s \<Longrightarrow> fmlookup (blocks s) h = Some b \<Longrightarrow>
   h = hash_slow ops (header b) \<and> fmlookup (hashes s) (number (header b)) = Some h"
  unfolding chain_wf_def by blast

lemma chain_wf_above: "chain_wf ops s \<Longrightarrow> best_number s < n \<Longrightarrow> fmlookup (hashes s) n = None"
  by (cases "fmlookup (hashes s) n") (auto simp: chain_wf_def)

lemma extends_step:
  assumes ext: "extends ops s t" and fresh: "fresh_block ops t block infos receipts"
  defines "t' \<equiv> record_mined_block ops True None (number (header block)) block infos receipts t"
  shows "extends ops s t'"
proof -
  let ?h = "hash_slow ops (header block)"
  have above: "best_number s < number (header block)" "best_number t < number (header block)"
    and le: "best_number s \<le> best_number t"
    using ext fresh by (auto simp: extends_def fresh_block_def)
  have not_new: "\<not> new_hash s t ?h" using fresh by (auto simp: new_hash_def fresh_block_def)
  have none: "fmlookup (hashes t) (number (header block)) = None" using ext above by (simp add: extends_def)
  have hash: "new_hash s t' h \<longleftrightarrow> h = ?h \<or> new_hash s t h" for h
    using above none unfolding new_hash_def t'_def record_mined_simps
    by (cases "h = ?h") (auto, metis option.distinct(1))
  have at: "fmlookup (blocks t') ?h = Some block" "new_hash s t h \<Longrightarrow> fmlookup (blocks t') h = fmlookup (blocks t) h" for h
    using not_new by (auto simp: t'_def record_mined_simps)
  have tx: "new_tx ops s t' x \<longleftrightarrow> x \<in> block_tx_hash ops ` set (block_transactions block) \<or> new_tx ops s t x" for x
    unfolding new_tx_def hash by (auto simp: at)
  have old: "fmlookup (transactions s) x = None" if "x \<in> block_tx_hash ops ` set (block_transactions block)" for x
  proof -
    have "fmlookup (transactions t) x = None" using that fresh by (auto simp: fresh_block_def)
    then show ?thesis using ext unfolding extends_def by metis
  qed
  have same: "fmlookup (transactions t') x = fmlookup (transactions t) x"
    if "x \<notin> block_tx_hash ops ` set (block_transactions block)" for x
    using that unfolding t'_def record_mined_simps mined_hashes [OF fresh, symmetric]
    by (rule insert_mined_lookup_other)
  have "fmlookup (blocks s) ?h = None"
    using ext fresh not_new unfolding extends_def fresh_block_def by metis
  moreover have "fmlookup (hashes t') n = fmlookup (hashes t) n" if "n \<noteq> number (header block)" for n
    using that by (simp add: t'_def record_mined_simps)
  moreover have "best_number t' = number (header block)" "genesis_hash t' = genesis_hash t"
    "total_difficulty t' = total_difficulty t"
    "\<And>h. h \<noteq> ?h \<Longrightarrow> fmlookup (blocks t') h = fmlookup (blocks t) h"
    by (simp_all add: t'_def record_mined_simps)
  ultimately show ?thesis
    using ext above old same unfolding extends_def hash tx by (intro conjI allI impI) auto
qed

lemma mined_extends:
  assumes "mined ops s t" and "chain_wf ops s"
  shows "extends ops s t"
  using assms(1)
proof induction
  case mined_none
  show ?case
    using chain_wf_above [OF assms(2)] by (auto simp: extends_def new_hash_def new_tx_def)
qed (rule extends_step)

lemma extends_reverted:
  assumes ext: "extends ops s t" and wf: "chain_wf ops s" and top: "best_number s \<noteq> - 1"
  shows "revert_blocks ops (best_number s) (best_hash s) t = s"
proof -
  let ?ns = "rev (block_range (best_number s + 1) (best_number t))"
  let ?t = "fold (revert_block ops) ?ns t"
  have ns: "n \<in> set ?ns \<longleftrightarrow> best_number s < n \<and> n \<le> best_number t" for n
    using block_after_iff [OF top] by simp
  have up: "n \<le> best_number t" if "fmlookup (hashes t) n = Some h" for n h
    by (rule ccontr) (use that ext in \<open>auto simp: extends_def not_le\<close>)
  have range: "(\<exists>n \<in> set ?ns. fmlookup (hashes t) n = Some h) \<longleftrightarrow> new_hash s t h" for h
    unfolding ns Bex_def new_hash_def using up by blast
  have "(\<exists>n \<in> set ?ns. \<exists>h b. fmlookup (hashes t) n = Some h \<and> fmlookup (blocks t) h = Some b \<and>
      x \<in> block_tx_hash ops ` set (block_transactions b)) \<longleftrightarrow> new_tx ops s t x" for x
    unfolding new_tx_def range [symmetric] by blast
  note lookup = revert_blocks_lookup [where ns = ?ns and s = t and ops = ops, unfolded range this]
  have "hashes ?t = hashes s"
    by (rule fmap_ext) (use lookup ns ext chain_wf_above [OF wf] in \<open>auto simp: extends_def not_less not_le\<close>)
  moreover have "blocks ?t = blocks s"
    by (rule fmap_ext) (use lookup ext in \<open>auto simp: extends_def\<close>)
  moreover have "transactions ?t = transactions s"
    by (rule fmap_ext) (use lookup ext in \<open>auto simp: extends_def\<close>)
  moreover have "genesis_hash ?t = genesis_hash t \<and> total_difficulty ?t = total_difficulty t"
    by (simp add: revert_blocks_keep)
  ultimately show ?thesis using ext by (simp add: revert_blocks_def extends_def)
qed

lemma chain_wf_record:
  assumes wf: "chain_wf ops s" and fresh: "fresh_block ops s block infos receipts"
  shows "chain_wf ops (record_mined_block ops merged None (number (header block)) block infos receipts s)"
proof -
  let ?h = "hash_slow ops (header block)" and ?n = "number (header block)"
  let ?s = "record_mined_block ops merged None ?n block infos receipts s"
  have fields: "hashes ?s = fmupd ?n ?h (hashes s)" "blocks ?s = fmupd ?h block (blocks s)"
    "best_number ?s = ?n" "best_hash ?s = ?h"
    by (simp_all add: record_mined_block_def Let_def)
  have above: "best_number s < ?n" and none: "\<forall>n. fmlookup (hashes s) n \<noteq> Some ?h"
    using fresh by (simp_all add: fresh_block_def)
  have "fmlookup (hashes s) ?n = None" by (rule chain_wf_above [OF wf above])
  with wf none show ?thesis
    using above unfolding chain_wf_def numbers_match_def fields
    by (intro conjI allI impI) (auto split: if_splits)
qed

lemma remove_block_transactions_shape:
  "hashes (remove_block_transactions_by_number ops n s) = hashes s"
  "best_number (remove_block_transactions_by_number ops n s) = best_number s"
  "best_hash (remove_block_transactions_by_number ops n s) = best_hash s"
  "map_option header (fmlookup (blocks (remove_block_transactions_by_number ops n s)) h) =
     map_option header (fmlookup (blocks s) h)"
  by (auto simp: remove_block_transactions_by_number_def remove_block_transactions_def split: option.split)

text \<open>The invariant speaks of the headers only.\<close>

lemma chain_wf_headers:
  assumes "chain_wf ops s" and "hashes t = hashes s" and "best_number t = best_number s" and "best_hash t = best_hash s"
    and "\<And>h. map_option header (fmlookup (blocks t) h) = map_option header (fmlookup (blocks s) h)"
  shows "chain_wf ops t"
proof -
  have "(\<forall>n. fmlookup (hashes s) n = Some h \<longrightarrow> number (header b) = n) \<and>
      hash_slow ops (header b) = h \<and> fmlookup (hashes s) (number (header b)) = Some h"
    if b: "fmlookup (blocks t) h = Some b" for h b
  proof -
    obtain b' where b': "fmlookup (blocks s) h = Some b'" "header b = header b'"
      using assms(5) [of h] b by (cases "fmlookup (blocks s) h") auto
    show ?thesis unfolding b'(2) using assms(1) b'(1) unfolding chain_wf_def numbers_match_def by blast
  qed
  moreover have "\<forall>n h. fmlookup (hashes s) n = Some h \<longrightarrow> n \<le> best_number s"
    "fmlookup (hashes s) (best_number s) = Some (best_hash s)"
    using assms(1) by (simp_all add: chain_wf_def)
  ultimately show ?thesis
    unfolding chain_wf_def numbers_match_def assms(2-4) by blast
qed

lemma chain_wf_revert:
  assumes wf: "chain_wf ops s" and at: "fmlookup (hashes s) num = Some hash" and top: "num \<noteq> - 1"
  shows "chain_wf ops (revert_blocks ops num hash s)"
proof -
  let ?ns = "rev (block_range (num + 1) (best_number s))"
  let ?s = "fold (revert_block ops) ?ns s"
  have ns: "n \<in> set ?ns \<longleftrightarrow> num < n \<and> n \<le> best_number s" for n using block_after_iff [OF top] by simp
  have le: "n \<le> best_number s" if "fmlookup (hashes s) n = Some h" for n h
    using wf that by (auto simp: chain_wf_def)
  have hash: "fmlookup (hashes ?s) n = Some h \<longleftrightarrow> n \<le> num \<and> fmlookup (hashes s) n = Some h" for n h
    using revert_blocks_lookup [of ops ?ns s n] le ns by (auto simp: not_less)
  have block: "fmlookup (blocks s) h = Some b \<and> (\<forall>n > num. fmlookup (hashes s) n \<noteq> Some h)"
    if "fmlookup (blocks ?s) h = Some b" for h b
    using that revert_blocks_lookup [of ops ?ns s _ h] ns le by (auto split: if_splits)
  have s': "hashes (revert_blocks ops num hash s) = hashes ?s" "blocks (revert_blocks ops num hash s) = blocks ?s"
    "best_number (revert_blocks ops num hash s) = num" "best_hash (revert_blocks ops num hash s) = hash"
    by (simp_all add: revert_blocks_def)
  have "fmlookup (hashes s) (number (header b)) = Some h \<and> number (header b) \<le> num \<and> hash_slow ops (header b) = h"
    if "fmlookup (blocks ?s) h = Some b" for h b
    using block [OF that] wf unfolding chain_wf_def by (metis not_less)
  moreover have "number (header b) = n"
    if "fmlookup (hashes ?s) n = Some h" "fmlookup (blocks ?s) h = Some b" for n h b
    using that block hash wf unfolding chain_wf_def numbers_match_def by blast
  ultimately show ?thesis
    unfolding chain_wf_def numbers_match_def s' hash using at by auto
qed

section \<open>Loading a saved chain\<close>

lemma fold_fmupd_consistent:
  assumes "\<forall>x \<in> set xs. fmlookup M (k x) = Some (v x)"
  shows "fmlookup (fold (\<lambda>x. fmupd (k x) (v x)) xs m) y = (if y \<in> k ` set xs then fmlookup M y else fmlookup m y)"
  using assms by (induction xs arbitrary: m) auto

lemma load_blocks_fields:
  "blocks (load_blocks ops bs s) = fold (\<lambda>b. fmupd (hash_slow ops (header b)) b) bs (blocks s)"
  "hashes (load_blocks ops bs s) = fold (\<lambda>b. fmupd (number (header b)) (hash_slow ops (header b))) bs (hashes s)"
  "transactions (load_blocks ops bs s) = transactions s"
  unfolding load_blocks_def by (induction bs arbitrary: s) (simp_all add: load_block_def Let_def)

lemma load_transactions_eq:
  "load_transactions txs s =
   s\<lparr>transactions := fold (\<lambda>tx. fmupd (transaction_hash (mined_info tx)) tx) txs (transactions s)\<rparr>"
  unfolding load_transactions_def by (induction txs arbitrary: s) simp_all

lemma set_map_filter_lookup:
  "enumerates ord \<Longrightarrow> set (List.map_filter (fmlookup m) (ord (fmdom m))) = fset (fmran m)"
  by (auto simp: List.map_filter_def enumerates_set fmlookup_dom_iff fmlookup_ran_iff image_iff Bex_def)
    (metis option.sel)

lemma fold_fmupd_add:
  assumes "\<forall>x \<in> set xs. fmlookup M (k x) = Some (v x)" and "k ` set xs = fset (fmdom M)"
  shows "fold (\<lambda>x. fmupd (k x) (v x)) xs m = m ++\<^sub>f M"
  by (rule fmap_ext) (simp only: fold_fmupd_consistent [OF assms(1)] assms(2) fmlookup_add)

lemma saved_blocks_loaded:
  assumes "chain_wf ops s" and ord: "enumerates ord"
    and full: "\<forall>n h. fmlookup (hashes s) n = Some h \<longrightarrow> fmlookup (blocks s) h \<noteq> None"
  shows "blocks (load_blocks ops (serialized_blocks ord s) s0) = blocks s0 ++\<^sub>f blocks s"
    and "hashes (load_blocks ops (serialized_blocks ord s) s0) = hashes s0 ++\<^sub>f hashes s"
proof -
  let ?bs = "serialized_blocks ord s"
  have bs: "b \<in> set ?bs \<longleftrightarrow> (\<exists>h. fmlookup (blocks s) h = Some b)" for b
    by (simp add: serialized_blocks_def set_map_filter_lookup [OF ord] fmlookup_ran_iff)
  have filed: "fmlookup (blocks s) (hash_slow ops (header b)) = Some b"
    "fmlookup (hashes s) (number (header b)) = Some (hash_slow ops (header b))" if "b \<in> set ?bs" for b
    using that chain_wf_filed [OF assms(1)] unfolding bs by blast+
  have "(\<lambda>b. hash_slow ops (header b)) ` set ?bs = fset (fmdom (blocks s))"
  proof
    show "fset (fmdom (blocks s)) \<subseteq> (\<lambda>b. hash_slow ops (header b)) ` set ?bs"
    proof
      fix h assume "h \<in> fset (fmdom (blocks s))"
      then obtain b where b: "fmlookup (blocks s) h = Some b" by (auto simp: fmlookup_dom_iff)
      moreover from chain_wf_filed [OF assms(1) b] have "h = hash_slow ops (header b)" by blast
      ultimately show "h \<in> (\<lambda>b. hash_slow ops (header b)) ` set ?bs" using bs by blast
    qed
  qed (use filed(1) in \<open>auto intro: fmdomI\<close>)
  then show "blocks (load_blocks ops ?bs s0) = blocks s0 ++\<^sub>f blocks s"
    unfolding load_blocks_fields
    using filed(1) by (intro fold_fmupd_add) auto
  have "\<exists>b \<in> set ?bs. n = number (header b)" if n: "fmlookup (hashes s) n = Some h" for n h
  proof -
    obtain b where b: "fmlookup (blocks s) h = Some b" using full n by blast
    then have "number (header b) = n" using n assms(1) by (auto simp: chain_wf_def numbers_match_def)
    with b bs show ?thesis by blast
  qed
  then have "(\<lambda>b. number (header b)) ` set ?bs = fset (fmdom (hashes s))"
    using filed(2) by (auto simp: fmlookup_dom_iff image_iff)
  then show "hashes (load_blocks ops ?bs s0) = hashes s0 ++\<^sub>f hashes s"
    unfolding load_blocks_fields
    using filed(2) by (intro fold_fmupd_add) auto
qed

lemma saved_transactions_loaded:
  assumes ord: "enumerates ord"
    and keyed: "\<forall>x tx. fmlookup (transactions s) x = Some tx \<longrightarrow> transaction_hash (mined_info tx) = x"
  shows "load_transactions (serialized_transactions ord s) s0 =
     s0\<lparr>transactions := transactions s0 ++\<^sub>f transactions s\<rparr>"
proof -
  let ?txs = "serialized_transactions ord s"
  have txs: "tx \<in> set ?txs \<longleftrightarrow> (\<exists>x. fmlookup (transactions s) x = Some tx)" for tx
    by (simp add: serialized_transactions_def set_map_filter_lookup [OF ord] fmlookup_ran_iff)
  then have "\<forall>tx \<in> set ?txs. fmlookup (transactions s) (transaction_hash (mined_info tx)) = Some tx"
    using keyed by auto
  moreover have "(\<lambda>tx. transaction_hash (mined_info tx)) ` set ?txs = fset (fmdom (transactions s))"
  proof
    show "fset (fmdom (transactions s)) \<subseteq> (\<lambda>tx. transaction_hash (mined_info tx)) ` set ?txs"
    proof
      fix x assume "x \<in> fset (fmdom (transactions s))"
      then obtain tx where tx: "fmlookup (transactions s) x = Some tx" by (auto simp: fmlookup_dom_iff)
      moreover from keyed tx have "x = transaction_hash (mined_info tx)" by simp
      ultimately show "x \<in> (\<lambda>tx. transaction_hash (mined_info tx)) ` set ?txs" using txs by blast
    qed
  qed (use txs keyed in \<open>auto intro: fmdomI\<close>)
  ultimately have "fold (\<lambda>tx. fmupd (transaction_hash (mined_info tx)) tx) ?txs (transactions s0) =
      transactions s0 ++\<^sub>f transactions s"
    by (rule fold_fmupd_add)
  then show ?thesis by (simp add: load_transactions_eq)
qed

text \<open>Recording a block, with any transaction keeper.\<close>

lemma recorded_shape:
  fixes merged :: bool and keeper :: "nat option"
  defines "r ops n block infos receipts s \<equiv> record_mined_block ops merged keeper n block infos receipts s"
  shows "hashes (r ops n block infos receipts s) = fmupd n (hash_slow ops (header block)) (hashes s)"
    and "best_number (r ops n block infos receipts s) = n"
    and "best_hash (r ops n block infos receipts s) = hash_slow ops (header block)"
    and "map_option header (fmlookup (blocks (r ops n block infos receipts s)) g) =
      (if g = hash_slow ops (header block) then Some (header block) else map_option header (fmlookup (blocks s) g))"
proof -
  let ?r0 = "record_mined_block ops merged None n block infos receipts s"
  have "r ops n block infos receipts s = ?r0 \<or> (\<exists>m. r ops n block infos receipts s = remove_block_transactions_by_number ops m ?r0)"
    by (auto simp: r_def record_mined_block_def Let_def split: option.split)
  then have same: "hashes (r ops n block infos receipts s) = hashes ?r0"
    "best_number (r ops n block infos receipts s) = best_number ?r0"
    "best_hash (r ops n block infos receipts s) = best_hash ?r0"
    "map_option header (fmlookup (blocks (r ops n block infos receipts s)) g) = map_option header (fmlookup (blocks ?r0) g)"
    by (elim disjE exE; simp add: remove_block_transactions_shape)+
  show "hashes (r ops n block infos receipts s) = fmupd n (hash_slow ops (header block)) (hashes s)"
    "best_number (r ops n block infos receipts s) = n" "best_hash (r ops n block infos receipts s) = hash_slow ops (header block)"
    "map_option header (fmlookup (blocks (r ops n block infos receipts s)) g) =
      (if g = hash_slow ops (header block) then Some (header block) else map_option header (fmlookup (blocks s) g))"
    unfolding same by (simp_all add: record_mined_block_def Let_def)
qed

lemma recorded_wf:
  assumes "chain_wf ops s" and "fresh_block ops s block infos receipts"
  shows "chain_wf ops (record_mined_block ops merged keeper (number (header block)) block infos receipts s)"
  by (rule chain_wf_headers [OF chain_wf_record [OF assms, of merged]]) (simp_all add: recorded_shape)

lemma recorded_transaction:
  assumes "length receipts = length infos" and "x \<in> transaction_hash ` set infos"
  shows "\<exists>m. get_transaction_by_hash x (record_mined_block ops merged None n block infos receipts s) = Some m \<and>
     transaction_hash (mined_info m) = x \<and> mined_block_hash m = hash_slow ops (header block) \<and> mined_block_number m = n"
proof -
  have "map fst (zip infos receipts) = infos" using assms(1) by simp
  then have "fst ` set (zip infos receipts) = set infos" by (metis list.set_map)
  then have "x \<in> (transaction_hash \<circ> fst) ` set (zip infos receipts)"
    using assms(2) unfolding image_comp [symmetric] by simp
  then show ?thesis
    using insert_mined_lookup_new [of x "zip infos receipts" "hash_slow ops (header block)" n "transactions s"]
    by (simp add: get_transaction_by_hash_def record_mined_block_def Let_def)
qed

section \<open>Properties\<close>

text \<open>
  Recording a mined block on a well-formed chain keeps the chain well-formed, whatever the
  transaction keeper prunes: the block is the latest and can be found by number and hash, the hashes of
  the older blocks stay, and without a keeper each of its transactions can be found with this block's
  hash and number.
\<close>

theorem mined_block_recorded:
  fixes merged :: bool and keeper :: "nat option"
  assumes "chain_wf ops s" and "fresh_block ops s block infos receipts"
  defines "s' \<equiv> record_mined_block ops merged keeper (number (header block)) block infos receipts s"
    and "h \<equiv> hash_slow ops (header block)"
  shows "chain_wf ops s' \<and>
     storage_hash Latest s' = Some h \<and> storage_hash (Number (number (header block))) s' = Some h \<and>
     map_option header (get_block_by_hash h s') = Some (header block) \<and>
     (\<forall>n \<le> best_number s. storage_hash (Number n) s' = storage_hash (Number n) s) \<and>
     (keeper = None \<longrightarrow> (\<forall>tx \<in> set (block_transactions block).
        \<exists>m. get_transaction_by_hash (block_tx_hash ops tx) s' = Some m \<and>
           mined_block_hash m = h \<and> mined_block_number m = number (header block)))"
proof -
  have "best_number s < number (header block)" using assms(2) by (simp add: fresh_block_def)
  moreover have "\<exists>m. get_transaction_by_hash (block_tx_hash ops tx) s' = Some m \<and>
      mined_block_hash m = h \<and> mined_block_number m = number (header block)"
    if "keeper = None" "tx \<in> set (block_transactions block)" for tx
  proof -
    have "block_tx_hash ops tx \<in> transaction_hash ` set infos"
      using that(2) assms(2) unfolding fresh_block_def by (metis image_eqI list.set_map)
    with assms(2) show ?thesis
      using recorded_transaction unfolding s'_def h_def that(1) fresh_block_def by blast
  qed
  ultimately show ?thesis
    using recorded_wf [OF assms(1,2), of merged keeper]
    by (auto simp: s'_def h_def storage_hash_def Let_def recorded_shape get_block_by_hash_def)
qed

definition sample_chain_ops :: "b256 chain_ops" where
  "sample_chain_ops =
     \<lparr>hash_slow = (\<lambda>h. ucast (number h) + 100), block_tx_hash = (\<lambda>tx. tx), calculate_transaction_root = (\<lambda>_. 0),
      EMPTY_OMMER_ROOT_HASH = 0, EMPTY_WITHDRAWALS = 0, EMPTY_REQUESTS_HASH = 0\<rparr>"

definition sample_chain :: "(b256, unit, unit) BlockchainStorage" where
  "sample_chain = Storage_new sample_chain_ops \<lparr>SHANGHAI = 1, CANCUN = 2, PRAGUE = (3 :: nat)\<rparr>
     \<lparr>env_gas_limit = 0, env_beneficiary = 0, env_difficulty = 0, env_blob_excess_gas_and_price = None\<rparr>
     2 None 0 0"

definition sample_block :: "b256 Block" where
  "sample_block = Block_new sample_chain_ops (PartialHeader_default\<lparr>ph_number := 1\<rparr>) [7]"

lemmas sample_chain_defs =
  sample_chain_ops_def sample_chain_def sample_block_def Storage_new_def Block_new_def PartialHeader_default_def Let_def

lemma sample_chain_wf: "chain_wf sample_chain_ops sample_chain"
  by (simp add: chain_wf_def numbers_match_def sample_chain_defs)

lemma sample_chain_best: "best_number sample_chain = 0" "best_hash sample_chain = 100"
  by (simp_all add: sample_chain_defs)

lemma sample_block_fresh:
  "fresh_block sample_chain_ops sample_chain sample_block [\<lparr>transaction_hash = 7, transaction_details = ()\<rparr>] [()]"
  by (simp add: fresh_block_def sample_chain_defs)

lemma sample_mined:
  "mined sample_chain_ops sample_chain
     (record_mined_block sample_chain_ops True None (number (header sample_block)) sample_block
        [\<lparr>transaction_hash = 7, transaction_details = ()\<rparr>] [()] sample_chain)"
  by (rule mined_block [OF mined_none sample_block_fresh])

theorem mined_block_recorded_witness:
  "storage_hash Latest
     (record_mined_block sample_chain_ops False (Some 1) (number (header sample_block)) sample_block
        [\<lparr>transaction_hash = 7, transaction_details = ()\<rparr>] [()] sample_chain) = Some 101"
  using mined_block_recorded [OF sample_chain_wf sample_block_fresh, of False "Some 1"]
  by (simp add: sample_chain_defs)



text \<open>
  What reverting removes, on any storage: the hashes of the numbers above the snapshot up to the
  best one, the blocks of these hashes and the transactions of these blocks, and nothing else; it keeps
  the chain well-formed if the snapshot is of a block on the chain.
\<close>

theorem revert_blocks_exact:
  fixes s :: "('tx, 'i, 'r) BlockchainStorage" and hash :: b256 and ops :: "'tx chain_ops"
  assumes "num \<noteq> - 1"
  defines "gone \<equiv> \<lambda>h. \<exists>n. num < n \<and> n \<le> best_number s \<and> fmlookup (hashes s) n = Some h"
    and "s' \<equiv> revert_blocks ops num hash s"
  shows "fmlookup (hashes s') m = (if num < m \<and> m \<le> best_number s then None else fmlookup (hashes s) m) \<and>
     fmlookup (blocks s') h = (if gone h then None else fmlookup (blocks s) h) \<and>
     fmlookup (transactions s') x =
       (if \<exists>h b. gone h \<and> fmlookup (blocks s) h = Some b \<and> x \<in> block_tx_hash ops ` set (block_transactions b)
        then None else fmlookup (transactions s) x) \<and>
     (chain_wf ops s \<and> fmlookup (hashes s) num = Some hash \<longrightarrow> chain_wf ops s')"
proof -
  have "chain_wf ops s \<and> fmlookup (hashes s) num = Some hash \<longrightarrow> chain_wf ops s'"
    unfolding s'_def using chain_wf_revert [OF _ _ assms(1)] by blast
  moreover have "(\<exists>h b. gone h \<and> fmlookup (blocks s) h = Some b \<and> x \<in> block_tx_hash ops ` set (block_transactions b)) \<longleftrightarrow>
      (\<exists>n. (num < n \<and> n \<le> best_number s) \<and> (\<exists>h b. fmlookup (hashes s) n = Some h \<and> fmlookup (blocks s) h = Some b \<and>
         x \<in> block_tx_hash ops ` set (block_transactions b)))"
    unfolding gone_def by blast
  ultimately show ?thesis
    using revert_blocks_lookup [of ops "rev (block_range (num + 1) (best_number s))" s m h x]
    unfolding set_rev Bex_def block_after_iff [OF assms(1)]
    by (simp add: s'_def revert_blocks_def gone_def conj_assoc)
qed

theorem revert_blocks_exact_witness: "fmlookup (hashes (revert_blocks sample_chain_ops 0 100 sample_chain)) 0 = Some 100"
  using revert_blocks_exact [of 0 sample_chain_ops 100 sample_chain 0] by (simp add: sample_chain_defs)

text \<open>
  Unwinding to a block removes the same hashes and blocks as reverting, and returns the removed
  blocks in ascending order, but leaves every transaction in the index.
\<close>

theorem unwind_keeps_transactions:
  assumes "chain_wf ops s"
  shows "unwind_to ops num hash s =
     ((revert_blocks ops num hash s)\<lparr>transactions := transactions s\<rparr>,
      map snd (blocks_at s (block_range (num + 1) (best_number s))))"
proof -
  have "numbers_match s" using assms by (simp add: chain_wf_def)
  then show ?thesis
    by (simp add: unwind_to_def unwind_blocks_eq distinct_block_range revert_blocks_def
        revert_blocks_any_order [of "rev (block_range (num + 1) (best_number s))" "block_range (num + 1) (best_number s)"])
qed

theorem unwind_keeps_transactions_witness:
  "get_transaction_by_hash 7 (fst (unwind_to sample_chain_ops 0 100
     (record_mined_block sample_chain_ops True None (number (header sample_block)) sample_block
        [\<lparr>transaction_hash = 7, transaction_details = ()\<rparr>] [()] sample_chain))) \<noteq> None"
  using unwind_keeps_transactions [OF chain_wf_record [OF sample_chain_wf sample_block_fresh, of True]]
  by (simp add: get_transaction_by_hash_def record_mined_block_def insert_mined_transactions_def Let_def)

text \<open>
  C24. Saving a chain and loading it, on top of any storage of a node that does not fork, gives a
  storage with all saved blocks, numbers and transactions and the saved best block.
\<close>

theorem save_load_roundtrip:
  assumes "chain_wf ops s" and "enumerates ord"
    and "\<forall>n h. fmlookup (hashes s) n = Some h \<longrightarrow> fmlookup (blocks s) h \<noteq> None"
    and "\<forall>x tx. fmlookup (transactions s) x = Some tx \<longrightarrow> transaction_hash (mined_info tx) = x"
  shows "\<exists>s'. load_chain ops None (serialized_blocks ord s) (serialized_transactions ord s)
        (Some env_number) (Some (best_number s)) s0 = (s', Inr ()) \<and>
     blocks s' = blocks s0 ++\<^sub>f blocks s \<and> hashes s' = hashes s0 ++\<^sub>f hashes s \<and>
     transactions s' = transactions s0 ++\<^sub>f transactions s \<and>
     best_number s' = best_number s \<and> best_hash s' = best_hash s"
proof -
  let ?s1 = "load_blocks ops (serialized_blocks ord s) s0"
  have fields: "blocks ?s1 = blocks s0 ++\<^sub>f blocks s" "hashes ?s1 = hashes s0 ++\<^sub>f hashes s"
    "transactions ?s1 = transactions s0"
    using saved_blocks_loaded [OF assms(1-3)] by (simp_all add: load_blocks_fields)
  have "fmlookup (hashes s0 ++\<^sub>f hashes s) (best_number s) = Some (best_hash s)"
    using assms(1) by (auto simp: chain_wf_def fmlookup_dom_iff)
  then show ?thesis
    by (simp add: load_chain_def saved_transactions_loaded [OF assms(2,4)] set_best_def storage_hash_def Let_def
        fields)
qed

theorem save_load_roundtrip_witness:
  "\<exists>s'. load_chain sample_chain_ops None (serialized_blocks sorted_list_of_fset sample_chain)
        (serialized_transactions sorted_list_of_fset sample_chain) (Some 0) (Some (best_number sample_chain))
        Storage_empty = (s', Inr ()) \<and> best_hash s' = best_hash sample_chain"
proof -
  have "\<forall>n h. fmlookup (hashes sample_chain) n = Some h \<longrightarrow> fmlookup (blocks sample_chain) h \<noteq> None"
    "\<forall>x tx. fmlookup (transactions sample_chain) x = Some tx \<longrightarrow> transaction_hash (mined_info tx) = x"
    by (simp_all add: sample_chain_defs)
  from save_load_roundtrip [OF sample_chain_wf enumerates_sorted_list_of_fset this, of 0 Storage_empty]
  show ?thesis by blast
qed

end
