(* ===== verification/State_Snapshots.thy ===== *)
theory State_Snapshots
  imports Prelude
begin

text \<open>
  Snapshots of the state of the chain: \<open>StateSnapshots\<close> (evm/core/src/state_snapshot.rs) and the two
  operations of the in-memory database on it (anvil/src/eth/backend/mem/in_memory_db.rs). The sums of
  two \<open>U256\<close> wrap.
\<close>

section \<open>The collection\<close>

record 't StateSnapshots =
  next_snapshot_id :: u256
  state_snapshots :: "(u256, 't) fmap"

definition snapshots_default :: "'t StateSnapshots" where
  "snapshots_default = \<lparr>next_snapshot_id = 0, state_snapshots = fmempty\<rparr>"

definition next_id :: "'t StateSnapshots \<Rightarrow> u256 \<times> 't StateSnapshots" where
  "next_id s = (next_snapshot_id s, s\<lparr>next_snapshot_id := saturating_add (next_snapshot_id s) 1\<rparr>)"

definition snapshots_get :: "u256 \<Rightarrow> 't StateSnapshots \<Rightarrow> 't option" where
  "snapshots_get i s = fmlookup (state_snapshots s) i"

text \<open>The loop over the snapshots taken after the removed one.\<close>

function revert_later :: "u256 \<Rightarrow> u256 \<Rightarrow> (u256, 't) fmap \<Rightarrow> (u256, 't) fmap" where
  "revert_later to_revert last_id m =
     (if to_revert < last_id then revert_later (to_revert + 1) last_id (fmdrop to_revert m) else m)"
  by pat_completeness auto

termination
proof (relation "measure (\<lambda>(to_revert, last_id, _). unat last_id - unat to_revert)")
  fix to_revert last_id :: u256 and m :: "(u256, 't) fmap"
  assume lt: "to_revert < last_id"
  then have "unat (to_revert + 1) = Suc (unat to_revert)" by (intro unat_plus_one below_not_max)
  with lt show "((to_revert + 1, last_id, fmdrop to_revert m), to_revert, last_id, m)
      \<in> measure (\<lambda>(to_revert, last_id, _). unat last_id - unat to_revert)"
    by (simp add: word_less_nat_alt diff_less_mono2)
qed simp

declare revert_later.simps [simp del]

definition snapshots_remove :: "u256 \<Rightarrow> 't StateSnapshots \<Rightarrow> 't option \<times> 't StateSnapshots" where
  "snapshots_remove i s =
     (fmlookup (state_snapshots s) i,
      s\<lparr>state_snapshots := revert_later (i + 1) (next_snapshot_id s) (fmdrop i (state_snapshots s))\<rparr>)"

definition snapshots_clear :: "'t StateSnapshots \<Rightarrow> 't StateSnapshots" where
  "snapshots_clear s = s\<lparr>state_snapshots := fmempty\<rparr>"

definition snapshots_remove_at :: "u256 \<Rightarrow> 't StateSnapshots \<Rightarrow> 't option \<times> 't StateSnapshots" where
  "snapshots_remove_at i s =
     (fmlookup (state_snapshots s) i, s\<lparr>state_snapshots := fmdrop i (state_snapshots s)\<rparr>)"

definition snapshots_insert :: "'t \<Rightarrow> 't StateSnapshots \<Rightarrow> u256 \<times> 't StateSnapshots" where
  "snapshots_insert snap s =
     (let (i, s1) = next_id s in (i, s1\<lparr>state_snapshots := fmupd i snap (state_snapshots s1)\<rparr>))"

definition snapshots_insert_at :: "'t \<Rightarrow> u256 \<Rightarrow> 't StateSnapshots \<Rightarrow> u256 \<times> 't StateSnapshots" where
  "snapshots_insert_at snap i s = (i, s\<lparr>state_snapshots := fmupd i snap (state_snapshots s)\<rparr>)"

section \<open>The in-memory database\<close>

datatype RevertStateSnapshotAction = RevertRemove | RevertKeep

definition is_keep :: "RevertStateSnapshotAction \<Rightarrow> bool" where
  "is_keep action \<longleftrightarrow> action = RevertKeep"

record 'db MemDb =
  mem_inner :: 'db
  mem_snapshots :: "'db StateSnapshots"

definition snapshot_state :: "'db MemDb \<Rightarrow> u256 \<times> 'db MemDb" where
  "snapshot_state db =
     (let (i, snaps) = snapshots_insert (mem_inner db) (mem_snapshots db) in (i, db\<lparr>mem_snapshots := snaps\<rparr>))"

definition revert_state :: "u256 \<Rightarrow> RevertStateSnapshotAction \<Rightarrow> 'db MemDb \<Rightarrow> bool \<times> 'db MemDb" where
  "revert_state i action db =
     (case snapshots_remove i (mem_snapshots db) of
        (None, snaps) \<Rightarrow> (False, db\<lparr>mem_snapshots := snaps\<rparr>)
      | (Some snap, snaps) \<Rightarrow>
          (let snaps' = (if is_keep action then snd (snapshots_insert_at snap i snaps) else snaps)
           in (True, db\<lparr>mem_inner := snap, mem_snapshots := snaps'\<rparr>)))"

section \<open>What is removed\<close>

lemma revert_later_lookup:
  "fmlookup (revert_later i last_id m) j = (if i \<le> j \<and> j < last_id then None else fmlookup m j)"
proof (induction i last_id m rule: revert_later.induct)
  case (1 i last_id m)
  show ?case
  proof (cases "i < last_id")
    case True
    then have "unat (i + 1) = Suc (unat i)" by (intro unat_plus_one below_not_max)
    then have "i + 1 \<le> j \<longleftrightarrow> i \<le> j \<and> j \<noteq> i"
      by (auto simp: word_le_nat_alt word_unat_eq_iff)
    with 1 [OF True] True show ?thesis by (subst revert_later.simps) auto
  next
    case False
    then show ?thesis by (subst revert_later.simps) auto
  qed
qed

lemma snapshots_remove_lookup:
  assumes "i \<noteq> - 1"
  shows "fmlookup (state_snapshots (snd (snapshots_remove i s))) j =
     (if j = i \<or> i < j \<and> j < next_snapshot_id s then None else fmlookup (state_snapshots s) j)"
proof -
  have "i + 1 \<le> j \<longleftrightarrow> i < j"
    using unat_plus_one [OF assms] by (simp add: word_le_nat_alt word_less_nat_alt Suc_le_eq)
  then show ?thesis by (simp add: snapshots_remove_def revert_later_lookup)
qed

lemma saturating_succ_gt:
  fixes a b :: "'a::len word"
  assumes "a \<le> b" and "a \<noteq> - 1"
  shows "a < saturating_add b 1"
proof -
  have "unat a \<noteq> 2 ^ LENGTH('a) - 1" using assms(2) unat_max_word by (metis word_unat_eq_iff)
  then have "unat a < 2 ^ LENGTH('a) - 1" using unat_below [of a] by linarith
  moreover have "unat a < Suc (unat b)" using assms(1) by (simp add: word_le_nat_alt)
  ultimately show ?thesis by (simp add: word_less_nat_alt unat_saturating_add)
qed

text \<open>
  The database under writes, further snapshots and reverts. A snapshot is safe while later snapshots
  only are reverted.
\<close>

datatype 'db MemDbOp = DbWrite 'db | DbSnapshot | DbRevert u256 RevertStateSnapshotAction

fun memdb_step :: "'db MemDbOp \<Rightarrow> 'db MemDb \<Rightarrow> 'db MemDb option" where
  "memdb_step (DbWrite v) db = Some (db\<lparr>mem_inner := v\<rparr>)"
| "memdb_step DbSnapshot db = Some (snd (snapshot_state db))"
| "memdb_step (DbRevert i action) db = Some (snd (revert_state i action db))"

fun reverts_after :: "u256 \<Rightarrow> 'db MemDbOp \<Rightarrow> bool" where
  "reverts_after i (DbRevert j action) \<longleftrightarrow> i < j \<and> j \<noteq> - 1"
| "reverts_after i _ \<longleftrightarrow> True"

definition snapshot_held :: "u256 \<Rightarrow> 'db \<Rightarrow> 'db MemDb \<Rightarrow> bool" where
  "snapshot_held i v db \<longleftrightarrow>
     fmlookup (state_snapshots (mem_snapshots db)) i = Some v \<and> i < next_snapshot_id (mem_snapshots db)"

lemma snapshot_held_step:
  assumes "snapshot_held i v db" and "reverts_after i x" and "i \<noteq> - 1"
  shows "\<exists>db'. memdb_step x db = Some db' \<and> snapshot_held i v db'"
proof (cases x)
  case DbSnapshot
  have "i < saturating_add (next_snapshot_id (mem_snapshots db)) 1"
    using assms(1,3) by (intro saturating_succ_gt) (auto simp: snapshot_held_def)
  with assms(1) DbSnapshot show ?thesis
    by (auto simp: snapshot_held_def snapshot_state_def snapshots_insert_def next_id_def)
next
  case (DbRevert j action)
  with assms(2) have "i < j" "j \<noteq> - 1" by simp_all
  with assms(1) have kept: "fmlookup (state_snapshots (snd (snapshots_remove j (mem_snapshots db)))) i = Some v"
    using less_asym [of i j] by (auto simp: snapshots_remove_lookup snapshot_held_def)
  moreover have "next_snapshot_id (snd (snapshots_remove j (mem_snapshots db))) = next_snapshot_id (mem_snapshots db)"
    by (simp add: snapshots_remove_def)
  ultimately show ?thesis
    using assms(1) DbRevert \<open>i < j\<close>
    by (auto simp: snapshot_held_def revert_state_def snapshots_insert_at_def Let_def split: prod.splits option.splits)
qed (use assms in \<open>simp add: snapshot_held_def\<close>)

interpretation memdb_ops: op_system memdb_step "reverts_after i" "\<lambda>db. snapshot_held i v db \<and> i \<noteq> - 1"
  for i and v :: 'db
proof
  fix db and x :: "'db MemDbOp"
  assume "snapshot_held i v db \<and> i \<noteq> - 1" "reverts_after i x"
  with snapshot_held_step [of i v db x]
  show "\<exists>db'. memdb_step x db = Some db' \<and> snapshot_held i v db' \<and> i \<noteq> - 1" by blast
qed

section \<open>Properties\<close>

text \<open>
  Removing a snapshot removes exactly it and the snapshots taken after it. The largest identifier
  is an exception: there the loop starts again at zero and removes every snapshot.
\<close>

theorem snapshots_remove_exact:
  "fst (snapshots_remove i s) = snapshots_get i s \<and>
   snapshots_get j (snd (snapshots_remove i s)) =
     (if j = i \<or> (i < j \<or> i = - 1) \<and> j < next_snapshot_id s then None else snapshots_get j s)"
proof (cases "i = - 1")
  case True
  then show ?thesis by (auto simp: snapshots_remove_def snapshots_get_def revert_later_lookup)
next
  case False
  then show ?thesis
    by (simp add: snapshots_get_def snapshots_remove_lookup) (simp add: snapshots_remove_def)
qed

text \<open>
  A snapshot of the database brings back the state at which it was taken, after any sequence of
  writes, further snapshots and reverts to later snapshots.
\<close>

theorem revert_restores_state:
  assumes "snapshot_state db = (i, db1)" and "i \<noteq> - 1"
    and "list_all (reverts_after i) xs" and "run_ops memdb_step xs db1 = Some db2"
  shows "\<exists>db3. revert_state i action db2 = (True, db3) \<and> mem_inner db3 = mem_inner db \<and>
     (snapshots_get i (mem_snapshots db3) = (if is_keep action then Some (mem_inner db) else None)) \<and>
     (\<forall>j > i. j < next_snapshot_id (mem_snapshots db2) \<longrightarrow> snapshots_get j (mem_snapshots db3) = None)"
proof -
  have "i < saturating_add i 1" by (rule saturating_succ_gt [OF _ assms(2)]) simp
  with assms(1) have "snapshot_held i (mem_inner db) db1"
    by (auto simp: snapshot_held_def snapshot_state_def snapshots_insert_def next_id_def)
  with memdb_ops.run_reaches_inv [OF _ assms(3,4)] assms(2)
  have "fmlookup (state_snapshots (mem_snapshots db2)) i = Some (mem_inner db)"
    by (simp add: snapshot_held_def)
  then have fst: "fst (snapshots_remove i (mem_snapshots db2)) = Some (mem_inner db)"
    by (simp add: snapshots_remove_def)
  obtain r snaps where r: "snapshots_remove i (mem_snapshots db2) = (r, snaps)" by fastforce
  have "snapshots_get j snaps = None" if "j = i \<or> i < j \<and> j < next_snapshot_id (mem_snapshots db2)" for j
    using snapshots_remove_lookup [OF assms(2), of "mem_snapshots db2" j] that r by (simp add: snapshots_get_def)
  then show ?thesis
    using fst r by (auto simp: revert_state_def snapshots_insert_at_def snapshots_get_def Let_def)
qed

definition sample_memdb :: "nat MemDb" where
  "sample_memdb = \<lparr>mem_inner = 5, mem_snapshots = snapshots_default\<rparr>"

definition sample_memdb_ops :: "nat MemDbOp list" where
  "sample_memdb_ops = [DbWrite 6, DbSnapshot, DbWrite 7, DbRevert 1 RevertKeep]"

theorem revert_restores_state_witness:
  "\<exists>db2 db3. run_ops memdb_step sample_memdb_ops (snd (snapshot_state sample_memdb)) = Some db2 \<and>
     mem_inner db2 = 6 \<and> revert_state 0 RevertRemove db2 = (True, db3) \<and> mem_inner db3 = 5"
proof -
  let ?db1 = "snd (snapshot_state sample_memdb)"
  have "snapshot_state sample_memdb = (0, ?db1)"
    by (simp add: snapshot_state_def sample_memdb_def snapshots_default_def snapshots_insert_def next_id_def)
  moreover have "list_all (reverts_after 0) sample_memdb_ops" by (simp add: sample_memdb_ops_def)
  moreover have "\<exists>db2. run_ops memdb_step sample_memdb_ops ?db1 = Some db2 \<and> mem_inner db2 = 6"
    by (simp add: sample_memdb_ops_def sample_memdb_def snapshot_state_def snapshots_default_def
        snapshots_insert_def next_id_def saturating_add_def revert_state_def snapshots_remove_def Let_def)
  ultimately show ?thesis
    using revert_restores_state [of sample_memdb 0 ?db1] by (fastforce simp: sample_memdb_def)
qed

end
