(* ===== verification/Backend_Snapshots.thy ===== *)
theory Backend_Snapshots
  imports Chain_Storage Time_Manager State_Snapshots
begin

text \<open>
  \<open>evm_snapshot\<close> and \<open>evm_revert\<close>: \<open>Backend::create_state_snapshot\<close> and
  \<open>Backend::revert_state_snapshot\<close> (anvil/src/eth/backend/mem/mod.rs), which tie together the block
  storage, the in-memory database and the block clock. The remote node of a forked chain is the
  parameter \<open>fork_block\<close> (always \<open>Inr None\<close> without a fork); the wall clock is \<open>now\<close>.
\<close>

section \<open>State and operations\<close>

record SnapshotEnv =
  env_number :: u256
  env_timestamp :: u256
  env_block_difficulty :: u256
  env_prevrandao :: "b256 option"
  env_block_gas_limit :: u64
  env_block_beneficiary :: address
  env_basefee :: u64
  env_blob :: "(u64 \<times> u128) option"

record ('db, 'tx, 'i, 'r) Backend =
  chain :: "('tx, 'i, 'r) BlockchainStorage"
  database :: "'db MemDb"
  active_state_snapshots :: "(u256, u64 \<times> b256) fmap"
  clock :: TimeManager
  env :: SnapshotEnv

datatype BlockchainError = BlockNotFound | ForkError string

definition create_state_snapshot :: "('db, 'tx, 'i, 'r) Backend \<Rightarrow> u256 \<times> ('db, 'tx, 'i, 'r) Backend" where
  "create_state_snapshot b =
     (let num = best_number (chain b);
          hash = best_hash (chain b);
          (i, db) = snapshot_state (database b)
      in (i, b\<lparr>database := db, active_state_snapshots := fmupd i (num, hash) (active_state_snapshots b)\<rparr>))"

definition block_by_hash ::
    "(b256 \<Rightarrow> string + Header option) \<Rightarrow> b256 \<Rightarrow> ('tx, 'i, 'r) BlockchainStorage \<Rightarrow> BlockchainError + Header option" where
  "block_by_hash fork_block hash s =
     (case get_block_by_hash hash s of
        Some block \<Rightarrow> Inr (Some (header block))
      | None \<Rightarrow> (case fork_block hash of Inl e \<Rightarrow> Inl (ForkError e) | Inr h \<Rightarrow> Inr h))"

definition revert_env :: "(u64 \<times> u128) option \<Rightarrow> u64 \<Rightarrow> Header \<Rightarrow> SnapshotEnv \<Rightarrow> SnapshotEnv" where
  "revert_env default_blob num h e =
     \<lparr>env_number = ucast num, env_timestamp = ucast (timestamp h), env_block_difficulty = difficulty h,
      env_prevrandao = Some (mix_hash h), env_block_gas_limit = gas_limit h,
      env_block_beneficiary = env_block_beneficiary e, env_basefee = env_basefee e, env_blob = default_blob\<rparr>"

definition revert_state_snapshot ::
    "'tx chain_ops \<Rightarrow> (b256 \<Rightarrow> string + Header option) \<Rightarrow> (u64 \<times> u128) option \<Rightarrow> u64 \<Rightarrow> u256
       \<Rightarrow> ('db, 'tx, 'i, 'r) Backend \<Rightarrow> (BlockchainError + bool) \<times> ('db, 'tx, 'i, 'r) Backend" where
  "revert_state_snapshot ops fork_block default_blob now i b =
     (let finish = (\<lambda>b. let (ok, db) = revert_state i RevertRemove (database b) in (Inr ok, b\<lparr>database := db\<rparr>));
          b1 = b\<lparr>active_state_snapshots := fmdrop i (active_state_snapshots b)\<rparr>
      in case fmlookup (active_state_snapshots b) i of
           None \<Rightarrow> finish b1
         | Some (num, hash) \<Rightarrow>
             (let b2 = b1\<lparr>chain := revert_blocks ops num hash (chain b1)\<rparr> in
              case block_by_hash fork_block hash (chain b2) of
                Inl e \<Rightarrow> (Inl e, b2)
              | Inr None \<Rightarrow> (Inl BlockNotFound, b2)
              | Inr (Some h) \<Rightarrow>
                  finish (b2\<lparr>clock := time_reset now (timestamp h) (clock b2),
                             env := revert_env default_blob num h (env b2)\<rparr>)))"

definition list_state_snapshots :: "('db, 'tx, 'i, 'r) Backend \<Rightarrow> (u256 \<times> u64 \<times> b256) list" where
  "list_state_snapshots b =
     map (\<lambda>i. (i, the (fmlookup (active_state_snapshots b) i))) (sorted_list_of_fset (fmdom (active_state_snapshots b)))"

section \<open>Between a snapshot and its revert\<close>

text \<open>
  The node goes on: blocks are mined, which writes the database, the clock and the environment in any
  way, and further snapshots are taken.
\<close>

inductive evolves ::
    "'tx chain_ops \<Rightarrow> ('db, 'tx, 'i, 'r) Backend \<Rightarrow> ('db, 'tx, 'i, 'r) Backend \<Rightarrow> bool" for ops b where
  evolves_none: "evolves ops b b"
| evolves_mine: "evolves ops b c \<Longrightarrow> fresh_block ops (chain c) block infos receipts \<Longrightarrow>
    evolves ops b
      (c\<lparr>chain := record_mined_block ops True None (number (header block)) block infos receipts (chain c),
         database := (database c)\<lparr>mem_inner := v\<rparr>, clock := tm, env := e\<rparr>)"
| evolves_snapshot: "evolves ops b c \<Longrightarrow> evolves ops b (snd (create_state_snapshot c))"

definition holds :: "u256 \<Rightarrow> 'db \<Rightarrow> u64 \<times> b256 \<Rightarrow> ('db, 'tx, 'i, 'r) Backend \<Rightarrow> bool" where
  "holds i v at b \<longleftrightarrow> snapshot_held i v (database b) \<and> fmlookup (active_state_snapshots b) i = Some at"

lemma create_holds:
  assumes "create_state_snapshot b = (i, b1)" and "i \<noteq> - 1"
  shows "holds i (mem_inner (database b)) (best_number (chain b), best_hash (chain b)) b1" and "chain b1 = chain b"
    and "mem_inner (database b1) = mem_inner (database b)"
proof -
  have "i < saturating_add i 1" by (rule saturating_succ_gt [OF _ assms(2)]) simp
  with assms(1) show "holds i (mem_inner (database b)) (best_number (chain b), best_hash (chain b)) b1" "chain b1 = chain b"
    "mem_inner (database b1) = mem_inner (database b)"
    by (auto simp: create_state_snapshot_def holds_def snapshot_held_def snapshot_state_def snapshots_insert_def
        next_id_def Let_def)
qed

lemma create_keeps_chain: "chain (snd (create_state_snapshot b)) = chain b"
  by (simp add: create_state_snapshot_def Let_def split: prod.split)

lemma create_keeps_held:
  assumes "holds i v at b" and "i \<noteq> - 1"
  shows "holds i v at (snd (create_state_snapshot b))"
proof -
  from assms have "i \<le> next_snapshot_id (mem_snapshots (database b))" and "i < next_snapshot_id (mem_snapshots (database b))"
    by (auto simp: holds_def snapshot_held_def)
  with saturating_succ_gt [OF this(1) assms(2)] assms(1) show ?thesis
    by (auto simp: create_state_snapshot_def holds_def snapshot_held_def snapshot_state_def snapshots_insert_def
        next_id_def Let_def)
qed

lemma evolves_mined:
  assumes "evolves ops b c" and "holds i v at b" and "i \<noteq> - 1"
  shows "mined ops (chain b) (chain c) \<and> holds i v at c"
  using assms(1)
proof induction
  case evolves_none
  then show ?case using assms(2) by (simp add: mined_none)
next
  case (evolves_mine c block infos receipts v' tm e)
  then show ?case by (simp add: mined_block holds_def snapshot_held_def)
next
  case (evolves_snapshot c)
  then show ?case
    by (simp add: create_keeps_chain create_keeps_held [OF _ assms(3)])
qed

lemma revert_held:
  assumes "holds i v (num, hash) b" and "get_block_by_hash hash (revert_blocks ops num hash (chain b)) = Some block"
  shows "\<exists>b'. revert_state_snapshot ops fork_block blob now i b = (Inr True, b') \<and>
     chain b' = revert_blocks ops num hash (chain b) \<and> mem_inner (database b') = v \<and>
     clock b' = time_reset now (timestamp (header block)) (clock b) \<and>
     active_state_snapshots b' = fmdrop i (active_state_snapshots b)"
proof -
  from assms(1) have "fmlookup (active_state_snapshots b) i = Some (num, hash)"
    "fmlookup (state_snapshots (mem_snapshots (database b))) i = Some v"
    by (auto simp: holds_def snapshot_held_def)
  then show ?thesis
    by (simp add: revert_state_snapshot_def block_by_hash_def assms(2) Let_def revert_state_def snapshots_remove_def
        is_keep_def)
qed

lemma evolved_revert:
  assumes "create_state_snapshot b = (i, b1)" and "i \<noteq> - 1" and "evolves ops b1 b2"
    and "chain_wf ops (chain b)" and "best_number (chain b) \<noteq> - 1"
    and "get_block_by_hash (best_hash (chain b)) (chain b) = Some block"
  shows "\<exists>b3. revert_state_snapshot ops fork_block blob now i b2 = (Inr True, b3) \<and>
     chain b3 = chain b \<and> mem_inner (database b3) = mem_inner (database b) \<and>
     clock b3 = time_reset now (timestamp (header block)) (clock b2) \<and>
     active_state_snapshots b3 = fmdrop i (active_state_snapshots b2)"
proof -
  note b1 = create_holds [OF assms(1,2)]
  from evolves_mined [OF assms(3) b1(1) assms(2)]
  have m: "mined ops (chain b) (chain b2)"
    and h: "holds i (mem_inner (database b)) (best_number (chain b), best_hash (chain b)) b2"
    by (simp_all add: b1(2))
  have restored: "revert_blocks ops (best_number (chain b)) (best_hash (chain b)) (chain b2) = chain b"
    by (rule extends_reverted [OF mined_extends [OF m assms(4)] assms(4,5)])
  from revert_held [OF h, of ops block fork_block blob now] assms(6) show ?thesis
    by (auto simp: restored)
qed

text \<open>A snapshot of a block above the best one removes nothing.\<close>

lemma revert_above:
  assumes "best_number s < num" and "num \<noteq> - 1"
  shows "revert_blocks ops num hash s = s\<lparr>best_number := num, best_hash := hash\<rparr>"
proof -
  have "x \<notin> set (block_range (num + 1) (best_number s))" for x
  proof
    assume "x \<in> set (block_range (num + 1) (best_number s))"
    then have "num < best_number s"
      unfolding block_after_iff [OF assms(2)] by (blast intro: less_le_trans)
    with assms(1) show False by (rule less_asym)
  qed
  then have "block_range (num + 1) (best_number s) = []" by (metis list.set_intros(1) neq_Nil_conv)
  then show ?thesis by (simp add: revert_blocks_def)
qed

section \<open>Properties\<close>


definition sample_backend :: "(nat, b256, unit, unit) Backend" where
  "sample_backend =
     \<lparr>chain = sample_chain, database = sample_memdb, active_state_snapshots = fmempty, clock = TimeManager_new 0 0,
      env = revert_env None 0 (header sample_block)
        \<lparr>env_number = 0, env_timestamp = 0, env_block_difficulty = 0, env_prevrandao = None, env_block_gas_limit = 0,
         env_block_beneficiary = 0, env_basefee = 0, env_blob = None\<rparr>\<rparr>"

abbreviation sample_infos :: "unit TransactionInfo list" where
  "sample_infos \<equiv> [\<lparr>transaction_hash = 7, transaction_details = ()\<rparr>]"

definition sample_snapshotted :: "(nat, b256, unit, unit) Backend" where
  "sample_snapshotted = snd (create_state_snapshot sample_backend)"

definition sample_grown :: "(nat, b256, unit, unit) Backend" where
  "sample_grown = sample_snapshotted\<lparr>chain := record_mined_block sample_chain_ops True None
     (number (header sample_block)) sample_block sample_infos [()] (chain sample_snapshotted)\<rparr>"

lemmas sample_backend_defs =
  sample_backend_def sample_snapshotted_def sample_grown_def create_state_snapshot_def snapshot_state_def
  sample_memdb_def snapshots_insert_def snapshots_default_def next_id_def saturating_add_def Let_def

lemma sample_backend_snapshot: "create_state_snapshot sample_backend = (0, sample_snapshotted)"
  by (simp add: sample_backend_defs)

lemma sample_backend_chain: "chain sample_backend = sample_chain" "chain sample_snapshotted = sample_chain"
  by (simp_all add: sample_backend_defs)

lemma sample_backend_block: "\<exists>block. get_block_by_hash (best_hash sample_chain) sample_chain = Some block"
  by (simp add: get_block_by_hash_def sample_chain_defs)

lemma sample_backend_grown: "evolves sample_chain_ops sample_snapshotted sample_grown"
  using evolves_mine [OF evolves_none, of sample_chain_ops sample_snapshotted sample_block sample_infos "[()]",
      where v = "mem_inner (database sample_snapshotted)" and tm = "clock sample_snapshotted" and e = "env sample_snapshotted"]
    sample_block_fresh
  by (simp add: sample_grown_def sample_backend_chain)


text \<open>
  C25. Reverting to a snapshot leaves the snapshots taken after it listed as active although the
  database has dropped them. Reverting to one of these then fails without a fork, but only after the
  best block has been set to one that is no longer stored.
\<close>

theorem stale_snapshot_breaks_chain:
  assumes "create_state_snapshot b = (i, b1)" and "i \<noteq> - 1" and "chain_wf ops (chain b)"
    and "best_number (chain b) \<noteq> - 1"
    and "get_block_by_hash (best_hash (chain b)) (chain b) = Some block0"
    and "fresh_block ops (chain b1) block infos receipts" and "number (header block) \<noteq> - 1"
    and "b2 = b1\<lparr>chain := record_mined_block ops True None (number (header block)) block infos receipts (chain b1)\<rparr>"
    and "create_state_snapshot b2 = (j, b3)" and "j \<noteq> - 1" and "j \<noteq> i"
    and "revert_state_snapshot ops (\<lambda>_. Inr None) blob now i b3 = (r, b4)"
  shows "r = Inr True \<and> fmlookup (active_state_snapshots b4) j \<noteq> None \<and>
     (\<exists>b5. revert_state_snapshot ops (\<lambda>_. Inr None) blob now j b4 = (Inl BlockNotFound, b5) \<and>
        best_number (chain b5) = number (header block) \<and>
        get_block_by_hash (best_hash (chain b5)) (chain b5) = None)"
proof -
  let ?n = "number (header block)" and ?h = "hash_slow ops (header block)"
  have "evolves ops b1 b2"
    using evolves_mine [OF evolves_none assms(6), where v = "mem_inner (database b1)" and tm = "clock b1" and e = "env b1"]
    by (simp add: assms(8))
  then have "evolves ops b1 b3" using evolves_snapshot [of ops b1 b2] by (simp add: assms(9))
  from evolved_revert [OF assms(1,2) this assms(3,4,5), of "\<lambda>_. Inr None" blob now] assms(12)
  have b4: "r = Inr True" "chain b4 = chain b" "active_state_snapshots b4 = fmdrop i (active_state_snapshots b3)"
    by auto
  have "holds j (mem_inner (database b2)) (?n, ?h) b3"
    using create_holds(1) [OF assms(9,10)] by (simp add: assms(8) record_mined_block_def Let_def)
  then have j: "fmlookup (active_state_snapshots b4) j = Some (?n, ?h)"
    using assms(11) by (simp add: b4(3) holds_def)
  have "best_number (chain b) < ?n" "fmlookup (blocks (chain b)) ?h = None"
    using assms(6) by (simp_all add: fresh_block_def create_holds(2) [OF assms(1,2)])
  then show ?thesis
    using b4(1) j
    by (simp add: revert_state_snapshot_def Let_def b4(2) revert_above assms(7) block_by_hash_def get_block_by_hash_def)
qed

theorem stale_snapshot_breaks_chain_witness:
  "\<exists>b4 b5. revert_state_snapshot sample_chain_ops (\<lambda>_. Inr None) None 50 0 (snd (create_state_snapshot sample_grown)) =
       (Inr True, b4) \<and>
     revert_state_snapshot sample_chain_ops (\<lambda>_. Inr None) None 50 1 b4 = (Inl BlockNotFound, b5) \<and>
     get_block_by_hash (best_hash (chain b5)) (chain b5) = None"
proof -
  let ?b3 = "snd (create_state_snapshot sample_grown)"
  obtain block where block: "get_block_by_hash (best_hash (chain sample_backend)) (chain sample_backend) = Some block"
    using sample_backend_block by (auto simp: sample_backend_chain)
  have wf: "chain_wf sample_chain_ops (chain sample_backend)" and best: "best_number (chain sample_backend) \<noteq> - 1"
    and fresh: "fresh_block sample_chain_ops (chain sample_snapshotted) sample_block sample_infos [()]"
    using sample_chain_wf sample_block_fresh by (simp_all add: sample_backend_chain sample_chain_best)
  have num: "number (header sample_block) \<noteq> - 1" by (simp add: sample_chain_defs)
  have second: "create_state_snapshot sample_grown = (1, ?b3)" by (simp add: sample_backend_defs)
  obtain r b4 where "revert_state_snapshot sample_chain_ops (\<lambda>_. Inr None) None 50 0 ?b3 = (r, b4)" by fastforce
  with stale_snapshot_breaks_chain [OF sample_backend_snapshot _ wf best block fresh num sample_grown_def second _ _ this]
  show ?thesis by auto
qed

end
