(* ===== verification/Fee_Service.thy ===== *)
theory Fee_Service
  imports Pool_Types Chain_Storage
begin

text \<open>
  Fees (anvil/src/eth/fees.rs): the \<open>FeeManager\<close> with the fees of the next block, the service that
  keeps the fee history of recent blocks, and \<open>FeeDetails\<close>, which checks the fee fields of a request.
  The formulas for the next base fee and blob fee come from alloy and are parameters (\<open>fee_ops\<close>), as is
  floating-point arithmetic (\<open>f64_ops\<close>).
\<close>

section \<open>Fee manager\<close>

definition MAX_FEE_HISTORY_CACHE_SIZE :: u64 where "MAX_FEE_HISTORY_CACHE_SIZE = 2048"
definition INITIAL_BASE_FEE :: u64 where "INITIAL_BASE_FEE = 1000000000"
definition INITIAL_GAS_PRICE :: u128 where "INITIAL_GAS_PRICE = 1875000000"

record BlobExcessGasAndPrice =
  blob_excess_gas :: u64
  blob_gasprice :: u128

record ('s, 'f) FeeManager =
  fee_spec_id :: 's
  manager_base_fee :: u64
  min_priority_fee_enforced :: bool
  blob_excess_gas_and_price :: BlobExcessGasAndPrice
  manager_gas_price :: u128
  manager_elasticity :: 'f

record 's fee_ops =
  LONDON :: 's
  FORK_CANCUN :: 's
  calc_next_block_base_fee :: "u64 \<Rightarrow> u64 \<Rightarrow> u64 \<Rightarrow> u64"
  calc_blob_gasprice :: "u64 \<Rightarrow> u128"
  calc_excess_blob_gas :: "u64 \<Rightarrow> u64 \<Rightarrow> u64"
  new_blob_price :: "u64 \<Rightarrow> BlobExcessGasAndPrice"

definition FeeManager_new ::
    "'f \<Rightarrow> 's \<Rightarrow> u64 \<Rightarrow> bool \<Rightarrow> u128 \<Rightarrow> BlobExcessGasAndPrice \<Rightarrow> ('s, 'f) FeeManager" where
  "FeeManager_new default_elasticity spec_id base_fee enforced price blob =
     \<lparr>fee_spec_id = spec_id, manager_base_fee = base_fee, min_priority_fee_enforced = enforced,
      blob_excess_gas_and_price = blob, manager_gas_price = price, manager_elasticity = default_elasticity\<rparr>"

definition is_eip1559 :: "'s::linorder fee_ops \<Rightarrow> ('s, 'f) FeeManager \<Rightarrow> bool" where
  "is_eip1559 ops fm \<longleftrightarrow> LONDON ops \<le> fee_spec_id fm"

definition is_eip4844 :: "'s::linorder fee_ops \<Rightarrow> ('s, 'f) FeeManager \<Rightarrow> bool" where
  "is_eip4844 ops fm \<longleftrightarrow> FORK_CANCUN ops \<le> fee_spec_id fm"

definition base_fee_per_blob_gas :: "'s::linorder fee_ops \<Rightarrow> ('s, 'f) FeeManager \<Rightarrow> u128" where
  "base_fee_per_blob_gas ops fm =
     (if is_eip4844 ops fm then blob_gasprice (blob_excess_gas_and_price fm) else 0)"

definition blob_gas_price :: "'s::linorder fee_ops \<Rightarrow> ('s, 'f) FeeManager \<Rightarrow> u128" where
  "blob_gas_price ops fm = (if is_eip4844 ops fm then base_fee_per_blob_gas ops fm else 0)"

definition base_fee :: "'s::linorder fee_ops \<Rightarrow> ('s, 'f) FeeManager \<Rightarrow> u64" where
  "base_fee ops fm = (if is_eip1559 ops fm then manager_base_fee fm else 0)"

definition excess_blob_gas_and_price ::
    "'s::linorder fee_ops \<Rightarrow> ('s, 'f) FeeManager \<Rightarrow> BlobExcessGasAndPrice option" where
  "excess_blob_gas_and_price ops fm = (if is_eip4844 ops fm then Some (blob_excess_gas_and_price fm) else None)"

definition set_gas_price :: "u128 \<Rightarrow> ('s, 'f) FeeManager \<Rightarrow> ('s, 'f) FeeManager" where
  "set_gas_price price fm = fm\<lparr>manager_gas_price := price\<rparr>"

definition set_base_fee :: "u64 \<Rightarrow> ('s, 'f) FeeManager \<Rightarrow> ('s, 'f) FeeManager" where
  "set_base_fee fee fm = fm\<lparr>manager_base_fee := fee\<rparr>"

definition set_blob_excess_gas_and_price ::
    "BlobExcessGasAndPrice \<Rightarrow> ('s, 'f) FeeManager \<Rightarrow> ('s, 'f) FeeManager" where
  "set_blob_excess_gas_and_price blob fm = fm\<lparr>blob_excess_gas_and_price := blob\<rparr>"

definition get_next_block_base_fee_per_gas ::
    "'s::linorder fee_ops \<Rightarrow> u64 \<Rightarrow> u64 \<Rightarrow> u64 \<Rightarrow> ('s, 'f) FeeManager \<Rightarrow> u64" where
  "get_next_block_base_fee_per_gas ops used limit last_fee_per_gas fm =
     (if base_fee ops fm = 0 then 0 else calc_next_block_base_fee ops used limit last_fee_per_gas)"

definition get_next_block_blob_base_fee_per_gas :: "'s fee_ops \<Rightarrow> u128 \<Rightarrow> u128" where
  "get_next_block_blob_base_fee_per_gas ops excess = calc_blob_gasprice ops (ucast excess)"

definition get_next_block_blob_excess_gas :: "'s fee_ops \<Rightarrow> u64 \<Rightarrow> u64 \<Rightarrow> u64" where
  "get_next_block_blob_excess_gas ops a b = calc_excess_blob_gas ops a b"

text \<open>The end of \<open>do_mine_block\<close>: the fees of the block after a mined one.\<close>

definition fees_after_block ::
    "'s::linorder fee_ops \<Rightarrow> Header \<Rightarrow> ('s, 'f) FeeManager \<Rightarrow> ('s, 'f) FeeManager" where
  "fees_after_block ops h fm =
     (let next_base_fee = get_next_block_base_fee_per_gas ops (gas_used h) (gas_limit h)
            (case base_fee_per_gas h of Some f \<Rightarrow> f | None \<Rightarrow> 0) fm;
          next_excess = get_next_block_blob_excess_gas ops
            (case excess_blob_gas h of Some g \<Rightarrow> g | None \<Rightarrow> 0) (case blob_gas_used h of Some g \<Rightarrow> g | None \<Rightarrow> 0)
      in set_blob_excess_gas_and_price (new_blob_price ops next_excess) (set_base_fee next_base_fee fm))"

section \<open>Fee history\<close>

record 'f f64_ops =
  f_zero :: 'f
  f_half :: 'f
  f_hundred :: 'f
  f_max_blobs :: 'f
  f_add :: "'f \<Rightarrow> 'f \<Rightarrow> 'f"
  f_mul :: "'f \<Rightarrow> 'f \<Rightarrow> 'f"
  f_div :: "'f \<Rightarrow> 'f \<Rightarrow> 'f"
  f_of_u64 :: "u64 \<Rightarrow> 'f"
  f_to_u64 :: "'f \<Rightarrow> u64"

record 'f FeeHistoryCacheItem =
  item_base_fee :: u128
  item_gas_used_ratio :: 'f
  item_base_fee_per_blob_gas :: "u128 option"
  item_blob_gas_used_ratio :: 'f
  item_excess_blob_gas :: "u128 option"
  item_blob_gas_used :: "u128 option"
  item_rewards :: "u128 list"

text \<open>
  The service reads blocks and receipts from the storage and the blob fee of a header from alloy; of a
  receipt it takes the cumulative gas used.
\<close>

record 'f FeeHistoryService =
  header_blob_fee :: "Header \<Rightarrow> u128 option"
  storage_block :: "b256 \<Rightarrow> TypedTransaction Block option"
  storage_receipts :: "b256 \<Rightarrow> u64 list option"
  fee_history_limit :: u64
  fee_cache :: "(u64, 'f FeeHistoryCacheItem) fmap"

definition reward_percentiles :: "'f f64_ops \<Rightarrow> 'f list" where
  "reward_percentiles fo = map (\<lambda>i. ((\<lambda>p. f_add fo p (f_half fo)) ^^ i) (f_zero fo)) [0..<201]"

fun effective_reward :: "u128 \<Rightarrow> TypedTransaction option \<Rightarrow> u128" where
  "effective_reward fee (Some (Legacy t)) = saturating_sub (legacy_gas_price t) fee"
| "effective_reward fee (Some (EIP2930 t)) = saturating_sub (eip2930_gas_price t) fee"
| "effective_reward fee (Some (EIP1559 t)) = min (eip1559_max_priority_fee t) (saturating_sub (eip1559_max_fee t) fee)"
| "effective_reward fee (Some (EIP4844 t)) =
     min (eip4844_max_priority_fee (variant_tx t)) (saturating_sub (eip4844_max_fee (variant_tx t)) fee)"
| "effective_reward fee (Some (EIP7702 t)) = min (eip7702_max_priority_fee t) (saturating_sub (eip7702_max_fee t) fee)"
| "effective_reward fee (Some (Deposit t)) = 0"
| "effective_reward fee None = 0"

text \<open>The rewards of the transactions of a block, in ascending order; the sort is stable.\<close>

definition nth_option :: "'a list \<Rightarrow> nat \<Rightarrow> 'a option" where
  "nth_option xs i = (if i < length xs then Some (xs ! i) else None)"

definition sorted_rewards :: "u128 \<Rightarrow> TypedTransaction list \<Rightarrow> u64 list \<Rightarrow> (u64 \<times> u128) list" where
  "sorted_rewards fee txs receipts =
     sort_key snd (map (\<lambda>(i, gas). (gas, effective_reward fee (nth_option txs i))) (enumerate 0 receipts))"

fun reward_at :: "u64 \<Rightarrow> u64 \<Rightarrow> (u64 \<times> u128) list \<Rightarrow> u128 option" where
  "reward_at target_gas sum_gas [] = None"
| "reward_at target_gas sum_gas ((gas, reward) # txs) =
     (if target_gas \<le> sum_gas + gas then Some reward else reward_at target_gas (sum_gas + gas) txs)"

definition target_gas :: "'f f64_ops \<Rightarrow> 'f \<Rightarrow> 'f \<Rightarrow> u64" where
  "target_gas fo used p = f_to_u64 fo (f_div fo (f_mul fo p used) (f_hundred fo))"

definition create_cache_entry ::
    "'f f64_ops \<Rightarrow> 'f FeeHistoryService \<Rightarrow> b256 \<Rightarrow> Header \<Rightarrow> 'f FeeHistoryCacheItem \<times> u64 option" where
  "create_cache_entry fo svc hash h =
     (let fee = (case base_fee_per_gas h of Some g \<Rightarrow> ucast g | None \<Rightarrow> 0);
          item = \<lparr>item_base_fee = fee, item_gas_used_ratio = f_zero fo,
                  item_base_fee_per_blob_gas = header_blob_fee svc h, item_blob_gas_used_ratio = f_zero fo,
                  item_excess_blob_gas = map_option ucast (excess_blob_gas h),
                  item_blob_gas_used = map_option ucast (blob_gas_used h), item_rewards = []\<rparr>
      in case (storage_block svc hash, storage_receipts svc hash) of
           (Some block, Some receipts) \<Rightarrow>
             (let used = f_of_u64 fo (gas_used (header block));
                  txs = sorted_rewards fee (block_transactions block) receipts
              in (item\<lparr>item_gas_used_ratio := f_div fo used (f_of_u64 fo (gas_limit (header block))),
                       item_blob_gas_used_ratio :=
                         (case blob_gas_used (header block) of
                            Some g \<Rightarrow> f_div fo (f_of_u64 fo g) (f_max_blobs fo) | None \<Rightarrow> f_zero fo),
                       item_rewards :=
                         List.map_filter (\<lambda>p. reward_at (target_gas fo used p) 0 txs) (reward_percentiles fo)\<rparr>,
                  Some (number (header block))))
         | _ \<Rightarrow> (item\<lparr>item_rewards := map (\<lambda>_. 0) (reward_percentiles fo)\<rparr>, None))"

definition insert_cache_entry ::
    "'f FeeHistoryCacheItem \<Rightarrow> u64 option \<Rightarrow> 'f FeeHistoryService \<Rightarrow> 'f FeeHistoryService" where
  "insert_cache_entry item block_number svc =
     (case block_number of
        None \<Rightarrow> svc
      | Some n \<Rightarrow>
          (let cache = fmupd n item (fee_cache svc);
               pop_next = saturating_sub n (fee_history_limit svc);
               num_remove = saturating_sub (of_nat (fcard (fmdom cache))) (fee_history_limit svc)
           in svc\<lparr>fee_cache := fold (\<lambda>i. fmdrop (pop_next - of_nat i)) [0..<unat num_remove] cache\<rparr>))"

definition insert_cache_entry_for_block ::
    "'f f64_ops \<Rightarrow> b256 \<Rightarrow> Header \<Rightarrow> 'f FeeHistoryService \<Rightarrow> 'f FeeHistoryService" where
  "insert_cache_entry_for_block fo hash h svc =
     (let (item, block_number) = create_cache_entry fo svc hash h in insert_cache_entry item block_number svc)"

text \<open>A poll of the service handles all notifications that have arrived.\<close>

definition fee_service_poll ::
    "'f f64_ops \<Rightarrow> (b256 \<times> Header) list \<Rightarrow> 'f FeeHistoryService \<Rightarrow> 'f FeeHistoryService" where
  "fee_service_poll fo notes svc = fold (\<lambda>(hash, h). insert_cache_entry_for_block fo hash h) notes svc"

section \<open>Fee fields of a request\<close>

record FeeDetails =
  fd_gas_price :: "u128 option"
  fd_max_fee_per_gas :: "u128 option"
  fd_max_priority_fee_per_gas :: "u128 option"
  fd_max_fee_per_blob_gas :: "u128 option"

datatype FeeError = InvalidFeeInput

definition FeeDetails_zero :: FeeDetails where
  "FeeDetails_zero =
     \<lparr>fd_gas_price = Some 0, fd_max_fee_per_gas = Some 0, fd_max_priority_fee_per_gas = Some 0,
      fd_max_fee_per_blob_gas = None\<rparr>"

definition or_zero_fees :: "FeeDetails \<Rightarrow> FeeDetails" where
  "or_zero_fees fd =
     (let no_fees = fd_gas_price fd = None \<and> fd_max_fee_per_gas fd = None
      in \<lparr>fd_gas_price = (if no_fees then Some 0 else fd_gas_price fd),
          fd_max_fee_per_gas = (if no_fees then Some 0 else fd_max_fee_per_gas fd),
          fd_max_priority_fee_per_gas = fd_max_priority_fee_per_gas fd,
          fd_max_fee_per_blob_gas = (if no_fees then None else fd_max_fee_per_blob_gas fd)\<rparr>)"

definition fee_split :: "FeeDetails \<Rightarrow> u128 option \<times> u128 option \<times> u128 option \<times> u128 option" where
  "fee_split fd =
     (fd_gas_price fd, fd_max_fee_per_gas fd, fd_max_priority_fee_per_gas fd, fd_max_fee_per_blob_gas fd)"

definition priority_too_high :: "u128 option \<Rightarrow> u128 option \<Rightarrow> bool" where
  "priority_too_high max_fee max_priority =
     (case max_priority of
        None \<Rightarrow> False | Some prio \<Rightarrow> (case max_fee of Some f \<Rightarrow> f | None \<Rightarrow> 0) < prio)"

fun FeeDetails_new ::
    "u128 option \<Rightarrow> u128 option \<Rightarrow> u128 option \<Rightarrow> u128 option \<Rightarrow> FeeError + FeeDetails" where
  "FeeDetails_new price None None None =
     Inr \<lparr>fd_gas_price = price, fd_max_fee_per_gas = price, fd_max_priority_fee_per_gas = price,
          fd_max_fee_per_blob_gas = None\<rparr>"
| "FeeDetails_new _ max_fee max_priority None =
     (if priority_too_high max_fee max_priority then Inl InvalidFeeInput
      else Inr \<lparr>fd_gas_price = max_fee, fd_max_fee_per_gas = max_fee, fd_max_priority_fee_per_gas = max_priority,
                fd_max_fee_per_blob_gas = None\<rparr>)"
| "FeeDetails_new _ max_fee max_priority blob =
     (if priority_too_high max_fee max_priority then Inl InvalidFeeInput
      else Inr \<lparr>fd_gas_price = max_fee, fd_max_fee_per_gas = max_fee, fd_max_priority_fee_per_gas = max_priority,
                fd_max_fee_per_blob_gas = blob\<rparr>)"

section \<open>Rewards\<close>

lemma reward_at_member: "reward_at t sum_gas txs = Some r \<Longrightarrow> r \<in> snd ` set txs"
  by (induction t sum_gas txs rule: reward_at.induct) (auto split: if_splits)

lemma reward_at_mono:
  assumes "sorted (map snd txs)" and "t \<le> t'" and "reward_at t' sum_gas txs = Some r'"
  shows "\<exists>r \<le> r'. reward_at t sum_gas txs = Some r"
  using assms
proof (induction txs arbitrary: sum_gas)
  case (Cons tx txs)
  obtain gas reward where tx: "tx = (gas, reward)" by fastforce
  have member: "r' \<in> insert reward (snd ` set txs)"
    using Cons.prems(3) unfolding tx by (auto split: if_splits dest!: reward_at_member)
  show ?case
  proof (cases "t \<le> sum_gas + gas")
    case True
    with member Cons.prems(1) show ?thesis by (auto simp: tx)
  next
    case False
    with Cons.prems(2) have "\<not> t' \<le> sum_gas + gas" using order_trans by blast
    with False Cons show ?thesis by (simp add: tx)
  qed
qed simp

lemma rewards_ascending:
  assumes "sorted (map snd txs)" and "sorted (map target ps)"
  shows "sorted (List.map_filter (\<lambda>p. reward_at (target p) 0 txs) ps)"
  using assms(2)
proof (induction ps)
  case (Cons p ps)
  have below: "r \<le> r'" if "reward_at (target p) 0 txs = Some r" "r' \<in> set (List.map_filter (\<lambda>p. reward_at (target p) 0 txs) ps)" for r r'
  proof -
    from that(2) obtain q where q: "q \<in> set ps" "reward_at (target q) 0 txs = Some r'"
      by (auto simp: List.map_filter_def)
    with Cons.prems have "target p \<le> target q" by simp
    from reward_at_mono [OF assms(1) this q(2)] that(1) show ?thesis by simp
  qed
  show ?case
    using Cons below by (auto simp: List.map_filter_simps split: option.split)
qed (simp add: List.map_filter_simps)

lemma sorted_sorted_rewards: "sorted (map snd (sorted_rewards fee txs receipts))"
  by (simp add: sorted_rewards_def)

section \<open>The history window\<close>

text \<open>The block numbers from \<open>a\<close> below \<open>b\<close>.\<close>

definition numbers :: "nat \<Rightarrow> nat \<Rightarrow> u64 set" where
  "numbers a b = of_nat ` {a..<b}"

lemma unat_of_nat_u64: "n < 2 ^ 64 \<Longrightarrow> unat (of_nat n :: u64) = n"
  using unat_of_nat_below [where 'a = 64, of n] by (simp del: unat_of_nat)

lemma of_nat_u64_eq:
  assumes "m < 2 ^ 64" and "n < 2 ^ 64"
  shows "(of_nat m :: u64) = of_nat n \<longleftrightarrow> m = n"
proof
  assume "(of_nat m :: u64) = of_nat n"
  then have "unat (of_nat m :: u64) = unat (of_nat n :: u64)" by (rule arg_cong)
  then show "m = n" unfolding unat_of_nat_u64 [OF assms(1)] unat_of_nat_u64 [OF assms(2)] .
qed simp

lemma numbers_card: "b \<le> 2 ^ 64 \<Longrightarrow> card (numbers a b) = b - a"
  unfolding numbers_def by (subst card_image) (auto intro!: inj_onI simp: of_nat_u64_eq)

lemma numbers_insert: "a \<le> b \<Longrightarrow> insert (of_nat b) (numbers a b) = numbers a (Suc b)"
  unfolding numbers_def by (auto simp: atLeastLessThanSuc)

lemma numbers_remove_first: "a < b \<Longrightarrow> b \<le> 2 ^ 64 \<Longrightarrow> numbers a b - {of_nat a} = numbers (Suc a) b"
  unfolding numbers_def by (auto simp: of_nat_u64_eq)

lemma insert_slides_history:
  fixes item :: "'f FeeHistoryCacheItem"
  assumes dom: "fset (fmdom (fee_cache svc)) = numbers a b" and le: "a \<le> b" "Suc b < 2 ^ 64"
    and limit: "b - a \<le> unat (fee_history_limit svc)" "0 < unat (fee_history_limit svc)"
  defines "svc' \<equiv> insert_cache_entry item (Some (of_nat b)) svc"
  shows "fset (fmdom (fee_cache svc')) = numbers (max a (Suc b - unat (fee_history_limit svc))) (Suc b)"
    and "fmlookup (fee_cache svc') (of_nat b) = Some item"
    and "fee_history_limit svc' = fee_history_limit svc"
proof -
  let ?L = "unat (fee_history_limit svc)"
  let ?cache = "fmupd (of_nat b) item (fee_cache svc)"
  have cache: "fset (fmdom ?cache) = numbers a (Suc b)" using numbers_insert [OF le(1)] dom by simp
  then have "fcard (fmdom ?cache) = Suc b - a" using numbers_card [of "Suc b" a] le(2) by (simp add: fcard.rep_eq)
  moreover have "unat (of_nat (Suc b - a) :: u64) = Suc b - a" using le(2) by (intro unat_of_nat_below) simp
  ultimately have removals:
    "unat (saturating_sub (of_nat (fcard (fmdom ?cache))) (fee_history_limit svc)) = Suc b - a - ?L"
    unfolding unat_saturating_sub by simp
  have first: "saturating_sub (of_nat b) (fee_history_limit svc) = of_nat (b - ?L)"
    using le(2) by (intro word_unat_eq_iff [THEN iffD2]) (simp add: unat_saturating_sub unat_of_nat_below)
  have cases: "Suc b - a - ?L = 0 \<or> Suc b - a - ?L = 1 \<and> b - ?L = a" using limit le(1) by linarith
  have svc': "svc' = svc\<lparr>fee_cache := fold (\<lambda>i. fmdrop (of_nat (b - ?L) - of_nat i)) [0..<Suc b - a - ?L] ?cache\<rparr>"
    unfolding svc'_def insert_cache_entry_def option.case Let_def removals first ..
  show "fset (fmdom (fee_cache svc')) = numbers (max a (Suc b - ?L)) (Suc b)"
  proof (cases "Suc b - a - ?L = 0")
    case True
    then have "max a (Suc b - ?L) = a" using limit(2) by simp
    with True cache show ?thesis
      unfolding svc' by (simp del: fmdom_fmupd)
  next
    case False
    with cases have "Suc b - a - ?L = 1" "b - ?L = a" by auto
    moreover from this have "max a (Suc b - ?L) = Suc a" by linarith
    ultimately show ?thesis
      using cache numbers_remove_first [of a "Suc b"] le unfolding svc' by (simp del: fmdom_fmupd)
  qed
  have "of_nat b \<noteq> (of_nat (b - ?L) :: u64)" if "Suc b - a - ?L = 1"
    by (subst of_nat_u64_eq) (use that limit(2) le(2) in linarith)+
  then show "fmlookup (fee_cache svc') (of_nat b) = Some item"
    using cases unfolding svc' by auto
  show "fee_history_limit svc' = fee_history_limit svc"
    by (simp add: svc')
qed

text \<open>The entries of consecutive blocks, starting with an empty history.\<close>

definition record_history ::
    "nat \<Rightarrow> 'f FeeHistoryCacheItem list \<Rightarrow> 'f FeeHistoryService \<Rightarrow> 'f FeeHistoryService" where
  "record_history first items svc =
     fold (\<lambda>(n, item). insert_cache_entry item (Some (of_nat n))) (enumerate first items) svc"

lemma record_history_snoc:
  "record_history first (items @ [item]) svc =
   insert_cache_entry item (Some (of_nat (first + length items))) (record_history first items svc)"
  by (simp add: record_history_def enumerate_append_eq)

section \<open>Properties\<close>

text \<open>
  C26. The history keeps exactly the newest blocks: after the entries of consecutive blocks have been
  inserted, it holds the last ones, as many as the limit allows.
\<close>

theorem history_keeps_newest:
  assumes "fee_cache svc = fmempty" and "0 < unat (fee_history_limit svc)" and "first + length items < 2 ^ 64"
  shows "fset (fmdom (fee_cache (record_history first items svc))) =
           numbers (max first (first + length items - unat (fee_history_limit svc))) (first + length items) \<and>
         fee_history_limit (record_history first items svc) = fee_history_limit svc"
  using assms(3)
proof (induction items rule: rev_induct)
  case Nil
  then show ?case using assms(1) by (simp add: record_history_def numbers_def)
next
  case (snoc item items)
  let ?b = "first + length items" and ?L = "unat (fee_history_limit svc)"
  have IH: "fset (fmdom (fee_cache (record_history first items svc))) = numbers (max first (?b - ?L)) ?b"
    "fee_history_limit (record_history first items svc) = fee_history_limit svc"
    using snoc by auto
  have "max (max first (?b - ?L)) (Suc ?b - ?L) = max first (Suc ?b - ?L)" by auto
  then show ?case
    using insert_slides_history [OF IH(1), of item, unfolded IH(2)] assms(2) snoc.prems
    by (simp add: record_history_snoc)
qed

definition sample_service :: "unit FeeHistoryService" where
  "sample_service =
     \<lparr>header_blob_fee = (\<lambda>_. None), storage_block = (\<lambda>_. None), storage_receipts = (\<lambda>_. None),
      fee_history_limit = 2, fee_cache = fmempty\<rparr>"

definition sample_item :: "unit FeeHistoryCacheItem" where
  "sample_item =
     \<lparr>item_base_fee = 0, item_gas_used_ratio = (), item_base_fee_per_blob_gas = None, item_blob_gas_used_ratio = (),
      item_excess_blob_gas = None, item_blob_gas_used = None, item_rewards = []\<rparr>"

theorem history_keeps_newest_witness:
  "fset (fmdom (fee_cache (record_history 7 [sample_item, sample_item, sample_item] sample_service))) = {8, 9}"
proof -
  have "numbers 8 10 = {8, 9}" by (simp add: numbers_def atLeastLessThan_nat_numeral) auto
  then show ?thesis
    using history_keeps_newest [of sample_service 7 "[sample_item, sample_item, sample_item]"]
    by (simp add: sample_service_def)
qed

text \<open>
  The reward percentiles of a stored block are rewards of its transactions in ascending order, for
  any arithmetic whose percentile targets ascend; a block that is not stored gets 201 zeros.
\<close>

theorem reward_percentiles_ascend:
  assumes "create_cache_entry fo svc hash h = (item, num)"
    and "\<And>used. sorted (map (target_gas fo used) (reward_percentiles fo))"
  shows "sorted (item_rewards item) \<and> length (item_rewards item) \<le> 201 \<and>
     (case (storage_block svc hash, storage_receipts svc hash) of
        (Some block, Some receipts) \<Rightarrow>
          num = Some (number (header block)) \<and>
          set (item_rewards item) \<subseteq>
            snd ` set (sorted_rewards (item_base_fee item) (block_transactions block) receipts)
      | _ \<Rightarrow> num = None \<and> item_rewards item = replicate 201 0)"
proof (cases "\<exists>block receipts. storage_block svc hash = Some block \<and> storage_receipts svc hash = Some receipts")
  case True
  then obtain block receipts where some: "storage_block svc hash = Some block" "storage_receipts svc hash = Some receipts"
    by blast
  let ?fee = "case base_fee_per_gas h of Some g \<Rightarrow> ucast g | None \<Rightarrow> 0"
  let ?txs = "sorted_rewards ?fee (block_transactions block) receipts"
  have item: "item_rewards item = List.map_filter
      (\<lambda>p. reward_at (target_gas fo (f_of_u64 fo (gas_used (header block))) p) 0 ?txs) (reward_percentiles fo)"
    "item_base_fee item = ?fee" "num = Some (number (header block))"
    using assms(1) by (auto simp: create_cache_entry_def some Let_def)
  have "length (item_rewards item) \<le> 201"
    unfolding item(1) List.map_filter_def
    by (simp add: le_trans [OF length_filter_le] reward_percentiles_def)
  moreover have "set (item_rewards item) \<subseteq> snd ` set ?txs"
    unfolding item(1) List.map_filter_def by (auto dest: reward_at_member)
  moreover have "sorted (item_rewards item)"
    unfolding item(1) by (rule rewards_ascending [OF sorted_sorted_rewards assms(2)])
  ultimately show ?thesis by (simp add: some item(2,3))
next
  case False
  then have "item_rewards item = map (\<lambda>_. 0) (reward_percentiles fo) \<and> num = None"
    using assms(1) by (auto simp: create_cache_entry_def Let_def split: option.splits)
  with False show ?thesis
    by (auto simp: reward_percentiles_def map_replicate_const split: option.splits)
qed

text \<open>Whole numbers in place of floating-point numbers, percentiles in steps of a half.\<close>

definition whole_ops :: "nat f64_ops" where
  "whole_ops =
     \<lparr>f_zero = 0, f_half = 1, f_hundred = 200, f_max_blobs = 9, f_add = (+), f_mul = (*), f_div = (div),
      f_of_u64 = unat, f_to_u64 = (\<lambda>n. if n < 2 ^ 64 then of_nat n else - 1)\<rparr>"

lemma whole_percentiles: "reward_percentiles whole_ops = [0..<201]"
proof -
  have "((\<lambda>p. f_add whole_ops p (f_half whole_ops)) ^^ i) (f_zero whole_ops) = i" for i
    by (induction i) (simp_all add: whole_ops_def)
  then show ?thesis by (simp add: reward_percentiles_def)
qed

lemma whole_targets: "sorted (map (target_gas whole_ops used) (reward_percentiles whole_ops))"
proof -
  have "target_gas whole_ops used i \<le> target_gas whole_ops used j" if "i \<le> j" for i j
  proof -
    have le: "i * used div 200 \<le> j * used div 200" using that by (intro div_le_mono mult_le_mono1)
    then have "(of_nat (i * used div 200) :: u64) \<le> of_nat (j * used div 200)" if "j * used div 200 < 2 ^ 64"
      using that by (simp add: word_le_nat_alt unat_of_nat_u64 del: unat_of_nat of_nat_mult)
    then show ?thesis using le by (simp add: target_gas_def whole_ops_def del: of_nat_mult)
  qed
  then show ?thesis
    unfolding whole_percentiles sorted_map by (rule sorted_wrt_mono_rel [OF _ sorted_upt])
qed

definition sample_stored :: "nat FeeHistoryService" where
  "sample_stored =
     \<lparr>header_blob_fee = (\<lambda>_. None),
      storage_block = (\<lambda>_. Some \<lparr>header = header sample_block, block_transactions = [sample_legacy 12 0, sample_legacy 11 1], ommers = []\<rparr>),
      storage_receipts = (\<lambda>_. Some [21000, 42000]), fee_history_limit = 2, fee_cache = fmempty\<rparr>"

theorem reward_percentiles_ascend_witness:
  "sorted (item_rewards (fst (create_cache_entry whole_ops sample_stored 101 (header sample_block)))) \<and>
   snd (create_cache_entry whole_ops sample_stored 101 (header sample_block)) = Some (number (header sample_block))"
  using reward_percentiles_ascend [of whole_ops sample_stored 101 "header sample_block"
      "fst (create_cache_entry whole_ops sample_stored 101 (header sample_block))"
      "snd (create_cache_entry whole_ops sample_stored 101 (header sample_block))"] whole_targets
  by (simp add: sample_stored_def)

text \<open>
  A request's fees are refused exactly when the priority fee exceeds the maximum fee, where a
  missing maximum counts as zero. Accepted fees have one price: the gas price is the maximum fee, and
  the priority fee is at most that.
\<close>

theorem fee_details_new_cases:
  "case FeeDetails_new price max_fee prio blob of
     Inl e \<Rightarrow> (\<exists>p. prio = Some p \<and> (case max_fee of Some f \<Rightarrow> f | None \<Rightarrow> 0) < p)
   | Inr fd \<Rightarrow>
       (case prio of Some p \<Rightarrow> p \<le> (case max_fee of Some f \<Rightarrow> f | None \<Rightarrow> 0) | None \<Rightarrow> True) \<and>
       fd_gas_price fd = fd_max_fee_per_gas fd \<and>
       fd_max_fee_per_gas fd = (if max_fee = None \<and> prio = None \<and> blob = None then price else max_fee) \<and>
       fd_max_priority_fee_per_gas fd = (if max_fee = None \<and> prio = None \<and> blob = None then price else prio) \<and>
       fd_max_fee_per_blob_gas fd = blob"
  by (cases max_fee; cases prio; cases blob) (auto simp: priority_too_high_def not_less)

text \<open>
  A base fee of zero, and the absence of a base fee before the London fork, is kept by every mined
  block; otherwise the base fee after a block is the one computed from it.
\<close>

theorem zero_base_fee_is_kept:
  "base_fee ops (fold (fees_after_block ops) (hs @ [h]) fm) =
     (let fm1 = fold (fees_after_block ops) hs fm in
      if base_fee ops fm1 = 0 then 0
      else calc_next_block_base_fee ops (gas_used h) (gas_limit h) (case base_fee_per_gas h of Some f \<Rightarrow> f | None \<Rightarrow> 0)) \<and>
   (base_fee ops fm = 0 \<longrightarrow> base_fee ops (fold (fees_after_block ops) hs fm) = 0)"
proof -
  have step: "base_fee ops (fees_after_block ops h fm) = (if base_fee ops fm = 0 then 0
      else calc_next_block_base_fee ops (gas_used h) (gas_limit h) (case base_fee_per_gas h of Some f \<Rightarrow> f | None \<Rightarrow> 0))"
    for h and fm :: "('a, 'b) FeeManager"
    by (simp add: fees_after_block_def Let_def base_fee_def is_eip1559_def set_base_fee_def
        set_blob_excess_gas_and_price_def get_next_block_base_fee_per_gas_def)
  have "base_fee ops fm = 0 \<Longrightarrow> base_fee ops (fold (fees_after_block ops) hs fm) = 0"
    by (induction hs arbitrary: fm) (simp_all add: step)
  then show ?thesis by (simp add: step)
qed

definition sample_fee_ops :: "nat fee_ops" where
  "sample_fee_ops =
     \<lparr>LONDON = 1, FORK_CANCUN = 2, calc_next_block_base_fee = (\<lambda>_ _ f. f + 1), calc_blob_gasprice = (\<lambda>_. 1),
      calc_excess_blob_gas = (\<lambda>a b. a + b), new_blob_price = (\<lambda>g. \<lparr>blob_excess_gas = g, blob_gasprice = 1\<rparr>)\<rparr>"

theorem zero_base_fee_is_kept_witness:
  "base_fee sample_fee_ops (fold (fees_after_block sample_fee_ops) [header sample_block, header sample_block]
     (FeeManager_new () 1 0 True 5 \<lparr>blob_excess_gas = 0, blob_gasprice = 1\<rparr>)) = 0"
proof -
  have "base_fee sample_fee_ops (FeeManager_new () 1 0 True 5 \<lparr>blob_excess_gas = 0, blob_gasprice = 1\<rparr>) = 0"
    by (simp add: base_fee_def FeeManager_new_def)
  from zero_base_fee_is_kept [of sample_fee_ops "[header sample_block, header sample_block]", THEN conjunct2, rule_format, OF this]
  show ?thesis .
qed

end
