(* ===== verification/Fuzz_Values.thy ===== *)
theory Fuzz_Values
  imports Prelude
begin

text \<open>
  Fuzzed integers: the value trees and strategies of evm/fuzz/src/strategies/uint.rs and int.rs. A
  random draw of the test runner is a field of the record \<open>draws\<close>; the ranges the generator promises
  are the predicate \<open>draws_ok\<close>. A fixture is what \<open>as_uint\<close> or \<open>as_int\<close> gives: its value and bit size,
  or nothing for a fixture of another type. Sums and differences of \<open>U256\<close> and \<open>I256\<close> wrap.
\<close>

section \<open>Unsigned value trees\<close>

record UintValueTree =
  ulo :: u256
  ucurr :: u256
  uhi :: u256
  ufixed :: bool

definition UintValueTree_new :: "u256 \<Rightarrow> bool \<Rightarrow> UintValueTree" where
  "UintValueTree_new start fixed = \<lparr>ulo = 0, ucurr = start, uhi = start, ufixed = fixed\<rparr>"

definition uint_reposition :: "UintValueTree \<Rightarrow> UintValueTree \<times> bool" where
  "uint_reposition t =
     (let interval = uhi t - ulo t;
          new_mid = ulo t + interval div 2
      in if new_mid = ucurr t then (t, False) else (t\<lparr>ucurr := new_mid\<rparr>, True))"

definition uint_simplify :: "UintValueTree \<Rightarrow> UintValueTree \<times> bool" where
  "uint_simplify t =
     (if ufixed t \<or> uhi t \<le> ulo t then (t, False) else uint_reposition (t\<lparr>uhi := ucurr t\<rparr>))"

definition uint_complicate :: "UintValueTree \<Rightarrow> UintValueTree \<times> bool" where
  "uint_complicate t =
     (if ufixed t \<or> uhi t \<le> ulo t then (t, False) else uint_reposition (t\<lparr>ulo := ucurr t + 1\<rparr>))"

section \<open>Signed value trees\<close>

record IntValueTree =
  ilo :: i256
  icurr :: i256
  ihi :: i256
  ifixed :: bool

definition IntValueTree_new :: "i256 \<Rightarrow> bool \<Rightarrow> IntValueTree" where
  "IntValueTree_new start fixed = \<lparr>ilo = 0, icurr = start, ihi = start, ifixed = fixed\<rparr>"

text \<open>Division of \<open>I256\<close> rounds towards zero.\<close>

definition i256_div :: "i256 \<Rightarrow> i256 \<Rightarrow> i256" where
  "i256_div a b = word_of_int (sgn (sint a) * sgn (sint b) * (\<bar>sint a\<bar> div \<bar>sint b\<bar>))"

definition int_reposition :: "IntValueTree \<Rightarrow> IntValueTree \<times> bool" where
  "int_reposition t =
     (let interval = ihi t - ilo t;
          new_mid = ilo t + i256_div interval 2
      in if new_mid = icurr t then (t, False) else (t\<lparr>icurr := new_mid\<rparr>, True))"

definition magnitude_greater :: "i256 \<Rightarrow> i256 \<Rightarrow> bool" where
  "magnitude_greater lhs rhs = (if lhs = 0 then False else (sint rhs < sint lhs) \<noteq> (sint lhs < 0))"

definition int_simplify :: "IntValueTree \<Rightarrow> IntValueTree \<times> bool" where
  "int_simplify t =
     (if ifixed t \<or> \<not> magnitude_greater (ihi t) (ilo t) then (t, False)
      else int_reposition (t\<lparr>ihi := icurr t\<rparr>))"

definition I256_MIN :: i256 where "I256_MIN = word_of_int (- (2 ^ 255))"
definition I256_MAX :: i256 where "I256_MAX = word_of_int (2 ^ 255 - 1)"

definition int_complicate :: "IntValueTree \<Rightarrow> IntValueTree \<times> bool" where
  "int_complicate t =
     (if ifixed t \<or> \<not> magnitude_greater (ihi t) (ilo t) then (t, False)
      else int_reposition
        (t\<lparr>ilo := (if icurr t \<noteq> I256_MIN \<and> icurr t \<noteq> I256_MAX
                   then icurr t + (if sint (ihi t) < 0 then - 1 else 1) else icurr t)\<rparr>))"

section \<open>Strategies\<close>

record draws =
  draw_bias :: nat
  draw_is_min :: bool
  draw_offset :: nat
  draw_kind :: nat
  draw_fixture :: nat
  draw_bits :: nat
  draw_higher :: u128
  draw_lower :: u128
  draw_positive :: bool

record 'v Strategy =
  bits :: nat
  fixtures :: "('v \<times> nat) option list"
  edge_weight :: nat
  fixtures_weight :: nat
  random_weight :: nat

definition draws_ok :: "'v Strategy \<Rightarrow> draws \<Rightarrow> bool" where
  "draws_ok s d \<longleftrightarrow>
     draw_bias d < random_weight s + fixtures_weight s + edge_weight s \<and> draw_offset d < 4 \<and> draw_kind d < 4 \<and>
     (fixtures s \<noteq> [] \<longrightarrow> draw_fixture d < length (fixtures s)) \<and> draw_bits d \<le> bits s"

definition Strategy_new :: "nat \<Rightarrow> ('v \<times> nat) option list \<Rightarrow> 'v Strategy" where
  "Strategy_new n fx =
     \<lparr>bits = n, fixtures = fx, edge_weight = 10, fixtures_weight = 40, random_weight = 50\<rparr>"

definition type_max :: "u256 Strategy \<Rightarrow> u256" where
  "type_max s = (if bits s < 256 then push_bit (bits s) 1 - 1 else - 1)"

definition uint_generate_edge_tree :: "u256 Strategy \<Rightarrow> draws \<Rightarrow> UintValueTree" where
  "uint_generate_edge_tree s d =
     (let offset = of_nat (draw_offset d);
          start = (if draw_is_min d then offset else saturating_sub (type_max s) offset)
      in UintValueTree_new start False)"

text \<open>
  The two random halves cut to a number of bits, and their four limbs. The mask for the low limb has 65
  bits, and the cast to \<open>u64\<close> drops the last one.
\<close>

definition cut_halves :: "nat \<Rightarrow> u128 \<times> u128 \<Rightarrow> u128 \<times> u128" where
  "cut_halves x hl =
     (let (higher, lower) = hl in
      if x < 128 then (0, and lower (push_bit x 1 - 1))
      else if x < 256 then (and higher (push_bit (x - 128) 1 - 1), lower)
      else (higher, lower))"

definition from_limbs :: "u64 \<Rightarrow> u64 \<Rightarrow> u64 \<Rightarrow> u64 \<Rightarrow> u256" where
  "from_limbs a b c d =
     ucast a + push_bit 64 (ucast b) + push_bit 128 (ucast c) + push_bit 192 (ucast d)"

definition halves_to_u256 :: "u128 \<times> u128 \<Rightarrow> u256" where
  "halves_to_u256 hl =
     (let (higher, lower) = hl; mask64 = push_bit 65 1 - 1
      in from_limbs (ucast (and lower mask64)) (ucast (drop_bit 64 lower))
           (ucast (and higher mask64)) (ucast (drop_bit 64 higher)))"

definition uint_generate_random_tree :: "u256 Strategy \<Rightarrow> draws \<Rightarrow> UintValueTree" where
  "uint_generate_random_tree s d =
     UintValueTree_new (halves_to_u256 (cut_halves (draw_bits d) (draw_higher d, draw_lower d))) False"

definition uint_generate_fixtures_tree :: "u256 Strategy \<Rightarrow> draws \<Rightarrow> UintValueTree" where
  "uint_generate_fixtures_tree s d =
     (if fixtures s = [] then uint_generate_random_tree s d
      else
        (case fixtures s ! draw_fixture d of
           Some (value, n) \<Rightarrow>
             if n = bits s then UintValueTree_new value False else uint_generate_random_tree s d
         | None \<Rightarrow> uint_generate_random_tree s d))"

definition uint_new_tree :: "u256 Strategy \<Rightarrow> draws \<Rightarrow> UintValueTree" where
  "uint_new_tree s d =
     (if draw_bias d < edge_weight s then uint_generate_edge_tree s d
      else if draw_bias d < edge_weight s + fixtures_weight s then uint_generate_fixtures_tree s d
      else uint_generate_random_tree s d)"

text \<open>
  \<open>overflowing_from_sign_and_abs\<close> gives the value of a sign and a magnitude; the overflow flag is not
  used. A bias of four kinds is exhaustive, so the unreachable branch is left out.
\<close>

definition from_sign_and_abs :: "bool \<Rightarrow> u256 \<Rightarrow> i256" where
  "from_sign_and_abs positive magnitude = (if positive then magnitude else - magnitude)"

definition int_generate_edge_tree :: "i256 Strategy \<Rightarrow> draws \<Rightarrow> IntValueTree" where
  "int_generate_edge_tree s d =
     (let offset = of_nat (draw_offset d) :: i256;
          umax = push_bit (bits s - 1) 1 - 1 :: u256;
          start =
            (if draw_kind d = 0 then from_sign_and_abs False (umax + 1) + offset
             else if draw_kind d = 1 then - offset - 1
             else if draw_kind d = 2 then offset
             else from_sign_and_abs True umax - offset)
      in IntValueTree_new start False)"

definition int_generate_random_tree :: "i256 Strategy \<Rightarrow> draws \<Rightarrow> IntValueTree" where
  "int_generate_random_tree s d =
     (if draw_bits d = 0 then IntValueTree_new 0 False
      else IntValueTree_new
        (from_sign_and_abs (draw_positive d)
           (halves_to_u256 (cut_halves (draw_bits d - 1) (draw_higher d, draw_lower d)))) False)"

definition int_generate_fixtures_tree :: "i256 Strategy \<Rightarrow> draws \<Rightarrow> IntValueTree" where
  "int_generate_fixtures_tree s d =
     (if fixtures s = [] then int_generate_random_tree s d
      else
        (case fixtures s ! draw_fixture d of
           Some (value, n) \<Rightarrow>
             if n = bits s then IntValueTree_new value False else int_generate_random_tree s d
         | None \<Rightarrow> int_generate_random_tree s d))"

definition int_new_tree :: "i256 Strategy \<Rightarrow> draws \<Rightarrow> IntValueTree" where
  "int_new_tree s d =
     (if draw_bias d < edge_weight s then int_generate_edge_tree s d
      else if draw_bias d < edge_weight s + fixtures_weight s then int_generate_fixtures_tree s d
      else int_generate_random_tree s d)"

section \<open>Shrinking as a binary search\<close>

text \<open>
  How a runner shrinks a failing value: it simplifies while the current value fails and complicates
  otherwise, until the tree has nothing more to offer. \<open>None\<close> is running out of fuel.
\<close>

fun shrink ::
    "('t \<Rightarrow> 't \<times> bool) \<Rightarrow> ('t \<Rightarrow> 't \<times> bool) \<Rightarrow> ('t \<Rightarrow> 'v) \<Rightarrow> ('v \<Rightarrow> bool) \<Rightarrow> nat \<Rightarrow> 't \<Rightarrow> 'v option" where
  "shrink simplify complicate current fails 0 t = None"
| "shrink simplify complicate current fails (Suc fuel) t =
     (let (t', more) = (if fails (current t) then simplify t else complicate t)
      in if more then shrink simplify complicate current fails fuel t' else Some (current t'))"

text \<open>
  The contract of a value tree over magnitudes. The laws speak of trees that are not exhausted and,
  for \<open>complicate\<close>, whose current value is below the upper end.
\<close>

locale value_tree =
  fixes simplify complicate :: "'t \<Rightarrow> 't \<times> bool"
    and current :: "'t \<Rightarrow> 'v"
    and low mid high :: "'t \<Rightarrow> nat"
    and ok :: "'t \<Rightarrow> bool"
    and size_of :: "'v \<Rightarrow> nat"
  assumes mid_curr: "ok t \<Longrightarrow> size_of (current t) = mid t"
    and simplify_open: "ok t \<Longrightarrow> low t < high t \<Longrightarrow> low t \<le> mid t \<Longrightarrow> \<exists>t'. simplify t = (t', mid t' \<noteq> mid t) \<and>
      ok t' \<and> low t' = low t \<and> high t' = mid t \<and> mid t' = (low t + mid t) div 2"
    and simplify_done: "ok t \<Longrightarrow> low t = high t \<Longrightarrow> mid t = high t \<Longrightarrow> simplify t = (t, False)"
    and complicate_open: "ok t \<Longrightarrow> low t \<le> mid t \<Longrightarrow> mid t < high t \<Longrightarrow> \<exists>t'. complicate t = (t', mid t' \<noteq> mid t) \<and>
      ok t' \<and> low t' = Suc (mid t) \<and> high t' = high t \<and> mid t' = (Suc (mid t) + high t) div 2"
begin

text \<open>
  The least failing magnitude lies in the interval, whose upper end fails. The current value is the
  middle, or the upper end to begin with.
\<close>

definition tracks :: "(nat \<Rightarrow> bool) \<Rightarrow> nat \<Rightarrow> 't \<Rightarrow> bool" where
  "tracks fails m t \<longleftrightarrow> ok t \<and> low t \<le> m \<and> m \<le> high t \<and> (\<forall>n. fails n \<longleftrightarrow> m \<le> n)"

text \<open>The fuel for an interval of less than \<open>2 ^ k\<close> values.\<close>

definition fuelled :: "nat \<Rightarrow> nat \<Rightarrow> 't \<Rightarrow> bool" where
  "fuelled k fuel t \<longleftrightarrow> high t - low t < 2 ^ k \<and>
     (mid t = (low t + high t) div 2 \<and> k < fuel \<or> mid t = high t \<and> Suc k < fuel)"

lemma tracks_simplified:
  assumes "tracks fails m t" and "fuelled k (Suc fuel) t" and "fails (mid t)" and "low t < high t"
    and "low t' = low t" "high t' = mid t" "mid t' = (low t + mid t) div 2" "ok t'" "mid t' \<noteq> mid t"
  shows "tracks fails m t' \<and> (\<exists>k. fuelled k fuel t')"
proof
  show "tracks fails m t'" using assms by (auto simp: tracks_def)
  show "\<exists>k. fuelled k fuel t'"
  proof (cases "mid t = (low t + high t) div 2 \<and> k < Suc fuel")
    case True
    with assms(2,4) obtain j where j: "k = Suc j" by (cases k) (auto simp: fuelled_def)
    have "mid t - low t < 2 ^ j" using True assms(2) by (auto simp: fuelled_def j)
    with True j assms(5-7) show ?thesis by (intro exI [of _ j]) (auto simp: fuelled_def)
  next
    case False
    with assms(2,5-7) show ?thesis by (intro exI [of _ k]) (auto simp: fuelled_def)
  qed
qed

lemma tracks_complicated:
  assumes "tracks fails m t" and "fuelled k (Suc fuel) t" and "\<not> fails (mid t)"
    and "low t' = Suc (mid t)" "high t' = high t" "mid t' = (Suc (mid t) + high t) div 2" "ok t'"
  shows "tracks fails m t' \<and> (\<exists>k. fuelled k fuel t')"
proof
  have below: "mid t < m" "m \<le> high t" using assms(1,3) by (auto simp: tracks_def)
  then show "tracks fails m t'" using assms by (auto simp: tracks_def)
  have "mid t = (low t + high t) div 2" "k < Suc fuel" "high t - low t < 2 ^ k"
    using assms(2) below by (auto simp: fuelled_def)
  moreover from this below obtain j where j: "k = Suc j" by (cases k) auto
  ultimately have "high t' - low t' < 2 ^ j" "j < fuel" using assms(4,5) below by auto
  with assms(4-6) show "\<exists>k. fuelled k fuel t'" by (intro exI [of _ j]) (auto simp: fuelled_def)
qed

lemma shrink_finds:
  assumes "tracks fails m t" and "fuelled k fuel t"
  shows "\<exists>t'. shrink simplify complicate current (\<lambda>v. fails (size_of v)) fuel t = Some (current t') \<and> ok t' \<and> mid t' = m"
  using assms
proof (induction fuel arbitrary: t k)
  case 0
  then show ?case by (simp add: fuelled_def)
next
  case (Suc fuel)
  from Suc.prems have t: "ok t" "low t \<le> m" "m \<le> high t" "low t \<le> mid t" and fails: "\<And>n. fails n \<longleftrightarrow> m \<le> n"
    by (auto simp: tracks_def fuelled_def)
  note current = mid_curr [OF t(1)]
  consider "m \<le> mid t" "low t < high t" | "m \<le> mid t" "low t = high t" | "mid t < m" using t by linarith
  then show ?case
  proof cases
    case 1
    then obtain t' where t': "simplify t = (t', mid t' \<noteq> mid t)" "ok t'" "low t' = low t" "high t' = mid t"
      "mid t' = (low t + mid t) div 2"
      using simplify_open t(1,4) by blast
    show ?thesis
    proof (cases "mid t' = mid t")
      case True
      with t' t(4) have "mid t = low t" by linarith
      with 1 t True t' current show ?thesis by (auto simp: fails)
    next
      case False
      with tracks_simplified [OF Suc.prems _ 1(2) t'(3-5,2)] 1(1) obtain k' where "tracks fails m t'" "fuelled k' fuel t'"
        by (auto simp: fails)
      from Suc.IH [OF this] t'(1) False 1(1) current show ?thesis by (auto simp: fails)
    qed
  next
    case 2
    then have "mid t = high t" using Suc.prems(2) by (auto simp: fuelled_def)
    with simplify_done [OF t(1)] 2 t current show ?thesis by (auto simp: fails)
  next
    case 3
    then have below: "mid t < high t" using t by simp
    then obtain t' where t': "complicate t = (t', mid t' \<noteq> mid t)" "ok t'" "low t' = Suc (mid t)" "high t' = high t"
      "mid t' = (Suc (mid t) + high t) div 2"
      using complicate_open t(1,4) by blast
    then have more: "mid t' \<noteq> mid t" using below by linarith
    from tracks_complicated [OF Suc.prems _ t'(3-5,2)] 3 obtain k' where "tracks fails m t'" "fuelled k' fuel t'"
      by (auto simp: fails)
    from Suc.IH [OF this] t'(1) more 3 current show ?thesis by (auto simp: fails)
  qed
qed

end

section \<open>The two trees meet the contract\<close>

lemma unat_midpoint:
  assumes "a \<le> (b :: u256)"
  shows "unat (a + (b - a) div 2) = (unat a + unat b) div 2"
proof -
  have "unat ((b - a) div 2) = (unat b - unat a) div 2"
    using assms by (simp add: unat_div unat_sub word_le_nat_alt)
  moreover have "unat a + (unat b - unat a) div 2 = (unat a + unat b) div 2"
    using assms by (simp add: word_le_nat_alt)
  moreover have "(unat a + unat b) div 2 < 2 ^ LENGTH(256)"
    using unat_below [of a] unat_below [of b] by linarith
  ultimately show ?thesis by (simp add: unat_word_ariths)
qed

interpretation uint_tree: value_tree uint_simplify uint_complicate ucurr
    "\<lambda>t. unat (ulo t)" "\<lambda>t. unat (ucurr t)" "\<lambda>t. unat (uhi t)" "\<lambda>t. \<not> ufixed t" unat
proof
  fix t :: UintValueTree
  assume ok: "\<not> ufixed t"
  show "unat (ucurr t) = unat (ucurr t)" ..
  show "\<exists>t'. uint_simplify t = (t', unat (ucurr t') \<noteq> unat (ucurr t)) \<and> \<not> ufixed t' \<and> unat (ulo t') = unat (ulo t) \<and>
      unat (uhi t') = unat (ucurr t) \<and> unat (ucurr t') = (unat (ulo t) + unat (ucurr t)) div 2"
    if "unat (ulo t) < unat (uhi t)" "unat (ulo t) \<le> unat (ucurr t)"
    using that ok unat_midpoint [of "ulo t" "ucurr t"]
    by (auto simp: uint_simplify_def uint_reposition_def Let_def word_le_nat_alt word_unat_eq_iff)
  show "uint_simplify t = (t, False)" if "unat (ulo t) = unat (uhi t)" "unat (ucurr t) = unat (uhi t)"
    using that by (simp add: uint_simplify_def word_le_nat_alt)
  show "\<exists>t'. uint_complicate t = (t', unat (ucurr t') \<noteq> unat (ucurr t)) \<and> \<not> ufixed t' \<and>
      unat (ulo t') = Suc (unat (ucurr t)) \<and> unat (uhi t') = unat (uhi t) \<and>
      unat (ucurr t') = (Suc (unat (ucurr t)) + unat (uhi t)) div 2"
    if "unat (ulo t) \<le> unat (ucurr t)" "unat (ucurr t) < unat (uhi t)"
  proof -
    have "ucurr t < uhi t" using that by (simp add: word_less_nat_alt)
    then have "ucurr t \<noteq> - 1" by (rule below_not_max)
    then have suc: "unat (ucurr t + 1) = Suc (unat (ucurr t))" by (rule unat_plus_one)
    show ?thesis
      using that ok suc unat_midpoint [of "ucurr t + 1" "uhi t"]
      by (auto simp: uint_complicate_def uint_reposition_def Let_def word_le_nat_alt word_unat_eq_iff)
  qed
qed

text \<open>A signed tree keeps to one side of zero.\<close>

definition one_sided :: "bool \<Rightarrow> IntValueTree \<Rightarrow> bool" where
  "one_sided neg t \<longleftrightarrow> \<not> ifixed t \<and>
     (\<not> neg \<and> 0 \<le> sint (ilo t) \<and> 0 \<le> sint (icurr t) \<and> 0 \<le> sint (ihi t) \<or>
      neg \<and> sint (ilo t) \<le> 0 \<and> sint (icurr t) \<le> 0 \<and> sint (ihi t) \<le> 0)"

definition magnitude :: "i256 \<Rightarrow> nat" where
  "magnitude v = nat \<bar>sint v\<bar>"

lemma sint_range: "- (2 ^ 255) \<le> sint (w :: i256)" "sint (w :: i256) < 2 ^ 255"
  using sint_greater_eq [of w] sint_less [of w] by simp_all

lemma sint_of_int_i256: "- (2 ^ 255) \<le> k \<Longrightarrow> k < 2 ^ 255 \<Longrightarrow> sint (word_of_int k :: i256) = k"
  by (simp add: signed_of_int signed_take_bit_int_eq_self)

lemma sint_diff_i256:
  "- (2 ^ 255) \<le> sint a - sint b \<Longrightarrow> sint a - sint b < 2 ^ 255 \<Longrightarrow> sint (a - b :: i256) = sint a - sint b"
  using sint_of_int_i256 [of "sint a - sint b"] by simp

lemma sint_add_i256:
  "- (2 ^ 255) \<le> sint a + sint b \<Longrightarrow> sint a + sint b < 2 ^ 255 \<Longrightarrow> sint (a + b :: i256) = sint a + sint b"
  using sint_of_int_i256 [of "sint a + sint b"] by simp

text \<open>The middle between two values on one side of zero, rounded towards the first.\<close>

lemma sint_midpoint:
  assumes "0 \<le> sint a \<and> sint a \<le> sint b \<or> sint b \<le> sint a \<and> sint a \<le> 0"
  shows "sint (a + i256_div (b - a) 2) =
     (if 0 \<le> sint a \<and> sint a \<le> sint b then (sint a + sint b) div 2 else - ((\<bar>sint a\<bar> + \<bar>sint b\<bar>) div 2))"
proof -
  note ra = sint_range [of a] and rb = sint_range [of b]
  have two: "sint (2 :: i256) = 2" by simp
  have diff: "sint (b - a) = sint b - sint a" using assms ra rb by (intro sint_diff_i256) linarith+
  show ?thesis
  proof (cases "0 \<le> sint a \<and> sint a \<le> sint b")
    case True
    then have half: "sint (i256_div (b - a) 2) = (sint b - sint a) div 2"
      unfolding i256_div_def diff two
      using ra rb by (subst sint_of_int_i256) (auto simp: sgn_if)
    have "sint (a + i256_div (b - a) 2) = sint a + (sint b - sint a) div 2"
      unfolding half [symmetric] using True ra rb half by (intro sint_add_i256) linarith+
    then show ?thesis using True by simp
  next
    case False
    with assms have le: "sint b \<le> sint a" "sint a \<le> 0" by auto
    then have half: "sint (i256_div (b - a) 2) = - ((sint a - sint b) div 2)"
      unfolding i256_div_def diff two
      using ra rb by (subst sint_of_int_i256) (auto simp: sgn_if)
    have "sint (a + i256_div (b - a) 2) = sint a - (sint a - sint b) div 2"
      using le ra rb by (subst sint_add_i256) (simp_all add: half)
    then show ?thesis using False le by simp
  qed
qed

lemma magnitude_greater_less:
  "one_sided neg t \<Longrightarrow> magnitude (ilo t) < magnitude (ihi t) \<Longrightarrow> magnitude_greater (ihi t) (ilo t)"
  by (auto simp: one_sided_def magnitude_def magnitude_greater_def)

lemma sint_inject_i256: "sint a = sint b \<Longrightarrow> a = (b :: i256)"
  by (rule signed_word_eqI)

lemma int_reposition_spec:
  assumes ok: "one_sided neg t" and le: "magnitude (ilo t) \<le> magnitude (ihi t)"
  shows "\<exists>t'. int_reposition t = (t', magnitude (icurr t') \<noteq> magnitude (icurr t)) \<and> one_sided neg t' \<and>
     ilo t' = ilo t \<and> ihi t' = ihi t \<and> magnitude (icurr t') = (magnitude (ilo t) + magnitude (ihi t)) div 2"
proof -
  let ?new = "ilo t + i256_div (ihi t - ilo t) 2"
  have new: "sint ?new = (if 0 \<le> sint (ilo t) \<and> sint (ilo t) \<le> sint (ihi t) then (sint (ilo t) + sint (ihi t)) div 2
      else - ((\<bar>sint (ilo t)\<bar> + \<bar>sint (ihi t)\<bar>) div 2))"
    by (rule sint_midpoint) (use ok le in \<open>auto simp: one_sided_def magnitude_def\<close>)
  have size: "magnitude ?new = (magnitude (ilo t) + magnitude (ihi t)) div 2"
    using ok le unfolding magnitude_def new one_sided_def by (auto split: if_splits)
  have side: "one_sided neg (t\<lparr>icurr := ?new\<rparr>)"
    using ok le new unfolding magnitude_def one_sided_def by (auto split: if_splits)
  have "?new = icurr t" if "magnitude ?new = magnitude (icurr t)"
    by (rule sint_inject_i256) (use that ok side new in \<open>auto simp: one_sided_def magnitude_def split: if_splits\<close>)
  then show ?thesis
    using size side ok by (auto simp: int_reposition_def Let_def)
qed

interpretation int_tree: value_tree int_simplify int_complicate icurr
    "\<lambda>t. magnitude (ilo t)" "\<lambda>t. magnitude (icurr t)" "\<lambda>t. magnitude (ihi t)" "one_sided neg" magnitude for neg
proof
  fix t :: IntValueTree
  assume ok: "one_sided neg t"
  show "magnitude (icurr t) = magnitude (icurr t)" ..
  show "\<exists>t'. int_simplify t = (t', magnitude (icurr t') \<noteq> magnitude (icurr t)) \<and> one_sided neg t' \<and>
      magnitude (ilo t') = magnitude (ilo t) \<and> magnitude (ihi t') = magnitude (icurr t) \<and>
      magnitude (icurr t') = (magnitude (ilo t) + magnitude (icurr t)) div 2"
    if "magnitude (ilo t) < magnitude (ihi t)" "magnitude (ilo t) \<le> magnitude (icurr t)"
  proof -
    have "one_sided neg (t\<lparr>ihi := icurr t\<rparr>)" using ok by (auto simp: one_sided_def)
    from int_reposition_spec [OF this] that magnitude_greater_less [OF ok] ok show ?thesis
      by (auto simp: int_simplify_def one_sided_def)
  qed
  show "int_simplify t = (t, False)"
    if "magnitude (ilo t) = magnitude (ihi t)" "magnitude (icurr t) = magnitude (ihi t)"
  proof -
    have "ilo t = ihi t" "icurr t = ihi t"
      by (rule sint_inject_i256, use that ok in \<open>auto simp: one_sided_def magnitude_def\<close>)+
    then show ?thesis by (simp add: int_simplify_def int_reposition_def i256_div_def)
  qed
  show "\<exists>t'. int_complicate t = (t', magnitude (icurr t') \<noteq> magnitude (icurr t)) \<and> one_sided neg t' \<and>
      magnitude (ilo t') = Suc (magnitude (icurr t)) \<and> magnitude (ihi t') = magnitude (ihi t) \<and>
      magnitude (icurr t') = (Suc (magnitude (icurr t)) + magnitude (ihi t)) div 2"
    if that: "magnitude (ilo t) \<le> magnitude (icurr t)" "magnitude (icurr t) < magnitude (ihi t)"
  proof -
    let ?lo = "icurr t + (if sint (ihi t) < 0 then - 1 else 1)"
    have edge: "icurr t \<noteq> I256_MIN" "icurr t \<noteq> I256_MAX"
      using that ok sint_range [of "ihi t"] by (auto simp: I256_MIN_def I256_MAX_def magnitude_def one_sided_def)
    have lo: "sint ?lo = sint (icurr t) + (if sint (ihi t) < 0 then - 1 else 1)"
      using that ok sint_range [of "ihi t"] by (subst sint_add_i256) (auto simp: magnitude_def one_sided_def)
    have "one_sided neg (t\<lparr>ilo := ?lo\<rparr>)" "magnitude ?lo = Suc (magnitude (icurr t))"
      using ok that lo by (auto simp: one_sided_def magnitude_def)
    from int_reposition_spec [OF this(1)] this(2) that magnitude_greater_less [OF ok] edge ok show ?thesis
      by (auto simp: int_complicate_def one_sided_def)
  qed
qed

section \<open>Random values stay in the type\<close>

lemma and_mask: "and w (push_bit x 1 - 1) = take_bit x (w :: 'a::len word)"
  by (simp add: take_bit_eq_mask mask_eq_exp_minus_1 push_bit_eq_mult)

lemma unat_take_bit: "unat (take_bit x w) = unat w mod 2 ^ x" for w :: "'a::len word"
  unfolding unsigned_take_bit_eq by (rule take_bit_eq_mod)

lemma from_limbs_value:
  "unat (from_limbs a b c d) = unat a + 2 ^ 64 * unat b + 2 ^ 128 * unat c + 2 ^ 192 * unat d"
proof -
  let ?n = "unat a + 2 ^ 64 * unat b + 2 ^ 128 * unat c + 2 ^ 192 * unat d"
  have limb: "push_bit k (ucast w :: u256) = of_nat (2 ^ k * unat w)" for k and w :: u64
    by (simp add: push_bit_eq_mult unsigned_ucast_eq)
  have "from_limbs a b c d = of_nat ?n"
    using limb [of 0 a] by (simp add: from_limbs_def limb)
  moreover have "?n < 2 ^ LENGTH(256)"
    using unat_below [of a] unat_below [of b] unat_below [of c] unat_below [of d] by simp
  ultimately show ?thesis by (simp only: unat_of_nat_below)
qed

lemma halves_value: "unat (halves_to_u256 (higher, lower)) = unat lower + 2 ^ 128 * unat higher"
proof -
  have low: "unat (ucast (and w (push_bit 65 1 - 1)) :: u64) = unat w mod 2 ^ 64" for w :: u128
    unfolding and_mask unsigned_ucast_eq unat_take_bit by (simp add: take_bit_eq_mod mod_mod_cancel)
  have high: "unat (ucast (drop_bit 64 w) :: u64) = unat w div 2 ^ 64" for w :: u128
  proof -
    have "unat w div 2 ^ 64 < 2 ^ 64" using unat_below [of w] by (simp add: less_mult_imp_div_less)
    then show ?thesis
      using unat_below [of w] unfolding unsigned_ucast_eq unsigned_drop_bit_eq by (simp add: take_bit_eq_mod drop_bit_eq_div)
  qed
  have join: "n mod 2 ^ 64 + 2 ^ 64 * (n div 2 ^ 64) = n" for n :: nat by simp
  have "2 ^ 128 * (n mod 2 ^ 64) + 2 ^ 192 * (n div 2 ^ 64) = 2 ^ 128 * n" for n :: nat
  proof -
    have "2 ^ 128 * (n mod 2 ^ 64) + 2 ^ 192 * (n div 2 ^ 64) = 2 ^ 128 * (n mod 2 ^ 64 + 2 ^ 64 * (n div 2 ^ 64))"
      by (simp only: distrib_left mult.assoc [symmetric] flip: power_add) simp
    then show ?thesis unfolding join .
  qed
  then show ?thesis
    unfolding halves_to_u256_def Let_def prod.case from_limbs_value low high join by (simp only: add.assoc)
qed

lemma two_halves_below:
  assumes "a < 2 ^ k" and "b < (2 ^ 128 :: nat)"
  shows "b + 2 ^ 128 * a < 2 ^ (128 + k)"
proof -
  have "2 ^ 128 * Suc a \<le> 2 ^ 128 * 2 ^ k" using assms(1) by (intro mult_le_mono2) simp
  with assms(2) show ?thesis unfolding power_add mult_Suc_right by linarith
qed

lemma cut_halves_below:
  assumes "x \<le> 256"
  shows "unat (halves_to_u256 (cut_halves x (higher, lower))) < 2 ^ x"
proof -
  consider "x < 128" | k where "x = 128 + k" "k < 128" | "x = 256"
    using assms le_Suc_ex [of 128 x] by force
  then show ?thesis
  proof cases
    case 1
    then have "cut_halves x (higher, lower) = (0, take_bit x lower)" unfolding cut_halves_def and_mask by simp
    then show ?thesis by (simp add: halves_value unat_take_bit)
  next
    case 2
    then have "cut_halves x (higher, lower) = (take_bit k higher, lower)" unfolding cut_halves_def and_mask by simp
    moreover have "unat higher mod 2 ^ k < 2 ^ k" by simp
    moreover have "unat lower < 2 ^ 128" using unat_below [of lower] by simp
    ultimately show ?thesis
      using two_halves_below [of "unat higher mod 2 ^ k" k "unat lower"] 2(1) by (simp add: halves_value unat_take_bit)
  next
    case 3
    then show ?thesis using unat_below [of "halves_to_u256 (cut_halves x (higher, lower))"] by simp
  qed
qed

lemma unat_type_max: "bits s \<le> 256 \<Longrightarrow> unat (type_max s) = 2 ^ bits s - 1"
proof (cases "bits s < 256")
  case True
  then have "(2 :: nat) ^ bits s < 2 ^ 256" by (intro power_strict_increasing) simp_all
  then have "unat (2 ^ bits s :: u256) = 2 ^ bits s" using unat_of_nat_below [where 'a = 256, of "2 ^ bits s"] by simp
  then have "unat (2 ^ bits s - 1 :: u256) = 2 ^ bits s - 1"
    by (subst unat_sub) (simp_all add: word_le_nat_alt)
  with True show ?thesis by (simp add: type_max_def push_bit_eq_mult)
next
  case False
  assume "bits s \<le> 256"
  with False show ?thesis by (simp add: type_max_def unat_max_word)
qed

lemma below_power_mono:
  fixes n a b :: nat
  assumes "n < 2 ^ a" and "a \<le> b"
  shows "n < 2 ^ b"
  by (rule less_le_trans [OF assms(1) power_increasing [OF assms(2)]]) simp

lemma uint_random_in_range:
  assumes "draws_ok s d" and "bits s \<le> 256"
  shows "unat (ucurr (uint_generate_random_tree s d)) < 2 ^ bits s"
proof -
  have le: "draw_bits d \<le> bits s" using assms(1) by (simp add: draws_ok_def)
  then have "draw_bits d \<le> 256" using assms(2) by simp
  from below_power_mono [OF cut_halves_below [OF this] le] show ?thesis
    by (simp add: uint_generate_random_tree_def UintValueTree_new_def)
qed

lemma sint_small:
  fixes w :: i256
  assumes "uint w < 2 ^ 255"
  shows "sint w = uint w" and "sint (- w) = - uint w"
proof -
  have "sint (of_int (uint w) :: i256) = uint w" "sint (of_int (- uint w) :: i256) = - uint w"
    by (rule sint_of_int_i256, use assms uint_ge_0 [of w] in linarith, use assms uint_ge_0 [of w] in linarith)+
  then show "sint w = uint w" "sint (- w) = - uint w" by simp_all
qed

lemma signed_magnitude_in_range:
  assumes "unat w < 2 ^ k" and "k \<le> 255"
  shows "- (2 ^ k) \<le> sint (from_sign_and_abs positive w) \<and> sint (from_sign_and_abs positive w) < 2 ^ k"
proof -
  have uint: "uint w < 2 ^ j" if "unat w < 2 ^ j" for j
    using that of_nat_less_iff [of "unat w" "2 ^ j", where 'a = int] by simp
  have "\<bar>sint (from_sign_and_abs positive w)\<bar> = uint w"
    using sint_small [OF uint [OF below_power_mono [OF assms]]] by (simp add: from_sign_and_abs_def)
  with uint [OF assms(1)] show ?thesis by linarith
qed

lemma int_random_in_range:
  assumes "draws_ok s d" and "1 \<le> bits s" and "bits s \<le> 256"
  shows "- (2 ^ (bits s - 1)) \<le> sint (icurr (int_generate_random_tree s d)) \<and>
    sint (icurr (int_generate_random_tree s d)) < 2 ^ (bits s - 1)"
proof (cases "draw_bits d = 0")
  case True
  then show ?thesis by (simp add: int_generate_random_tree_def IntValueTree_new_def)
next
  case False
  let ?w = "halves_to_u256 (cut_halves (draw_bits d - 1) (draw_higher d, draw_lower d))"
  have le: "draw_bits d - 1 \<le> bits s - 1" using assms(1) by (auto simp: draws_ok_def intro: diff_le_mono)
  then have "draw_bits d - 1 \<le> 256" "bits s - 1 \<le> 255" using assms(3) by simp_all
  from signed_magnitude_in_range [OF below_power_mono [OF cut_halves_below [OF this(1)] le] this(2)] False
  show ?thesis by (simp add: int_generate_random_tree_def IntValueTree_new_def)
qed

lemma int_edge_in_range:
  assumes "draws_ok s d" and "3 \<le> bits s" and "bits s \<le> 256"
  shows "- (2 ^ (bits s - 1)) \<le> sint (icurr (int_generate_edge_tree s d)) \<and>
    sint (icurr (int_generate_edge_tree s d)) < 2 ^ (bits s - 1)"
proof -
  define P :: int where "P = 2 ^ (bits s - 1)"
  define off where "off = int (draw_offset d)"
  have P: "P \<le> 2 ^ 255" "4 \<le> P"
    using assms(2,3) power_increasing [of "bits s - 1" 255 "2 :: int"] power_increasing [of 2 "bits s - 1" "2 :: int"]
    by (simp_all add: P_def)
  have off: "0 \<le> off" "off < 4" using assms(1) by (simp_all add: draws_ok_def off_def)
  have push: "(push_bit (bits s - 1) 1 :: u256) = of_int P" by (simp add: push_bit_eq_mult P_def)
  have nat: "(of_nat (draw_offset d) :: i256) = of_int off" by (simp add: off_def)
  define k where "k = (if draw_kind d = 0 then - P + off else if draw_kind d = 1 then - off - 1
      else if draw_kind d = 2 then off else P - 1 - off)"
  have k: "icurr (int_generate_edge_tree s d) = of_int k"
    unfolding int_generate_edge_tree_def IntValueTree_new_def Let_def from_sign_and_abs_def push nat
    by (simp add: k_def)
  have range: "- P \<le> k" "k < P" using P(2) off by (auto simp: k_def)
  then have "sint (of_int k :: i256) = k" using P(1) by (intro sint_of_int_i256) linarith+
  with range show ?thesis unfolding k P_def by simp
qed

section \<open>Properties\<close>

text \<open>
  C27. Shrinking an unsigned value finds the least failing value of any test that fails from some value
  on, within 258 steps, by binary search between zero and the first failing value.
\<close>

theorem uint_shrink_finds_least:
  assumes "\<forall>n. fails n \<longleftrightarrow> m \<le> n" and "m \<le> unat start"
  shows "shrink uint_simplify uint_complicate ucurr (\<lambda>v. fails (unat v)) 258 (UintValueTree_new start False) =
     Some (of_nat m)"
proof -
  let ?t = "UintValueTree_new start False"
  have "uint_tree.tracks fails m ?t" using assms by (simp add: uint_tree.tracks_def UintValueTree_new_def)
  moreover have "uint_tree.fuelled 256 258 ?t"
    using unat_below [of start] by (simp add: uint_tree.fuelled_def UintValueTree_new_def)
  ultimately show ?thesis using uint_tree.shrink_finds [of fails m ?t 256 258] by auto
qed

theorem uint_shrink_finds_least_witness:
  "shrink uint_simplify uint_complicate ucurr (\<lambda>v. 5 \<le> unat v) 258 (UintValueTree_new 100 False) = Some 5"
  using uint_shrink_finds_least [of "\<lambda>n. 5 \<le> n" 5 100] by simp

text \<open>
  C28. Shrinking a signed value finds the failing value of the same sign and least magnitude of any test
  that fails from some magnitude on, within 258 steps.
\<close>

theorem int_shrink_finds_least:
  assumes "\<forall>n. fails n \<longleftrightarrow> m \<le> n" and "m \<le> magnitude start"
  shows "shrink int_simplify int_complicate icurr (\<lambda>v. fails (magnitude v)) 258 (IntValueTree_new start False) =
     Some (if sint start < 0 then - of_nat m else of_nat m)"
proof -
  let ?t = "IntValueTree_new start False" and ?neg = "sint start < 0"
  have "int_tree.tracks ?neg fails m ?t"
    unfolding int_tree.tracks_def using assms by (auto simp: IntValueTree_new_def one_sided_def magnitude_def)
  moreover have "int_tree.fuelled 256 258 ?t"
    unfolding int_tree.fuelled_def using sint_range [of start] by (simp add: IntValueTree_new_def magnitude_def)
  ultimately obtain t' where t': "one_sided ?neg t'" "magnitude (icurr t') = m"
    "shrink int_simplify int_complicate icurr (\<lambda>v. fails (magnitude v)) 258 ?t = Some (icurr t')"
    using int_tree.shrink_finds [of ?neg fails m ?t 256 258] by auto
  then have "sint (icurr t') = (if ?neg then - int m else int m)"
    by (auto simp: one_sided_def magnitude_def)
  then have "of_int (sint (icurr t')) = (of_int (if ?neg then - int m else int m) :: i256)" by (rule arg_cong)
  with t'(3) show ?thesis by (simp split: if_splits)
qed

theorem int_shrink_finds_least_witness:
  "shrink int_simplify int_complicate icurr (\<lambda>v. 5 \<le> magnitude v) 258 (IntValueTree_new (- 100) False) = Some (- 5)"
  using int_shrink_finds_least [of "\<lambda>n. 5 \<le> n" 5 "- 100"] by (simp add: magnitude_def)

text \<open>
  Every unsigned value that is generated fits the type: edge values, random values of any number of
  bits, and fixtures, if the fixtures of the right size do.
\<close>

theorem uint_values_in_range:
  assumes "draws_ok s d" and "2 \<le> bits s" and "bits s \<le> 256"
    and "\<forall>v. Some (v, bits s) \<in> set (fixtures s) \<longrightarrow> unat v < 2 ^ bits s"
  shows "unat (ucurr (uint_new_tree s d)) < 2 ^ bits s"
proof -
  note random = uint_random_in_range [OF assms(1,3)]
  have four: "(4 :: nat) \<le> 2 ^ bits s" using power_increasing [of 2 "bits s" "2 :: nat"] assms(2) by simp
  have "unat (of_nat (draw_offset d) :: u256) = draw_offset d"
    using assms(1) by (intro unat_of_nat_below) (simp add: draws_ok_def)
  then have "unat (ucurr (uint_generate_edge_tree s d)) < 2 ^ bits s"
    using assms(1) four
    by (auto simp: uint_generate_edge_tree_def UintValueTree_new_def unat_saturating_sub unat_type_max [OF assms(3)]
        draws_ok_def Let_def)
  moreover have "unat (ucurr (uint_generate_fixtures_tree s d)) < 2 ^ bits s"
  proof (cases "fixtures s = []")
    case False
    then have "fixtures s ! draw_fixture d \<in> set (fixtures s)" using assms(1) by (simp add: draws_ok_def)
    with assms(4) random False show ?thesis
      by (auto simp: uint_generate_fixtures_tree_def UintValueTree_new_def split: option.split)
  qed (simp add: uint_generate_fixtures_tree_def random)
  ultimately show ?thesis using random by (simp add: uint_new_tree_def)
qed

definition sample_draws :: draws where
  "sample_draws =
     \<lparr>draw_bias = 3, draw_is_min = False, draw_offset = 2, draw_kind = 0, draw_fixture = 0, draw_bits = 7,
      draw_higher = 0, draw_lower = 12345, draw_positive = False\<rparr>"

theorem uint_values_in_range_witness:
  "unat (ucurr (uint_new_tree (Strategy_new 8 [Some (255, 8), None]) sample_draws)) < 256"
  using uint_values_in_range [of "Strategy_new 8 [Some (255, 8), None]" sample_draws]
  by (simp add: draws_ok_def Strategy_new_def sample_draws_def)

text \<open>
  Every signed value that is generated fits the type, if the fixtures of the right size do.
\<close>

theorem int_values_in_range:
  assumes "draws_ok s d" and "3 \<le> bits s" and "bits s \<le> 256"
    and "\<forall>v. Some (v, bits s) \<in> set (fixtures s) \<longrightarrow> - (2 ^ (bits s - 1)) \<le> sint v \<and> sint v < 2 ^ (bits s - 1)"
  defines "v \<equiv> sint (icurr (int_new_tree s d))"
  shows "- (2 ^ (bits s - 1)) \<le> v \<and> v < 2 ^ (bits s - 1)"
proof -
  note random = int_random_in_range [OF assms(1) _ assms(3)]
  note int_edge_in_range [OF assms(1-3)]
  moreover have "- (2 ^ (bits s - 1)) \<le> sint (icurr (int_generate_fixtures_tree s d)) \<and>
      sint (icurr (int_generate_fixtures_tree s d)) < 2 ^ (bits s - 1)"
  proof (cases "fixtures s = []")
    case False
    then have "fixtures s ! draw_fixture d \<in> set (fixtures s)" using assms(1) by (simp add: draws_ok_def)
    with assms(2,4) random False show ?thesis
      by (auto simp: int_generate_fixtures_tree_def IntValueTree_new_def split: option.split)
  qed (use random assms(2) in \<open>simp add: int_generate_fixtures_tree_def\<close>)
  ultimately show ?thesis using random assms(2) unfolding v_def by (simp add: int_new_tree_def)
qed

theorem int_values_in_range_witness:
  "- 128 \<le> sint (icurr (int_new_tree (Strategy_new 8 [Some (- 128, 8)]) sample_draws))"
  using int_values_in_range [of "Strategy_new 8 [Some (- 128, 8)]" sample_draws]
  by (simp add: draws_ok_def Strategy_new_def sample_draws_def)

text \<open>
  A negative signed tree that has narrowed to one value can be complicated once more, to a value
  beyond its bounds; the unsigned tree reports that it is exhausted.
\<close>

theorem int_complicate_overshoots:
  assumes "sint v < 0" and "v \<noteq> I256_MIN" and "t = \<lparr>ilo = v, icurr = v, ihi = v, ifixed = False\<rparr>"
  shows "magnitude_greater (ihi t) (ilo t) \<and>
     (\<exists>t'. int_complicate t = (t', True) \<and> sint (icurr t') = sint v - 1) \<and>
     uint_complicate \<lparr>ulo = w, ucurr = w, uhi = w, ufixed = False\<rparr> =
       (\<lparr>ulo = w, ucurr = w, uhi = w, ufixed = False\<rparr>, False)"
proof -
  have "sint v \<noteq> - (2 ^ 255)"
  proof
    assume "sint v = - (2 ^ 255)"
    moreover have "sint I256_MIN = - (2 ^ 255)" unfolding I256_MIN_def by (rule sint_of_int_i256) simp_all
    ultimately have "v = I256_MIN" by (intro sint_inject_i256) simp
    with assms(2) show False ..
  qed
  then have above: "- (2 ^ 255) < sint v" using sint_range(1) [of v] by linarith
  have max: "v \<noteq> I256_MAX" using assms(1) by (auto simp: I256_MAX_def)
  have "sint (v - 1) = sint v - 1"
    using above sint_range(2) [of v] by (subst sint_diff_i256) simp_all
  moreover have "v \<noteq> 0" using assms(1) by auto
  moreover have "i256_div 1 2 = 0" by (simp add: i256_div_def)
  ultimately show ?thesis
    using assms(1,2) max
    by (simp add: assms(3) magnitude_greater_def int_complicate_def int_reposition_def Let_def uint_complicate_def)
qed

theorem int_complicate_overshoots_witness:
  "\<exists>t'. int_complicate \<lparr>ilo = - 3, icurr = - 3, ihi = - 3, ifixed = False\<rparr> = (t', True) \<and> sint (icurr t') = - 4"
  using int_complicate_overshoots [of "- 3", OF _ _ refl] by (auto simp: I256_MIN_def)

end
