(* ===== verification/Shrinker.thy ===== *)
theory Shrinker
  imports Prelude "HOL-Library.Sublist"
begin

text \<open>
  Shrinking a failing call sequence of an invariant test
  (evm/evm/src/executors/invariant/shrink.rs). The executor is a parameter (\<open>executor_ops\<close>): applying a
  call and running the two test functions may fail with an error. Progress reporting is left out.
\<close>

section \<open>The shrinker\<close>

record CallSequenceShrinker =
  call_sequence_len :: nat
  included_calls :: "bool list"
  shrink_index :: nat
  prev_shrink :: "nat option"

definition Shrinker_new :: "nat \<Rightarrow> CallSequenceShrinker" where
  "Shrinker_new n = \<lparr>call_sequence_len = n, included_calls = replicate n True, shrink_index = 0, prev_shrink = None\<rparr>"

definition bit_test :: "bool list \<Rightarrow> nat \<Rightarrow> bool" where
  "bit_test bs i = (i < length bs \<and> bs ! i)"

definition shrinker_current :: "CallSequenceShrinker \<Rightarrow> nat list" where
  "shrinker_current s = filter (bit_test (included_calls s)) [0..<call_sequence_len s]"

definition shrinker_simplify :: "CallSequenceShrinker \<Rightarrow> CallSequenceShrinker \<times> bool" where
  "shrinker_simplify s =
     (if call_sequence_len s \<le> shrink_index s then (s, False)
      else (s\<lparr>included_calls := (included_calls s)[shrink_index s := False],
              prev_shrink := Some (shrink_index s), shrink_index := shrink_index s + 1\<rparr>, True))"

definition shrinker_complicate :: "CallSequenceShrinker \<Rightarrow> CallSequenceShrinker \<times> bool" where
  "shrinker_complicate s =
     (case prev_shrink s of
        Some i \<Rightarrow> shrinker_simplify (s\<lparr>included_calls := (included_calls s)[i := True], prev_shrink := None\<rparr>)
      | None \<Rightarrow> (s, False))"

section \<open>Checking and shrinking\<close>

record ('e, 'st, 'tx) executor_ops =
  transact_raw :: "'st \<Rightarrow> 'tx \<Rightarrow> 'e + 'st \<times> bool \<times> bytes"
  call_invariant_function :: "'st \<Rightarrow> 'e + bool"
  call_after_invariant_function :: "'st \<Rightarrow> 'e + bool"
  MAGIC_ASSUME :: bytes

fun apply_calls ::
    "('e, 'st, 'tx) executor_ops \<Rightarrow> bool \<Rightarrow> 'tx list \<Rightarrow> nat list \<Rightarrow> 'st \<Rightarrow> ('e + 'st option) option" where
  "apply_calls ops fail_on_revert calls [] st = Some (Inr (Some st))"
| "apply_calls ops fail_on_revert calls (call_index # rest) st =
     (if length calls \<le> call_index then None
      else case transact_raw ops st (calls ! call_index) of
        Inl e \<Rightarrow> Some (Inl e)
      | Inr (st', reverted, result) \<Rightarrow>
          if reverted \<and> fail_on_revert \<and> result \<noteq> MAGIC_ASSUME ops then Some (Inr None)
          else apply_calls ops fail_on_revert calls rest st')"

definition check_sequence ::
    "('e, 'st, 'tx) executor_ops \<Rightarrow> 'st \<Rightarrow> bool \<Rightarrow> bool \<Rightarrow> 'tx list \<Rightarrow> nat list \<Rightarrow> ('e + bool \<times> bool) option" where
  "check_sequence ops st fail_on_revert call_after_invariant calls sequence =
     (case apply_calls ops fail_on_revert calls sequence st of
        None \<Rightarrow> None
      | Some (Inl e) \<Rightarrow> Some (Inl e)
      | Some (Inr None) \<Rightarrow> Some (Inr (False, False))
      | Some (Inr (Some st')) \<Rightarrow>
          (case call_invariant_function ops st' of
             Inl e \<Rightarrow> Some (Inl e)
           | Inr success \<Rightarrow>
               if success \<and> call_after_invariant then
                 (case call_after_invariant_function ops st' of
                    Inl e \<Rightarrow> Some (Inl e)
                  | Inr success' \<Rightarrow> Some (Inr (success', True)))
               else Some (Inr (success, True))))"

text \<open>
  The loop of \<open>shrink_sequence\<close>: a candidate that fails is shrunk further, one that passes gets its
  last removed call back, and an error leaves the candidate as it is. \<open>None\<close> is an index out of range.
\<close>

fun shrink_loop ::
    "(nat list \<Rightarrow> ('e + bool \<times> bool) option) \<Rightarrow> nat \<Rightarrow> CallSequenceShrinker \<Rightarrow> CallSequenceShrinker option" where
  "shrink_loop check 0 s = Some s"
| "shrink_loop check (Suc n) s =
     (case check (shrinker_current s) of
        None \<Rightarrow> None
      | Some (Inr (False, _)) \<Rightarrow>
          (let (s', more) = shrinker_simplify s in if more then shrink_loop check n s' else Some s')
      | Some (Inr (True, _)) \<Rightarrow>
          (let (s', more) = shrinker_complicate s in if more then shrink_loop check n s' else Some s')
      | Some (Inl _) \<Rightarrow> shrink_loop check n s)"

definition shrink_sequence ::
    "('e, 'st, 'tx) executor_ops \<Rightarrow> 'st \<Rightarrow> bool \<Rightarrow> bool \<Rightarrow> nat \<Rightarrow> 'tx list \<Rightarrow> ('e + 'tx list) option" where
  "shrink_sequence ops st fail_on_revert call_after_invariant shrink_run_limit calls =
     (case call_invariant_function ops st of
        Inl e \<Rightarrow> Some (Inl e)
      | Inr success \<Rightarrow>
          if \<not> success then Some (Inr [])
          else map_option (\<lambda>s. Inr (map ((!) calls) (shrinker_current s)))
                 (shrink_loop (check_sequence ops st fail_on_revert call_after_invariant calls)
                    shrink_run_limit (Shrinker_new (length calls))))"

section \<open>The reference algorithm\<close>

text \<open>Each call in turn is dropped if the rest still fails without it.\<close>

fun greedy :: "(nat list \<Rightarrow> bool) \<Rightarrow> nat list \<Rightarrow> nat list \<Rightarrow> nat list" where
  "greedy fails kept [] = kept"
| "greedy fails kept (i # rest) =
     (if fails (kept @ rest) then greedy fails kept rest else greedy fails (kept @ [i]) rest)"

lemma greedy_fails: "fails (kept @ rest) \<Longrightarrow> fails (greedy fails kept rest)"
  by (induction fails kept rest rule: greedy.induct) auto

lemma greedy_kept: "set kept \<subseteq> set (greedy fails kept rest)"
  by (induction fails kept rest rule: greedy.induct) auto

lemma greedy_within: "set (greedy fails kept rest) \<subseteq> set (kept @ rest)"
  by (induction fails kept rest rule: greedy.induct) (auto split: if_splits)

lemma greedy_sorted: "sorted_wrt (<) (kept @ rest) \<Longrightarrow> sorted_wrt (<) (greedy fails kept rest)"
  by (induction fails kept rest rule: greedy.induct) (auto simp: sorted_wrt_append)

text \<open>With failure that is kept when calls are put back, no call of the result can be left out.\<close>

definition kept_failing :: "(nat list \<Rightarrow> bool) \<Rightarrow> nat list \<Rightarrow> bool" where
  "kept_failing fails all_calls \<longleftrightarrow>
     (\<forall>xs ys. subseq xs ys \<longrightarrow> subseq ys all_calls \<longrightarrow> fails xs \<longrightarrow> fails ys)"

lemma subseq_remove1: "subseq (remove1 x xs) xs"
  by (induction xs) auto

lemma greedy_minimal:
  assumes mono: "kept_failing fails all_calls"
    and "distinct (kept @ rest)" "subseq (kept @ rest) all_calls"
    and "\<forall>i \<in> set kept. \<not> fails (remove1 i (kept @ rest))"
    and "i \<in> set (greedy fails kept rest)"
  shows "\<not> fails (remove1 i (greedy fails kept rest))"
  using assms(2-5)
proof (induction rest arbitrary: kept)
  case (Cons j rest)
  have sub: "subseq (kept @ rest) (kept @ j # rest)" by (intro list_emb_append_mono list_emb_refl) auto
  then have "subseq (kept @ rest) all_calls" using Cons.prems(2) by (rule subseq_order.trans)
  note drop = Cons.IH [of kept, OF _ this] and keep = Cons.IH [of "kept @ [j]"]
  show ?case
  proof (cases "fails (kept @ rest)")
    case True
    have "\<not> fails (remove1 i (kept @ rest))" if "i \<in> set kept" for i
    proof
      assume "fails (remove1 i (kept @ rest))"
      moreover have "subseq (remove1 i (kept @ rest)) (remove1 i (kept @ j # rest))"
        using that sub by (auto simp: remove1_append intro!: list_emb_append_mono)
      moreover have "subseq (remove1 i (kept @ j # rest)) all_calls"
        using subseq_remove1 Cons.prems(2) by (rule subseq_order.trans)
      ultimately have "fails (remove1 i (kept @ j # rest))" using mono unfolding kept_failing_def by blast
      with Cons.prems(3) that show False by blast
    qed
    with True drop Cons.prems show ?thesis by simp
  next
    case False
    have "remove1 j ((kept @ [j]) @ rest) = kept @ rest" using Cons.prems(1) by (simp add: remove1_append)
    with False Cons.prems(3) have "\<forall>i \<in> set (kept @ [j]). \<not> fails (remove1 i ((kept @ [j]) @ rest))" by simp
    with False keep Cons.prems show ?thesis by simp
  qed
qed simp

section \<open>The loop follows the reference\<close>

definition indices :: "bool list \<Rightarrow> nat list" where
  "indices bs = filter (bit_test bs) [0..<length bs]"

lemma indices_append: "indices (bs @ cs) = indices bs @ map (\<lambda>i. i + length bs) (indices cs)"
proof -
  have "filter (bit_test (bs @ cs)) [0..<length bs] = filter (bit_test bs) [0..<length bs]"
    by (rule filter_cong) (auto simp: bit_test_def nth_append)
  moreover have "filter (bit_test (bs @ cs)) [length bs..<length bs + length cs] =
      map (\<lambda>i. i + length bs) (filter (bit_test cs) [0..<length cs])"
  proof -
    have "[length bs..<length bs + length cs] = map (\<lambda>i. i + length bs) [0..<length cs]"
      by (simp add: map_add_upt add.commute)
    moreover have "bit_test (bs @ cs) \<circ> (\<lambda>i. i + length bs) = bit_test cs"
      by (auto simp: bit_test_def nth_append)
    ultimately show ?thesis by (simp add: filter_map)
  qed
  ultimately show ?thesis by (simp add: indices_def upt_add_eq_append [of 0 "length bs", simplified])
qed

lemma indices_replicate [simp]: "indices (replicate m True) = [0..<m]"
  by (simp add: indices_def bit_test_def)

lemma indices_single [simp]: "indices [b] = (if b then [0] else [])"
  by (simp add: indices_def bit_test_def)

text \<open>A shrinker that tries to do without call \<open>i\<close>: the calls before it are decided.\<close>

definition trying :: "nat \<Rightarrow> bool list \<Rightarrow> CallSequenceShrinker" where
  "trying n decided =
     \<lparr>call_sequence_len = n, included_calls = decided @ False # replicate (n - Suc (length decided)) True,
      shrink_index = Suc (length decided), prev_shrink = Some (length decided)\<rparr>"

lemma current_trying:
  assumes "length decided < n"
  shows "shrinker_current (trying n decided) = indices decided @ [Suc (length decided)..<n]"
proof -
  let ?m = "n - Suc (length decided)"
  have "shrinker_current (trying n decided) = indices (decided @ [False] @ replicate ?m True)"
    using assms by (simp add: shrinker_current_def trying_def indices_def)
  also have "\<dots> = indices decided @ map (\<lambda>i. i + Suc (length decided)) [0..<?m]"
    unfolding indices_append by simp
  also have "map (\<lambda>i. i + Suc (length decided)) [0..<?m] = [Suc (length decided)..<n]"
    using assms map_add_upt [of "Suc (length decided)" ?m] by simp
  finally show ?thesis .
qed

definition decided_all :: "nat \<Rightarrow> bool list \<Rightarrow> CallSequenceShrinker \<Rightarrow> bool" where
  "decided_all n decided s \<longleftrightarrow> call_sequence_len s = n \<and> included_calls s = decided \<and> length decided = n"

lemma current_decided: "decided_all n decided s \<Longrightarrow> shrinker_current s = indices decided"
  by (auto simp: decided_all_def shrinker_current_def indices_def)

lemma simplify_new: "0 < n \<Longrightarrow> shrinker_simplify (Shrinker_new n) = (trying n [], True)"
  by (cases n) (simp_all add: shrinker_simplify_def Shrinker_new_def trying_def)

lemma replicate_next: "k < m \<Longrightarrow> (replicate (m - k) x)[0 := y] = y # replicate (m - Suc k) x"
  by (simp flip: Suc_diff_Suc)

lemma simplify_trying:
  assumes "length decided < n"
  shows "shrinker_simplify (trying n decided) =
    (if Suc (length decided) < n then (trying n (decided @ [False]), True) else (trying n decided, False))"
  using assms
  by (auto simp: shrinker_simplify_def trying_def list_update_append replicate_next [of "Suc (length decided)"])

lemma complicate_trying:
  assumes "length decided < n"
  shows "shrinker_complicate (trying n decided) =
    (if Suc (length decided) < n then (trying n (decided @ [True]), True)
     else ((trying n decided)\<lparr>included_calls := decided @ [True], prev_shrink := None\<rparr>, False))"
  using assms
  by (auto simp: shrinker_complicate_def shrinker_simplify_def trying_def list_update_append
      replicate_next [of "Suc (length decided)"])

lemma indices_snoc: "indices (bs @ [b]) = indices bs @ (if b then [length bs] else [])"
  by (simp add: indices_append)

text \<open>A check that decides every candidate: \<open>fails\<close> says which ones reproduce the failure.\<close>

definition decides :: "(nat list \<Rightarrow> ('e + bool \<times> bool) option) \<Rightarrow> nat \<Rightarrow> (nat list \<Rightarrow> bool) \<Rightarrow> bool" where
  "decides check n fails \<longleftrightarrow>
     (\<forall>xs. set xs \<subseteq> {..<n} \<longrightarrow> (\<exists>b. check xs = Some (Inr (\<not> fails xs, b))))"

lemma indices_bound: "set (indices bs) \<subseteq> {..<length bs}"
  by (auto simp: indices_def)

lemma trying_decided:
  assumes "decides check n fails" "length decided < n"
  obtains b where "check (indices decided @ [Suc (length decided)..<n]) =
    Some (Inr (\<not> fails (indices decided @ [Suc (length decided)..<n]), b))"
proof -
  have "set (indices decided @ [Suc (length decided)..<n]) \<subseteq> {..<n}"
    using indices_bound [of decided] assms(2) by auto
  with assms(1) that show thesis unfolding decides_def by blast
qed

lemma loop_step:
  assumes "decides check n fails" "Suc (length decided) < n"
  shows "\<exists>b. shrink_loop check (Suc m) (trying n decided) = shrink_loop check m (trying n (decided @ [b])) \<and>
    greedy fails (indices (decided @ [b])) [Suc (length decided)..<n] =
    greedy fails (indices decided) [length decided..<n]"
proof -
  let ?c = "indices decided @ [Suc (length decided)..<n]"
  have less: "length decided < n" using assms(2) by simp
  obtain b where c: "check ?c = Some (Inr (\<not> fails ?c, b))" by (rule trying_decided [OF assms(1) less])
  have upt: "[length decided..<n] = length decided # [Suc (length decided)..<n]"
    using less by (rule upt_conv_Cons)
  show ?thesis
    by (rule exI [of _ "\<not> fails ?c"], cases "fails ?c")
      (simp_all add: c assms(2) less current_trying simplify_trying complicate_trying indices_snoc upt
        del: upt_Suc)
qed

lemma loop_last:
  assumes "decides check n fails" "Suc (length decided) = n"
  shows "\<exists>s. shrink_loop check (Suc m) (trying n decided) = Some s \<and>
    shrinker_current s = greedy fails (indices decided) [length decided..<n]"
proof -
  obtain b where c: "check (indices decided) = Some (Inr (\<not> fails (indices decided), b))"
    using trying_decided [OF assms(1), of decided] assms(2) by auto
  have cur: "shrinker_current (trying n decided) = indices decided" using assms(2) by (simp add: current_trying)
  have "decided_all n (decided @ [True])
      ((trying n decided)\<lparr>included_calls := decided @ [True], prev_shrink := None\<rparr>)"
    using assms(2) by (simp add: decided_all_def trying_def)
  note kept = current_decided [OF this]
  have upt: "[length decided..<n] = [length decided]" using assms(2) by (simp flip: assms(2))
  show ?thesis
    using c assms(2)
    by (cases "fails (indices decided)")
      (simp_all add: cur simplify_trying complicate_trying kept indices_snoc upt)
qed

text \<open>With fuel for every call left the loop ends with the calls the reference keeps.\<close>

lemma loop_greedy:
  assumes "decides check n fails" "length decided < n" "n \<le> length decided + m"
  shows "\<exists>s. shrink_loop check m (trying n decided) = Some s \<and>
    shrinker_current s = greedy fails (indices decided) [length decided..<n]"
  using assms(2,3)
proof (induction m arbitrary: decided)
  case (Suc m)
  show ?case
  proof (cases "Suc (length decided) = n")
    case True
    then show ?thesis by (rule loop_last [OF assms(1)])
  next
    case False
    with Suc.prems have "Suc (length decided) < n" by simp
    from loop_step [OF assms(1) this, of m] Suc.IH [of "decided @ [b]" for b] Suc.prems this
    show ?thesis by fastforce
  qed
qed simp

text \<open>With fuel for one call less it stops at the untested candidate without the last call.\<close>

lemma loop_untested:
  assumes "decides check n fails" "n = length decided + Suc m"
  shows "\<exists>s. shrink_loop check m (trying n decided) = Some s \<and>
    shrinker_current s = filter (\<lambda>i. i < n - 1) (greedy fails (indices decided) [length decided..<n])"
  using assms(2)
proof (induction m arbitrary: decided)
  case 0
  have "filter (\<lambda>i. i < length decided) (indices decided) = indices decided"
    using indices_bound [of decided] by (auto simp: filter_id_conv)
  with 0 show ?case by (simp add: current_trying)
next
  case (Suc m)
  then have "Suc (length decided) < n" by simp
  from loop_step [OF assms(1) this, of m] Suc.IH [of "decided @ [b]" for b] Suc.prems
  show ?case by fastforce
qed

section \<open>What shrinking returns\<close>

definition reliable :: "('e, 'st, 'tx) executor_ops \<Rightarrow> bool" where
  "reliable ops \<longleftrightarrow> (\<forall>st tx. \<not> isl (transact_raw ops st tx)) \<and>
     (\<forall>st. \<not> isl (call_invariant_function ops st)) \<and> (\<forall>st. \<not> isl (call_after_invariant_function ops st))"

definition reproduces :: "('e, 'st, 'tx) executor_ops \<Rightarrow> 'st \<Rightarrow> bool \<Rightarrow> bool \<Rightarrow> 'tx list \<Rightarrow> nat list \<Rightarrow> bool" where
  "reproduces ops st on_revert after_invariant calls xs \<longleftrightarrow>
     (\<exists>b. check_sequence ops st on_revert after_invariant calls xs = Some (Inr (False, b)))"

lemma not_isl_cases: "\<not> isl r \<Longrightarrow> (\<And>x. r = Inr x \<Longrightarrow> P) \<Longrightarrow> P"
  by (cases r) auto

lemma apply_calls_returns:
  assumes "reliable ops" "set xs \<subseteq> {..<length calls}"
  shows "\<exists>r. apply_calls ops on_revert calls xs st = Some (Inr r)"
  using assms(2)
proof (induction xs arbitrary: st)
  case (Cons x xs)
  have "\<not> isl (transact_raw ops st (calls ! x))" using assms(1) by (simp add: reliable_def)
  then obtain r where "transact_raw ops st (calls ! x) = Inr r" by (rule not_isl_cases)
  with Cons show ?case by (cases r) auto
qed simp

lemma check_decides:
  assumes "reliable ops"
  shows "decides (check_sequence ops st on_revert after_invariant calls) (length calls)
    (reproduces ops st on_revert after_invariant calls)"
  unfolding decides_def
proof (intro allI impI)
  fix xs assume "set xs \<subseteq> {..<length calls}"
  with apply_calls_returns [OF assms] obtain r where
    r: "apply_calls ops on_revert calls xs st = Some (Inr r)" by blast
  have "\<exists>s b. check_sequence ops st on_revert after_invariant calls xs = Some (Inr (s, b))"
  proof (cases r)
    case (Some st')
    have "\<not> isl (call_invariant_function ops st')" "\<not> isl (call_after_invariant_function ops st')"
      using assms by (simp_all add: reliable_def)
    with r Some show ?thesis by (auto simp: check_sequence_def elim!: not_isl_cases)
  qed (auto simp: check_sequence_def r)
  then show "\<exists>b. check_sequence ops st on_revert after_invariant calls xs =
      Some (Inr (\<not> reproduces ops st on_revert after_invariant calls xs, b))"
    by (auto simp: reproduces_def)
qed

lemma current_new: "shrinker_current (Shrinker_new n) = [0..<n]"
  by (simp add: shrinker_current_def Shrinker_new_def bit_test_def)

text \<open>The first round tests the whole sequence and starts the search.\<close>

lemma loop_new:
  assumes "decides check n fails" "fails [0..<n]" "0 < n"
  shows "shrink_loop check (Suc m) (Shrinker_new n) = shrink_loop check m (trying n [])"
proof -
  obtain b where "check [0..<n] = Some (Inr (False, b))"
    using assms(1,2) by (force simp: decides_def dest!: spec [of _ "[0..<n]"])
  with assms(3) show ?thesis by (simp add: current_new simplify_new)
qed

lemma loop_from_new:
  assumes "decides check n fails" "fails [0..<n]" "n < m"
  shows "\<exists>s. shrink_loop check m (Shrinker_new n) = Some s \<and> shrinker_current s = greedy fails [] [0..<n]"
proof (cases "n = 0")
  case True
  obtain b where "check [] = Some (Inr (False, b))"
    using assms(1,2) True unfolding decides_def by fastforce
  with True assms(3) show ?thesis
    by (cases m) (simp_all add: current_new shrinker_simplify_def Shrinker_new_def shrinker_current_def)
next
  case False
  with assms(3) obtain k where k: "m = Suc k" "n \<le> k" by (cases m) auto
  have "indices [] = []" by (simp add: indices_def)
  with loop_greedy [OF assms(1), of "[]" k] loop_new [OF assms(1,2), of k] False k show ?thesis by simp
qed

lemma shrink_sequence_result:
  assumes "reliable ops" "call_invariant_function ops st = Inr True"
    and "reproduces ops st on_revert after_invariant calls [0..<length calls]" "length calls < limit"
  shows "shrink_sequence ops st on_revert after_invariant limit calls =
    Some (Inr (map ((!) calls) (greedy (reproduces ops st on_revert after_invariant calls) [] [0..<length calls])))"
  using loop_from_new [OF check_decides [OF assms(1)] assms(3,4)] assms(2)
  by (auto simp: shrink_sequence_def)

text \<open>
  C29. With more runs than calls and an executor that does not fail, shrinking a sequence that breaks
  the invariant returns what the reference algorithm keeps, dropping each call in turn if the failure
  is still reproduced without it. The shrunk sequence keeps the order of the calls and still breaks the
  invariant.
\<close>

theorem shrink_sequence_reproduces:
  assumes "reliable ops" "call_invariant_function ops st = Inr True"
    and "reproduces ops st on_revert after_invariant calls [0..<length calls]" "length calls < limit"
  shows "\<exists>kept. shrink_sequence ops st on_revert after_invariant limit calls = Some (Inr (map ((!) calls) kept)) \<and>
    kept = greedy (reproduces ops st on_revert after_invariant calls) [] [0..<length calls] \<and>
    reproduces ops st on_revert after_invariant calls kept \<and>
    sorted_wrt (<) kept \<and> set kept \<subseteq> {..<length calls}"
proof -
  let ?fails = "reproduces ops st on_revert after_invariant calls"
  have "?fails (greedy ?fails [] [0..<length calls])" using greedy_fails [of ?fails "[]"] assms(3) by simp
  moreover have "sorted_wrt (<) (greedy ?fails [] [0..<length calls])" by (rule greedy_sorted) simp
  moreover have "set (greedy ?fails [] [0..<length calls]) \<subseteq> {..<length calls}"
    using greedy_within [of ?fails "[]" "[0..<length calls]"] by auto
  ultimately show ?thesis using shrink_sequence_result [OF assms] by blast
qed

text \<open>
  If putting calls back never repairs the failure, the shrunk sequence is minimal: leaving out any
  one of its calls no longer breaks the invariant.
\<close>

theorem shrink_sequence_minimal:
  assumes "reliable ops" "call_invariant_function ops st = Inr True"
    and "reproduces ops st on_revert after_invariant calls [0..<length calls]" "length calls < limit"
    and "kept_failing (reproduces ops st on_revert after_invariant calls) [0..<length calls]"
  shows "\<exists>kept. shrink_sequence ops st on_revert after_invariant limit calls = Some (Inr (map ((!) calls) kept)) \<and>
    (\<forall>i \<in> set kept. \<not> reproduces ops st on_revert after_invariant calls (remove1 i kept))"
  using shrink_sequence_result [OF assms(1-4)] greedy_minimal [OF assms(5), of "[]" "[0..<length calls]"]
  by auto

text \<open>
  As many runs as there are calls are one too few: the candidate without the last call is returned
  untested, so the last call is always dropped, even when the failure needs it.
\<close>

theorem shrink_limit_drops_last_call:
  assumes "reliable ops" "call_invariant_function ops st = Inr True" "calls \<noteq> []"
    and "reproduces ops st on_revert after_invariant calls [0..<length calls]"
  shows "shrink_sequence ops st on_revert after_invariant (length calls) calls =
    Some (Inr (map ((!) calls) (filter (\<lambda>i. i < length calls - 1)
      (greedy (reproduces ops st on_revert after_invariant calls) [] [0..<length calls]))))"
proof -
  note dec = check_decides [OF assms(1), of st on_revert after_invariant calls]
  obtain m where m: "length calls = Suc m" using assms(3) by (cases calls) auto
  have "indices [] = []" by (simp add: indices_def)
  then show ?thesis
    using loop_untested [OF dec, of "[]" m] loop_new [OF dec assms(4), of m] m assms(2)
    by (auto simp: shrink_sequence_def)
qed

definition sum_ops :: "(unit, nat, nat) executor_ops" where
  "sum_ops =
     \<lparr>transact_raw = (\<lambda>st tx. Inr (st + tx, False, [])), call_invariant_function = (\<lambda>st. Inr (st < 5)),
      call_after_invariant_function = (\<lambda>_. Inr True), MAGIC_ASSUME = []\<rparr>"

lemma sum_reliable: "reliable sum_ops"
  by (simp add: reliable_def sum_ops_def)

lemma sum_apply:
  "set xs \<subseteq> {..<length calls} \<Longrightarrow>
   apply_calls sum_ops False calls xs st = Some (Inr (Some (st + sum_list (map ((!) calls) xs))))"
  by (induction xs arbitrary: st) (auto simp: sum_ops_def not_le)

lemma sum_reproduces:
  "set xs \<subseteq> {..<length calls} \<Longrightarrow>
   reproduces sum_ops 0 False False calls xs \<longleftrightarrow> 5 \<le> sum_list (map ((!) calls) xs)"
  by (simp add: reproduces_def check_sequence_def sum_apply) (auto simp: sum_ops_def)

lemma sum_invariant: "call_invariant_function sum_ops 0 = Inr True"
  by (simp add: sum_ops_def)

lemma subseq_set: "subseq xs ys \<Longrightarrow> set xs \<subseteq> set ys"
  by (induction rule: list_emb.induct) auto

lemma sum_kept_failing: "kept_failing (reproduces sum_ops 0 False False calls) [0..<length calls]"
  unfolding kept_failing_def
proof (intro allI impI)
  fix xs ys assume s: "subseq xs ys" "subseq ys [0..<length calls]" "reproduces sum_ops 0 False False calls xs"
  have ys: "set ys \<subseteq> {..<length calls}" using subseq_set [OF s(2)] by auto
  with subseq_set [OF s(1)] have xs: "set xs \<subseteq> {..<length calls}" by (rule subset_trans)
  have "sum_list (map ((!) calls) xs) \<le> sum_list (map ((!) calls) ys)"
    using s(1) by (induction rule: list_emb.induct) auto
  with s(3) show "reproduces sum_ops 0 False False calls ys"
    unfolding sum_reproduces [OF xs] sum_reproduces [OF ys] by (rule order_trans)
qed

theorem shrink_sequence_reproduces_witness:
  "\<exists>kept. shrink_sequence sum_ops 0 False False 4 [1, 7, 2] = Some (Inr (map ((!) [1, 7, 2]) kept)) \<and> kept = [1]"
  using shrink_sequence_reproduces [OF sum_reliable sum_invariant, of False False "[1, 7, 2]" 4]
  by (simp add: sum_reproduces upt_conv_Cons)

theorem shrink_sequence_minimal_witness:
  "\<exists>kept. shrink_sequence sum_ops 0 False False 5 [3, 1, 4] = Some (Inr (map ((!) [3, 1, 4]) kept)) \<and>
     (\<forall>i \<in> set kept. \<not> reproduces sum_ops 0 False False [3, 1, 4] (remove1 i kept))"
  by (rule shrink_sequence_minimal [OF sum_reliable sum_invariant _ _ sum_kept_failing])
    (simp_all add: sum_reproduces upt_conv_Cons)

theorem shrink_limit_drops_last_call_witness:
  "shrink_sequence sum_ops 0 False False 1 [7] = Some (Inr []) \<and> \<not> reproduces sum_ops 0 False False [7] []"
  using shrink_limit_drops_last_call [OF sum_reliable sum_invariant, of "[7]" False False]
  by (simp add: sum_reproduces)

end
