(* ===== verification/Contract_Env.thy ===== *)
theory Contract_Env
  imports Prelude
begin

text \<open>
  What the Solidity contracts of the repository share: the environment of a call, reverts, checked
  256-bit arithmetic (the default since Solidity 0.8) and transactions. A call that reverts leaves the
  state as it was. Ether balances are natural numbers: the supply keeps them far below the range of
  \<open>uint256\<close>. A mapping from addresses is a function whose default is zero.
\<close>

section \<open>Calls\<close>

record call_env =
  msg_sender :: address
  msg_value :: u256
  block_timestamp :: u256

datatype revert_reason =
    Require string
  | Panic
  | NotOwner
  | LimitExceeds u256 u256
  | NonPayable
  | CallReverted

text \<open>A function that is not payable reverts when ether is sent along.\<close>

definition non_payable :: "call_env \<Rightarrow> revert_reason + 's \<Rightarrow> revert_reason + 's" where
  "non_payable env r = (if msg_value env \<noteq> 0 then Inl NonPayable else r)"

lemma non_payable_Inr [simp]: "non_payable env r = Inr s \<longleftrightarrow> msg_value env = 0 \<and> r = Inr s"
  by (simp add: non_payable_def)

section \<open>Checked arithmetic\<close>

definition checked_add :: "u256 \<Rightarrow> u256 \<Rightarrow> revert_reason + u256" where
  [arith_defs]: "checked_add a b = (if unat a + unat b < 2 ^ 256 then Inr (a + b) else Inl Panic)"

definition checked_sub :: "u256 \<Rightarrow> u256 \<Rightarrow> revert_reason + u256" where
  [arith_defs]: "checked_sub a b = (if b \<le> a then Inr (a - b) else Inl Panic)"

definition checked_mul :: "u256 \<Rightarrow> u256 \<Rightarrow> revert_reason + u256" where
  [arith_defs]: "checked_mul a b = (if unat a * unat b < 2 ^ 256 then Inr (a * b) else Inl Panic)"

definition checked_smul :: "i256 \<Rightarrow> i256 \<Rightarrow> revert_reason + i256" where
  [arith_defs]: "checked_smul a b =
     (if - (2 ^ 255) \<le> sint a * sint b \<and> sint a * sint b < 2 ^ 255 then Inr (a * b) else Inl Panic)"

lemma checked_add_cases:
  obtains "checked_add a b = Inl Panic" "2 ^ 256 \<le> unat a + unat b"
  | "checked_add a b = Inr (a + b)" "unat (a + b) = unat a + unat b"
proof (cases "unat a + unat b < 2 ^ 256")
  case True
  then have "unat (a + b) = unat a + unat b" by (simp add: unat_word_ariths)
  with True that(2) show thesis by (simp add: checked_add_def)
qed (use that(1) in \<open>simp add: checked_add_def\<close>)

lemma checked_sub_cases:
  obtains "checked_sub a b = Inl Panic" "unat a < unat b"
  | "checked_sub a b = Inr (a - b)" "unat (a - b) = unat a - unat b" "unat b \<le> unat a"
proof (cases "b \<le> a")
  case True
  then have "unat (a - b) = unat a - unat b" by (rule unat_sub)
  with True that(2) show thesis by (simp add: checked_sub_def word_le_nat_alt)
qed (use that(1) in \<open>simp add: checked_sub_def word_le_nat_alt not_le\<close>)

section \<open>Transactions\<close>

definition run_tx :: "('op \<Rightarrow> 's \<Rightarrow> 'r + 's) \<Rightarrow> 'op \<Rightarrow> 's \<Rightarrow> 's" where
  "run_tx step x s = (case step x s of Inr s' \<Rightarrow> s' | Inl _ \<Rightarrow> s)"

definition run_txs :: "('op \<Rightarrow> 's \<Rightarrow> 'r + 's) \<Rightarrow> 'op list \<Rightarrow> 's \<Rightarrow> 's" where
  "run_txs step = fold (run_tx step)"

lemma run_txs_simps [simp]:
  "run_txs step [] s = s"
  "run_txs step (x # xs) s = run_txs step xs (run_tx step x s)"
  "run_txs step (xs @ ys) s = run_txs step ys (run_txs step xs s)"
  by (simp_all add: run_txs_def)

text \<open>A contract whose calls keep an invariant keeps it over any sequence of transactions.\<close>

locale contract_system =
  fixes step :: "'op \<Rightarrow> 's \<Rightarrow> 'r + 's"
    and inv :: "'s \<Rightarrow> bool"
  assumes call_keeps: "inv s \<Longrightarrow> step x s = Inr s' \<Longrightarrow> inv s'"
begin

lemma tx_keeps: "inv s \<Longrightarrow> inv (run_tx step x s)"
  using call_keeps by (auto simp: run_tx_def split: sum.split)

lemma txs_keep: "inv s \<Longrightarrow> inv (run_txs step xs s)"
  by (induction xs arbitrary: s) (simp_all add: tx_keeps)

end

section \<open>Sums over all addresses\<close>

definition total_of :: "(address \<Rightarrow> u256) \<Rightarrow> nat" where
  "total_of m = (\<Sum>a \<in> UNIV. unat (m a))"

lemma total_split: "total_of m = unat (m a) + (\<Sum>x \<in> UNIV - {a}. unat (m x))"
  by (simp add: total_of_def sum.remove [of UNIV a])

lemma total_update: "total_of (m(a := v)) + unat (m a) = total_of m + unat v"
proof -
  have "(\<Sum>x \<in> UNIV - {a}. unat ((m(a := v)) x)) = (\<Sum>x \<in> UNIV - {a}. unat (m x))" by (rule sum.cong) auto
  then show ?thesis using total_split [of m a] total_split [of "m(a := v)" a] by simp
qed

lemma total_bound: "unat (m a) \<le> total_of m"
  using total_split [of m a] by simp

lemma total_bound2: "a \<noteq> b \<Longrightarrow> unat (m a) + unat (m b) \<le> total_of m"
  using total_update [of m a 0] total_bound [of "m(a := 0)" b] by simp

lemma total_zero [simp]: "total_of (\<lambda>_. 0) = 0"
  by (simp add: total_of_def)

lemma total_eq_0: "total_of m = 0 \<longleftrightarrow> m = (\<lambda>_. 0)"
  by (auto simp: total_of_def fun_eq_iff unat_eq_0)

text \<open>Moving an amount between two entries keeps the sum; the receiving entry cannot overflow.\<close>

lemma total_move:
  assumes "v \<le> m a" "total_of m < 2 ^ 256"
  shows "unat ((m(a := m a - v)) b) + unat v < 2 ^ 256"
    and "total_of (m(a := m a - v, b := (m(a := m a - v)) b + v)) = total_of m"
proof -
  let ?m = "m(a := m a - v)"
  have sub: "unat (m a - v) = unat (m a) - unat v" "unat v \<le> unat (m a)"
    using assms(1) by (simp_all add: unat_sub word_le_nat_alt)
  have down: "total_of ?m + unat v = total_of m" using total_update [of m a "m a - v"] sub by simp
  show bound: "unat (?m b) + unat v < 2 ^ 256" using total_bound [of ?m b] down assms(2) by linarith
  then have "unat (?m b + v) = unat (?m b) + unat v" by (simp add: unat_word_ariths)
  with total_update [of ?m b "?m b + v"] down show "total_of (?m(b := ?m b + v)) = total_of m" by linarith
qed

end
