(* ===== verification/Fund_Me.thy ===== *)
theory Fund_Me
  imports Contract_Env
begin

text \<open>
  The crowd-funding contract of foundry-fund-me-f23 (src/FundMe.sol, src/PriceConverter.sol). The price
  feed is a contract of the Chainlink package: its answers are a parameter of each call. The owner is
  paid with \<open>call\<close>, which hands control over, so a withdrawal carries the calls its recipient makes
  while being paid, nested to any depth.
\<close>

section \<open>Price conversion\<close>

record price_feeds =
  latest_answer :: "address \<Rightarrow> i256 option"
  feed_version :: "address \<Rightarrow> u256 option"

definition getPrice :: "price_feeds \<Rightarrow> address \<Rightarrow> revert_reason + u256" where
  "getPrice feeds priceFeed =
     (case latest_answer feeds priceFeed of
        None \<Rightarrow> Inl CallReverted
      | Some answer \<Rightarrow> checked_smul answer 10000000000)"

definition getConversionRate :: "price_feeds \<Rightarrow> u256 \<Rightarrow> address \<Rightarrow> revert_reason + u256" where
  "getConversionRate feeds ethAmount priceFeed =
     (case getPrice feeds priceFeed of
        Inl e \<Rightarrow> Inl e
      | Inr ethPrice \<Rightarrow>
          (case checked_mul ethPrice ethAmount of
             Inl e \<Rightarrow> Inl e
           | Inr product \<Rightarrow> Inr (product div 1000000000000000000)))"

section \<open>The contract\<close>

record FundMe =
  s_addressToAmountFunded :: "address \<Rightarrow> u256"
  s_funders :: "address list"
  i_owner :: address
  s_priceFeed :: address
  eth :: nat

definition MINIMUM_USD :: u256 where "MINIMUM_USD = 5000000000000000000"

definition FundMe_constructor :: "call_env \<Rightarrow> address \<Rightarrow> revert_reason + FundMe" where
  "FundMe_constructor env priceFeed =
     non_payable env (Inr
       \<lparr>s_addressToAmountFunded = (\<lambda>_. 0), s_funders = [], i_owner = msg_sender env, s_priceFeed = priceFeed, eth = 0\<rparr>)"

definition fund :: "price_feeds \<Rightarrow> call_env \<Rightarrow> FundMe \<Rightarrow> revert_reason + FundMe" where
  "fund feeds env s =
     (case getConversionRate feeds (msg_value env) (s_priceFeed s) of
        Inl e \<Rightarrow> Inl e
      | Inr rate \<Rightarrow>
          if rate < MINIMUM_USD then Inl (Require ''You need to spend more ETH!'')
          else
            (case checked_add (s_addressToAmountFunded s (msg_sender env)) (msg_value env) of
               Inl e \<Rightarrow> Inl e
             | Inr amount \<Rightarrow>
                 Inr (s\<lparr>s_addressToAmountFunded := (s_addressToAmountFunded s)(msg_sender env := amount),
                        s_funders := s_funders s @ [msg_sender env],
                        eth := eth s + unat (msg_value env)\<rparr>)))"

definition fundme_fallback :: "price_feeds \<Rightarrow> call_env \<Rightarrow> FundMe \<Rightarrow> revert_reason + FundMe" where
  "fundme_fallback feeds env s = fund feeds env s"

definition fundme_receive :: "price_feeds \<Rightarrow> call_env \<Rightarrow> FundMe \<Rightarrow> revert_reason + FundMe" where
  "fundme_receive feeds env s = fund feeds env s"

definition getPriceFeed :: "FundMe \<Rightarrow> address" where
  "getPriceFeed s = s_priceFeed s"

definition getVersion :: "price_feeds \<Rightarrow> FundMe \<Rightarrow> revert_reason + u256" where
  "getVersion feeds s = (case feed_version feeds (s_priceFeed s) of None \<Rightarrow> Inl CallReverted | Some v \<Rightarrow> Inr v)"

definition getAddressToAmountFunded :: "address \<Rightarrow> FundMe \<Rightarrow> u256" where
  "getAddressToAmountFunded fundingAddress s = s_addressToAmountFunded s fundingAddress"

definition getFunder :: "u256 \<Rightarrow> FundMe \<Rightarrow> revert_reason + address" where
  "getFunder index s = (if unat index < length (s_funders s) then Inr (s_funders s ! unat index) else Inl Panic)"

definition getOwner :: "FundMe \<Rightarrow> address" where
  "getOwner s = i_owner s"

definition reset_amount :: "address \<Rightarrow> FundMe \<Rightarrow> FundMe" where
  "reset_amount funder s = s\<lparr>s_addressToAmountFunded := (s_addressToAmountFunded s)(funder := 0)\<rparr>"

function withdraw_loop :: "nat \<Rightarrow> FundMe \<Rightarrow> FundMe" where
  "withdraw_loop funderIndex s =
     (if funderIndex < length (s_funders s)
      then withdraw_loop (Suc funderIndex) (reset_amount (s_funders s ! funderIndex) s)
      else s)"
  by pat_completeness auto
termination
  by (relation "measure (\<lambda>(i, s). length (s_funders s) - i)") (auto simp: reset_amount_def)

function cheaperWithdraw_loop :: "nat \<Rightarrow> nat \<Rightarrow> FundMe \<Rightarrow> revert_reason + FundMe" where
  "cheaperWithdraw_loop fundersLength funderIndex s =
     (if funderIndex < fundersLength then
        (if funderIndex < length (s_funders s)
         then cheaperWithdraw_loop fundersLength (Suc funderIndex) (reset_amount (s_funders s ! funderIndex) s)
         else Inl Panic)
      else Inr s)"
  by pat_completeness auto
termination
  by (relation "measure (\<lambda>(n, i, s). n - i)") auto

declare withdraw_loop.simps [simp del] cheaperWithdraw_loop.simps [simp del]

text \<open>
  Paying the owner: the ether leaves the contract, the recipient acts on the contract (\<open>callee\<close>, with
  whether its call succeeds), and a failed call reverts everything.
\<close>

definition pay_owner :: "(FundMe \<Rightarrow> FundMe \<times> bool) \<Rightarrow> FundMe \<Rightarrow> revert_reason + FundMe" where
  "pay_owner callee s =
     (let (s', callSuccess) = callee (s\<lparr>eth := 0\<rparr>)
      in if callSuccess then Inr s' else Inl (Require ''Call failed''))"

definition fundme_onlyOwner :: "call_env \<Rightarrow> FundMe \<Rightarrow> revert_reason + FundMe \<Rightarrow> revert_reason + FundMe" where
  "fundme_onlyOwner env s r = (if msg_sender env \<noteq> i_owner s then Inl NotOwner else r)"

definition fundme_withdraw :: "(FundMe \<Rightarrow> FundMe \<times> bool) \<Rightarrow> call_env \<Rightarrow> FundMe \<Rightarrow> revert_reason + FundMe" where
  "fundme_withdraw callee env s =
     non_payable env (fundme_onlyOwner env s
       (pay_owner callee ((withdraw_loop 0 s)\<lparr>s_funders := []\<rparr>)))"

definition cheaperWithdraw :: "(FundMe \<Rightarrow> FundMe \<times> bool) \<Rightarrow> call_env \<Rightarrow> FundMe \<Rightarrow> revert_reason + FundMe" where
  "cheaperWithdraw callee env s =
     non_payable env (fundme_onlyOwner env s
       (case cheaperWithdraw_loop (length (s_funders s)) 0 s of
          Inl e \<Rightarrow> Inl e
        | Inr s' \<Rightarrow> pay_owner callee (s'\<lparr>s_funders := []\<rparr>)))"

section \<open>Transactions\<close>

text \<open>
  A withdrawal comes with the calls made while the owner is paid and whether the payment is accepted.
  An inner call that reverts is undone and the recipient goes on. \<open>Force\<close> is ether that arrives without
  a call (a block reward or a self-destructed contract).
\<close>

datatype action =
    Fund price_feeds call_env
  | Withdraw call_env "action list" bool
  | CheaperWithdraw call_env "action list" bool
  | Force u256

fun exec_action :: "action \<Rightarrow> FundMe \<Rightarrow> revert_reason + FundMe"
  and exec_actions :: "action list \<Rightarrow> FundMe \<Rightarrow> FundMe" where
  "exec_action (Fund feeds env) s = fund feeds env s"
| "exec_action (Withdraw env inner ok) s = fundme_withdraw (\<lambda>t. (exec_actions inner t, ok)) env s"
| "exec_action (CheaperWithdraw env inner ok) s = cheaperWithdraw (\<lambda>t. (exec_actions inner t, ok)) env s"
| "exec_action (Force v) s = Inr (s\<lparr>eth := eth s + unat v\<rparr>)"
| "exec_actions [] s = s"
| "exec_actions (x # xs) s = exec_actions xs (case exec_action x s of Inr s' \<Rightarrow> s' | Inl _ \<Rightarrow> s)"

lemma exec_actions_run: "exec_actions xs s = run_txs exec_action xs s"
  by (induction xs arbitrary: s) (simp_all add: run_tx_def)

section \<open>Both withdrawals clear the accounts\<close>

definition cleared :: "nat \<Rightarrow> FundMe \<Rightarrow> FundMe" where
  "cleared i s = s\<lparr>s_addressToAmountFunded :=
     (\<lambda>a. if a \<in> set (drop i (s_funders s)) then 0 else s_addressToAmountFunded s a)\<rparr>"

lemma cleared_step:
  assumes "i < length (s_funders s)"
  shows "cleared (Suc i) (reset_amount (s_funders s ! i) s) = cleared i s"
  using Cons_nth_drop_Suc [OF assms, symmetric] by (auto simp: cleared_def reset_amount_def fun_eq_iff)

lemma cleared_done: "length (s_funders s) \<le> i \<Longrightarrow> cleared i s = s"
  by (simp add: cleared_def)

lemma withdraw_loop_clears: "withdraw_loop i s = cleared i s"
proof (induction i s rule: withdraw_loop.induct)
  case (1 i s)
  then show ?case by (subst withdraw_loop.simps) (simp add: cleared_step cleared_done)
qed

lemma cheaper_loop_clears: "cheaperWithdraw_loop (length (s_funders s)) i s = Inr (cleared i s)"
proof (induction "length (s_funders s) - i" arbitrary: i s)
  case 0
  then show ?case by (subst cheaperWithdraw_loop.simps) (simp add: cleared_done)
next
  case (Suc n)
  let ?s = "reset_amount (s_funders s ! i) s"
  have len: "s_funders ?s = s_funders s" by (simp add: reset_amount_def)
  have "n = length (s_funders ?s) - Suc i" using Suc.hyps(2) by (simp add: len)
  from Suc.hyps(1) [OF this] Suc.hyps(2) show ?case
    by (subst cheaperWithdraw_loop.simps) (simp add: cleared_step len)
qed

lemma cheaper_withdraw_eq: "cheaperWithdraw callee env s = fundme_withdraw callee env s"
  by (simp add: cheaperWithdraw_def fundme_withdraw_def withdraw_loop_clears cheaper_loop_clears)

lemma withdraw_cases:
  assumes "fundme_withdraw callee env s = Inr s'"
  obtains "msg_value env = 0" "msg_sender env = i_owner s"
    and "callee ((cleared 0 s)\<lparr>s_funders := [], eth := 0\<rparr>) = (s', True)"
  using assms
  by (auto simp: fundme_withdraw_def fundme_onlyOwner_def pay_owner_def withdraw_loop_clears split: if_splits prod.splits)

lemma fund_cases:
  assumes "fund feeds env s = Inr s'"
  obtains "s' = s\<lparr>s_addressToAmountFunded := (s_addressToAmountFunded s)
      (msg_sender env := s_addressToAmountFunded s (msg_sender env) + msg_value env),
      s_funders := s_funders s @ [msg_sender env], eth := eth s + unat (msg_value env)\<rparr>"
    and "unat (s_addressToAmountFunded s (msg_sender env) + msg_value env) =
      unat (s_addressToAmountFunded s (msg_sender env)) + unat (msg_value env)"
proof (cases rule: checked_add_cases [of "s_addressToAmountFunded s (msg_sender env)" "msg_value env"])
  case 2
  with assms that show thesis by (simp add: fund_def split: sum.splits if_splits)
qed (use assms in \<open>simp add: fund_def split: sum.splits if_splits\<close>)

section \<open>The accounts are covered\<close>

text \<open>
  The recorded amounts are covered by the ether of the contract, only listed funders have one, and
  owner and price feed are those of the deployment.
\<close>

definition fundme_inv :: "address \<Rightarrow> address \<Rightarrow> FundMe \<Rightarrow> bool" where
  "fundme_inv owner feed s \<longleftrightarrow>
     total_of (s_addressToAmountFunded s) \<le> eth s \<and>
     (\<forall>a. a \<notin> set (s_funders s) \<longrightarrow> s_addressToAmountFunded s a = 0) \<and>
     i_owner s = owner \<and> s_priceFeed s = feed"

lemma cleared_amounts: "fundme_inv owner feed s \<Longrightarrow> s_addressToAmountFunded (cleared 0 s) = (\<lambda>_. 0)"
  by (auto simp: fundme_inv_def cleared_def)

lemma fund_keeps:
  assumes "fundme_inv owner feed s" "fund feeds env s = Inr s'"
  shows "fundme_inv owner feed s'"
  using assms(2)
proof (rule fund_cases)
  let ?m = "s_addressToAmountFunded s" and ?a = "msg_sender env" and ?v = "msg_value env"
  assume s': "s' = s\<lparr>s_addressToAmountFunded := ?m(?a := ?m ?a + ?v), s_funders := s_funders s @ [?a], eth := eth s + unat ?v\<rparr>"
    and "unat (?m ?a + ?v) = unat (?m ?a) + unat ?v"
  then have "total_of (?m(?a := ?m ?a + ?v)) = total_of ?m + unat ?v"
    using total_update [of ?m ?a "?m ?a + ?v"] by simp
  with assms(1) s' show ?thesis by (simp add: fundme_inv_def)
qed

lemma withdraw_keeps:
  assumes "fundme_inv owner feed s" "fundme_withdraw callee env s = Inr s'"
    and "\<And>t. fundme_inv owner feed t \<Longrightarrow> fundme_inv owner feed (fst (callee t))"
  shows "fundme_inv owner feed s'"
proof -
  have "fundme_inv owner feed ((cleared 0 s)\<lparr>s_funders := [], eth := 0\<rparr>)"
    using assms(1) cleared_amounts [OF assms(1)] by (simp add: fundme_inv_def) (simp add: cleared_def)
  from assms(3) [OF this] assms(2) show ?thesis by (auto elim!: withdraw_cases)
qed

lemma exec_keeps:
  "fundme_inv owner feed s \<Longrightarrow> exec_action x s = Inr s' \<Longrightarrow> fundme_inv owner feed s'"
  "fundme_inv owner feed t \<Longrightarrow> fundme_inv owner feed (exec_actions xs t)"
proof (induction x s and xs t arbitrary: s' rule: exec_action_exec_actions.induct)
  case (2 env inner ok s)
  show ?case by (rule withdraw_keeps [OF 2(2) 2(3) [simplified]]) (simp add: 2(1))
next
  case (3 env inner ok s)
  show ?case by (rule withdraw_keeps [OF 3(2) 3(3) [simplified cheaper_withdraw_eq exec_action.simps]]) (simp add: 3(1))
next
  case (6 x xs s)
  then show ?case by (auto split: sum.split)
next
  case (1 feeds env s)
  then show ?case using fund_keeps by simp
next
  case (4 v s)
  then show ?case by (auto simp: fundme_inv_def)
qed simp_all

interpretation fundme: contract_system exec_action "fundme_inv owner feed" for owner feed
  by unfold_locales (rule exec_keeps)

text \<open>
  C10. Whatever is sent to the contract after its deployment, including calls the owner's account makes
  while it is being paid, the recorded amounts are covered by the ether it holds, an address that is
  not listed as a funder has no amount, and owner and price feed stay those of the deployment.
\<close>

theorem fundme_accounts_covered:
  assumes "FundMe_constructor env feed = Inr s"
  shows "let s' = run_txs exec_action xs s in
    total_of (s_addressToAmountFunded s') \<le> eth s' \<and>
    {a. s_addressToAmountFunded s' a \<noteq> 0} \<subseteq> set (s_funders s') \<and>
    i_owner s' = msg_sender env \<and> s_priceFeed s' = feed"
proof -
  have "fundme_inv (msg_sender env) feed s" using assms by (auto simp: FundMe_constructor_def fundme_inv_def)
  from fundme.txs_keep [OF this, of xs] show ?thesis by (auto simp: fundme_inv_def Let_def)
qed

definition owner_env :: call_env where
  "owner_env = \<lparr>msg_sender = 1, msg_value = 0, block_timestamp = 0\<rparr>"

definition payer_env :: "u256 \<Rightarrow> call_env" where
  "payer_env v = \<lparr>msg_sender = 2, msg_value = v, block_timestamp = 0\<rparr>"

definition sample_feeds :: "i256 \<Rightarrow> price_feeds" where
  "sample_feeds answer = \<lparr>latest_answer = (\<lambda>_. Some answer), feed_version = (\<lambda>_. Some 4)\<rparr>"

definition sample_fundme :: FundMe where
  "sample_fundme =
     \<lparr>s_addressToAmountFunded = (\<lambda>_. 0), s_funders = [], i_owner = 1, s_priceFeed = 9, eth = 0\<rparr>"

lemma sample_fundme: "FundMe_constructor owner_env 9 = Inr sample_fundme"
  by (simp add: FundMe_constructor_def owner_env_def non_payable_def sample_fundme_def)

theorem fundme_accounts_covered_witness:
  "let s' = run_txs exec_action [Fund (sample_feeds 200000000000) (payer_env 1000000000000000000),
        Withdraw owner_env [Fund (sample_feeds 200000000000) (payer_env 7000000000000000000)] True] sample_fundme in
    total_of (s_addressToAmountFunded s') \<le> eth s' \<and>
    {a. s_addressToAmountFunded s' a \<noteq> 0} \<subseteq> set (s_funders s') \<and> i_owner s' = 1 \<and> s_priceFeed s' = 9"
proof -
  have "msg_sender owner_env = 1" by (simp add: owner_env_def)
  from fundme_accounts_covered [OF sample_fundme, unfolded this] show ?thesis .
qed

text \<open>
  C30. A withdrawal reverts unless it is the owner's and carries no ether. Otherwise every account is
  cleared and the list of funders emptied before the owner is paid all the ether, so the owner's
  account sees no open amount while it is being paid, and a payment that fails undoes all of it.
\<close>

theorem withdraw_settles_all:
  assumes "fundme_inv owner feed s"
  shows "fundme_withdraw callee env s =
    (if msg_value env \<noteq> 0 then Inl NonPayable
     else if msg_sender env \<noteq> owner then Inl NotOwner
     else case callee (s\<lparr>s_addressToAmountFunded := (\<lambda>_. 0), s_funders := [], eth := 0\<rparr>) of
       (s', True) \<Rightarrow> Inr s'
     | (s', False) \<Rightarrow> Inl (Require ''Call failed''))"
proof -
  have "(cleared 0 s)\<lparr>s_funders := [], eth := 0\<rparr> = s\<lparr>s_addressToAmountFunded := (\<lambda>_. 0), s_funders := [], eth := 0\<rparr>"
    using cleared_amounts [OF assms] by (simp add: cleared_def)
  with assms show ?thesis
    by (auto simp: fundme_withdraw_def non_payable_def fundme_onlyOwner_def pay_owner_def withdraw_loop_clears
        fundme_inv_def split: prod.splits bool.splits)
qed

theorem withdraw_settles_all_witness:
  "fundme_withdraw (\<lambda>t. (t, True)) owner_env (sample_fundme\<lparr>eth := 5\<rparr>) = Inr sample_fundme"
proof -
  have "fundme_inv 1 9 (sample_fundme\<lparr>eth := 5\<rparr>)" by (simp add: fundme_inv_def sample_fundme_def)
  from withdraw_settles_all [OF this] show ?thesis by (simp add: owner_env_def sample_fundme_def)
qed

text \<open>
  C31. The two ways to withdraw are the same function: the loop that keeps the length of the funders in
  a local variable clears the same accounts and never reads past the end.
\<close>

theorem cheaperWithdraw_equivalent: "cheaperWithdraw callee env s = fundme_withdraw callee env s"
  by (rule cheaper_withdraw_eq)

section \<open>Only the owner can take ether out\<close>

fun by_others :: "address \<Rightarrow> action \<Rightarrow> bool" where
  "by_others owner (Withdraw env inner ok) \<longleftrightarrow> msg_sender env \<noteq> owner"
| "by_others owner (CheaperWithdraw env inner ok) \<longleftrightarrow> msg_sender env \<noteq> owner"
| "by_others owner (Fund feeds env) \<longleftrightarrow> True"
| "by_others owner (Force v) \<longleftrightarrow> True"

definition grown :: "FundMe \<Rightarrow> FundMe \<Rightarrow> bool" where
  "grown s s' \<longleftrightarrow> eth s \<le> eth s' \<and> (\<forall>a. s_addressToAmountFunded s a \<le> s_addressToAmountFunded s' a) \<and>
     i_owner s' = i_owner s"

lemma grown_refl: "grown s s"
  by (simp add: grown_def)

lemma grown_trans: "grown s t \<Longrightarrow> grown t u \<Longrightarrow> grown s u"
  unfolding grown_def by (metis order_trans)

lemma others_grow: "by_others (i_owner s) x \<Longrightarrow> grown s (run_tx exec_action x s)"
proof (cases "exec_action x s")
  case (Inr s')
  assume "by_others (i_owner s) x"
  with Inr show ?thesis
    by (cases x) (auto simp: run_tx_def grown_def cheaper_withdraw_eq word_le_nat_alt elim!: withdraw_cases fund_cases)
qed (simp add: run_tx_def grown_refl)

text \<open>
  C32. Without a withdrawal by the owner, no sequence of calls takes ether out of the contract or
  lowers anyone's recorded amount.
\<close>

theorem only_owner_takes_ether:
  assumes "list_all (by_others (i_owner s)) xs"
  shows "eth s \<le> eth (run_txs exec_action xs s) \<and>
    (\<forall>a. s_addressToAmountFunded s a \<le> s_addressToAmountFunded (run_txs exec_action xs s) a)"
proof -
  have "grown s (run_txs exec_action xs s)" using assms
  proof (induction xs arbitrary: s)
    case (Cons x xs)
    then have g: "grown s (run_tx exec_action x s)" by (simp add: others_grow)
    then have "i_owner (run_tx exec_action x s) = i_owner s" by (simp add: grown_def)
    with Cons have "grown (run_tx exec_action x s) (run_txs exec_action (x # xs) s)" by simp
    with g show ?case by (rule grown_trans)
  qed (simp add: grown_refl)
  then show ?thesis by (simp add: grown_def)
qed

theorem only_owner_takes_ether_witness:
  "5 \<le> eth (run_txs exec_action [Withdraw (payer_env 0) [] True, Force 3] (sample_fundme\<lparr>eth := 5\<rparr>))"
  using only_owner_takes_ether [of "sample_fundme\<lparr>eth := 5\<rparr>" "[Withdraw (payer_env 0) [] True, Force 3]"]
  by (simp add: sample_fundme_def payer_env_def)

section \<open>The minimum contribution\<close>

lemma getPrice_value:
  assumes "latest_answer feeds feed = Some a" "- (2 ^ 255) \<le> sint a * 10 ^ 10" "sint a * 10 ^ 10 < 2 ^ 255"
  shows "\<exists>p. getPrice feeds feed = Inr p \<and> uint p = (sint a * 10 ^ 10) mod 2 ^ 256"
proof -
  have ten: "sint (10000000000 :: i256) = 10 ^ 10" by simp
  have "getPrice feeds feed = Inr (a * 10000000000)"
    using assms by (simp add: getPrice_def checked_smul_def ten)
  moreover have "uint (a * 10000000000) = (sint a * 10 ^ 10) mod 2 ^ 256"
  proof -
    have "(of_int (sint a) :: i256) * of_int (10 ^ 10) = of_int (sint a * 10 ^ 10)" by simp
    then have "a * 10000000000 = of_int (sint a * 10 ^ 10)" by simp
    then show ?thesis by (simp only: uint_word_of_int_eq) (simp add: take_bit_eq_mod)
  qed
  ultimately show ?thesis by blast
qed

lemma conversion_value:
  assumes "getPrice feeds feed = Inr p" "unat p * unat v < 2 ^ 256"
  shows "\<exists>r. getConversionRate feeds v feed = Inr r \<and> unat r = unat p * unat v div 10 ^ 18"
proof -
  have "unat (p * v div 1000000000000000000) = unat (p * v) div 10 ^ 18" by (simp add: unat_div)
  also have "unat (p * v) = unat p * unat v" using assms(2) by (simp add: unat_word_ariths)
  finally show ?thesis using assms by (simp add: getConversionRate_def checked_mul_def)
qed

lemma fund_accepts:
  assumes "getPrice feeds (s_priceFeed s) = Inr p" "unat p * unat (msg_value env) < 2 ^ 256"
    and "unat (s_addressToAmountFunded s (msg_sender env)) + unat (msg_value env) < 2 ^ 256"
  shows "if 5 * 10 ^ 18 \<le> unat p * unat (msg_value env) div 10 ^ 18
    then \<exists>s'. fund feeds env s = Inr s' \<and> eth s' = eth s + unat (msg_value env)
    else fund feeds env s = Inl (Require ''You need to spend more ETH!'')"
proof -
  obtain r where r: "getConversionRate feeds (msg_value env) (s_priceFeed s) = Inr r"
    "unat r = unat p * unat (msg_value env) div 10 ^ 18"
    using conversion_value [OF assms(1,2)] by blast
  have "r < MINIMUM_USD \<longleftrightarrow> \<not> 5 * 10 ^ 18 \<le> unat r"
    by (simp add: MINIMUM_USD_def word_less_nat_alt not_le)
  with r assms(3) show ?thesis by (simp add: fund_def checked_add_def)
qed

text \<open>
  With a price that is not negative, a contribution within the range of the arithmetic is accepted
  exactly when its value, with the price scaled from 8 to 18 decimals, is at least five dollars.
\<close>

theorem fund_minimum:
  assumes "latest_answer feeds (s_priceFeed s) = Some a" "0 \<le> sint a" "sint a * 10 ^ 10 < 2 ^ 255"
    and "nat (sint a) * 10 ^ 10 * unat (msg_value env) < 2 ^ 256"
    and "unat (s_addressToAmountFunded s (msg_sender env)) + unat (msg_value env) < 2 ^ 256"
  shows "if 5 * 10 ^ 18 \<le> nat (sint a) * 10 ^ 10 * unat (msg_value env) div 10 ^ 18
    then \<exists>s'. fund feeds env s = Inr s' \<and> eth s' = eth s + unat (msg_value env)
    else fund feeds env s = Inl (Require ''You need to spend more ETH!'')"
proof -
  have low: "- (2 ^ 255) \<le> sint a * 10 ^ 10" using assms(2) by simp
  obtain p where p: "getPrice feeds (s_priceFeed s) = Inr p" "uint p = (sint a * 10 ^ 10) mod 2 ^ 256"
    using getPrice_value [OF assms(1) low assms(3)] by blast
  have "uint p = sint a * 10 ^ 10" using assms(2,3) p(2) by simp
  then have "unat p = nat (sint a) * 10 ^ 10"
    unfolding unat_eq_nat_uint by (simp add: nat_mult_distrib assms(2))
  with fund_accepts [OF p(1) _ assms(5)] assms(4) show ?thesis by simp
qed

theorem fund_minimum_witness:
  "fund (sample_feeds 200000000000) (payer_env 2000000000000000) sample_fundme =
     Inl (Require ''You need to spend more ETH!'')"
  using fund_minimum [of "sample_feeds 200000000000" sample_fundme 200000000000 "payer_env 2000000000000000"]
  by (simp add: sample_feeds_def payer_env_def sample_fundme_def)

text \<open>
  C33. A negative answer of the price feed is converted to an enormous unsigned price, so a single wei
  passes the five-dollar check.
\<close>

theorem negative_price_accepts_one_wei:
  assumes "latest_answer feeds (s_priceFeed s) = Some a" "sint a < 0" "- (2 ^ 255) \<le> sint a * 10 ^ 10"
    and "msg_value env = 1" "unat (s_addressToAmountFunded s (msg_sender env)) + 1 < 2 ^ 256"
  shows "\<exists>s'. fund feeds env s = Inr s' \<and> eth s' = eth s + 1"
proof -
  have high: "sint a * 10 ^ 10 < 2 ^ 255" using assms(2) by simp
  obtain p where p: "getPrice feeds (s_priceFeed s) = Inr p" "uint p = (sint a * 10 ^ 10) mod 2 ^ 256"
    using getPrice_value [OF assms(1,3) high] by blast
  have "(sint a * 10 ^ 10 + 2 ^ 256) mod 2 ^ 256 = sint a * 10 ^ 10 + 2 ^ 256"
    using assms(2,3) by (intro mod_pos_pos_trivial) auto
  then have "uint p = sint a * 10 ^ 10 + 2 ^ 256" using p(2) by simp
  then have "2 ^ 255 \<le> uint p" using assms(3) by simp
  then have "nat (2 ^ 255) \<le> nat (uint p)" by (rule nat_mono)
  then have "2 ^ 255 \<le> unat p" unfolding unat_eq_nat_uint by simp
  then have "2 ^ 255 div 10 ^ 18 \<le> unat p div 10 ^ 18" by (rule div_le_mono)
  then have "5 * 10 ^ 18 \<le> unat p * unat (msg_value env) div 10 ^ 18" using assms(4) by simp
  with fund_accepts [OF p(1), of env] assms(4,5) unat_below [of p] show ?thesis by simp
qed

theorem negative_price_accepts_one_wei_witness:
  "\<exists>s'. fund (sample_feeds (- 1)) (payer_env 1) sample_fundme = Inr s' \<and> eth s' = 1"
  using negative_price_accepts_one_wei [of "sample_feeds (- 1)" sample_fundme "- 1" "payer_env 1"]
  by (simp add: sample_feeds_def payer_env_def sample_fundme_def)

end
