(* ===== verification/Savings_Bank.thy ===== *)
theory Savings_Bank
  imports Contract_Env
begin

text \<open>
  The contracts Bank and Savings of foundry-simple-storage-f23 (src/contracts/Bank.sol, with a copy in
  src/Revision/Bank.sol). Savings inherits from Bank and overrides \<open>withdraw\<close>. Ether is paid with
  \<open>transfer\<close>, whose gas stipend lets the recipient refuse but not call back.
\<close>

section \<open>Bank\<close>

record Bank =
  balances :: "address \<Rightarrow> u256"
  bank_eth :: nat

definition deposit :: "call_env \<Rightarrow> 'z Bank_scheme \<Rightarrow> revert_reason + 'z Bank_scheme" where
  "deposit env s =
     (if msg_value env = 0 then Inl (Require ''Deposit must be greater than zero'')
      else
        (case checked_add (balances s (msg_sender env)) (msg_value env) of
           Inl e \<Rightarrow> Inl e
         | Inr b \<Rightarrow> Inr (s\<lparr>balances := (balances s)(msg_sender env := b), bank_eth := bank_eth s + unat (msg_value env)\<rparr>)))"

text \<open>\<open>payable(to).transfer(amount)\<close>: it reverts without the ether or when the recipient refuses it.\<close>

definition bank_transfer :: "bool \<Rightarrow> u256 \<Rightarrow> 'z Bank_scheme \<Rightarrow> revert_reason + 'z Bank_scheme" where
  "bank_transfer accepts amount s =
     (if accepts \<and> unat amount \<le> bank_eth s then Inr (s\<lparr>bank_eth := bank_eth s - unat amount\<rparr>) else Inl CallReverted)"

definition bank_withdraw_body :: "bool \<Rightarrow> address \<Rightarrow> u256 \<Rightarrow> 'z Bank_scheme \<Rightarrow> revert_reason + 'z Bank_scheme" where
  "bank_withdraw_body accepts who amount s =
     (if balances s who < amount then Inl (Require ''Insufficient balance'')
      else
        (case checked_sub (balances s who) amount of
           Inl e \<Rightarrow> Inl e
         | Inr b \<Rightarrow> bank_transfer accepts amount (s\<lparr>balances := (balances s)(who := b)\<rparr>)))"

definition bank_withdraw :: "bool \<Rightarrow> call_env \<Rightarrow> u256 \<Rightarrow> 'z Bank_scheme \<Rightarrow> revert_reason + 'z Bank_scheme" where
  "bank_withdraw accepts env amount s = non_payable env (bank_withdraw_body accepts (msg_sender env) amount s)"

definition getBalance :: "address \<Rightarrow> 'z Bank_scheme \<Rightarrow> u256" where
  "getBalance who s = balances s who"

section \<open>Savings\<close>

record Savings = Bank +
  interestRate :: u256

definition Savings_constructor :: "call_env \<Rightarrow> u256 \<Rightarrow> revert_reason + Savings" where
  "Savings_constructor env rate = non_payable env (Inr \<lparr>balances = (\<lambda>_. 0), bank_eth = 0, interestRate = rate\<rparr>)"

definition accrue :: "address \<Rightarrow> Savings \<Rightarrow> revert_reason + Savings" where
  "accrue who s =
     (case checked_mul (balances s who) (interestRate s) of
        Inl e \<Rightarrow> Inl e
      | Inr product \<Rightarrow>
          (case checked_add (balances s who) (product div 10000) of
             Inl e \<Rightarrow> Inl e
           | Inr b \<Rightarrow> Inr (s\<lparr>balances := (balances s)(who := b)\<rparr>)))"

definition accrueInterest :: "call_env \<Rightarrow> address \<Rightarrow> Savings \<Rightarrow> revert_reason + Savings" where
  "accrueInterest env who s = non_payable env (accrue who s)"

definition savings_withdraw :: "bool \<Rightarrow> call_env \<Rightarrow> u256 \<Rightarrow> Savings \<Rightarrow> revert_reason + Savings" where
  "savings_withdraw accepts env amount s =
     non_payable env
       (case accrue (msg_sender env) s of
          Inl e \<Rightarrow> Inl e
        | Inr s' \<Rightarrow> bank_withdraw_body accepts (msg_sender env) amount s')"

section \<open>Transactions\<close>

text \<open>The last argument of a withdrawal says whether the recipient takes the ether.\<close>

datatype bank_call = Deposit call_env | WithdrawFrom call_env u256 bool | ForceEther u256

fun bank_step :: "bank_call \<Rightarrow> Bank \<Rightarrow> revert_reason + Bank" where
  "bank_step (Deposit env) s = deposit env s"
| "bank_step (WithdrawFrom env amount accepts) s = bank_withdraw accepts env amount s"
| "bank_step (ForceEther v) s = Inr (s\<lparr>bank_eth := bank_eth s + unat v\<rparr>)"

datatype savings_call = SDeposit call_env | SWithdraw call_env u256 bool | Accrue call_env address

fun savings_step :: "savings_call \<Rightarrow> Savings \<Rightarrow> revert_reason + Savings" where
  "savings_step (SDeposit env) s = deposit env s"
| "savings_step (SWithdraw env amount accepts) s = savings_withdraw accepts env amount s"
| "savings_step (Accrue env who) s = accrueInterest env who s"

definition Bank_new :: Bank where
  "Bank_new = \<lparr>balances = (\<lambda>_. 0), bank_eth = 0\<rparr>"

section \<open>The bank is solvent\<close>

definition solvent :: "'z Bank_scheme \<Rightarrow> bool" where
  "solvent s \<longleftrightarrow> total_of (balances s) \<le> bank_eth s"

lemma deposit_solvent:
  assumes "solvent s" "deposit env s = Inr s'"
  shows "solvent s'"
proof (cases rule: checked_add_cases [of "balances s (msg_sender env)" "msg_value env"])
  case 2
  with assms show ?thesis
    using total_update [of "balances s" "msg_sender env" "balances s (msg_sender env) + msg_value env"]
    by (auto simp: deposit_def solvent_def split: if_splits)
qed (use assms in \<open>auto simp: deposit_def split: if_splits\<close>)

lemma withdraw_body_pays:
  assumes "solvent s" "amount \<le> balances s who"
  shows "bank_withdraw_body True who amount s =
    Inr (s\<lparr>balances := (balances s)(who := balances s who - amount), bank_eth := bank_eth s - unat amount\<rparr>)"
proof -
  have "unat amount \<le> bank_eth s"
    using assms total_bound [of "balances s" who] by (simp add: solvent_def word_le_nat_alt)
  with assms(2) show ?thesis by (simp add: bank_withdraw_body_def bank_transfer_def checked_sub_def not_less)
qed

lemma withdraw_body_solvent:
  assumes "solvent s" "bank_withdraw_body accepts who amount s = Inr s'"
  shows "solvent s'"
proof -
  have le: "amount \<le> balances s who" and accepts
    using assms(2) by (auto simp: bank_withdraw_body_def bank_transfer_def not_less split: if_splits sum.splits)
  then have s': "s' = s\<lparr>balances := (balances s)(who := balances s who - amount), bank_eth := bank_eth s - unat amount\<rparr>"
    using withdraw_body_pays [OF assms(1) le] assms(2) by simp
  have "unat (balances s who - amount) = unat (balances s who) - unat amount" "unat amount \<le> unat (balances s who)"
    using le by (simp_all add: unat_sub word_le_nat_alt)
  then show ?thesis
    using assms(1) total_update [of "balances s" who "balances s who - amount"] by (simp add: solvent_def s')
qed

lemma bank_step_solvent: "solvent s \<Longrightarrow> bank_step x s = Inr s' \<Longrightarrow> solvent s'"
  by (cases x) (auto simp: bank_withdraw_def intro: deposit_solvent withdraw_body_solvent, auto simp: solvent_def)

interpretation bank: contract_system bank_step solvent
  by unfold_locales (rule bank_step_solvent)

text \<open>
  C11. The bank can always pay: after any sequence of calls its ether covers all balances, so everyone
  can withdraw any part of their balance, whatever the others did, and loses exactly that part.
\<close>

theorem bank_always_pays:
  assumes "s = run_txs bank_step xs Bank_new" "msg_value env = 0" "amount \<le> balances s (msg_sender env)"
  shows "total_of (balances s) \<le> bank_eth s \<and>
    bank_step (WithdrawFrom env amount True) s =
      Inr (s\<lparr>balances := (balances s)(msg_sender env := balances s (msg_sender env) - amount),
             bank_eth := bank_eth s - unat amount\<rparr>)"
proof -
  have "solvent Bank_new" by (simp add: solvent_def Bank_new_def)
  then have sol: "solvent s" unfolding assms(1) by (rule bank.txs_keep)
  with withdraw_body_pays [OF sol assms(3)] assms(2) show ?thesis
    by (simp add: bank_withdraw_def non_payable_def solvent_def)
qed

definition saver :: "address \<Rightarrow> u256 \<Rightarrow> call_env" where
  "saver who v = \<lparr>msg_sender = who, msg_value = v, block_timestamp = 0\<rparr>"

theorem bank_always_pays_witness:
  "bank_step (WithdrawFrom (saver 1 0) 4 True) (run_txs bank_step [Deposit (saver 1 10), Deposit (saver 2 5)] Bank_new) =
     Inr \<lparr>balances = (\<lambda>_. 0)(2 := 5, 1 := 6), bank_eth = 11\<rparr>"
proof -
  have "run_txs bank_step [Deposit (saver 1 10), Deposit (saver 2 5)] Bank_new =
      \<lparr>balances = (\<lambda>_. 0)(1 := 10, 2 := 5), bank_eth = 15\<rparr>"
    by (simp add: run_tx_def deposit_def saver_def checked_add_def Bank_new_def)
  with bank_always_pays [OF refl, of "saver 1 0" 4 "[Deposit (saver 1 10), Deposit (saver 2 5)]"]
  show ?thesis by (simp add: saver_def fun_upd_twist)
qed

section \<open>Savings promises more than it holds\<close>

lemma accrue_adds:
  assumes "unat (balances s who) * unat (interestRate s) < 2 ^ 256"
    and "unat (balances s who) + unat (balances s who) * unat (interestRate s) div 10000 < 2 ^ 256"
  shows "\<exists>s'. accrue who s = Inr s' \<and> bank_eth s' = bank_eth s \<and> interestRate s' = interestRate s \<and>
    total_of (balances s') = total_of (balances s) + unat (balances s who) * unat (interestRate s) div 10000"
proof -
  let ?b = "balances s who" and ?r = "interestRate s"
  have i: "unat (?b * ?r div 10000) = unat ?b * unat ?r div 10000"
    using assms(1) by (simp add: unat_div unat_word_ariths)
  then have "unat (?b + ?b * ?r div 10000) = unat ?b + unat ?b * unat ?r div 10000"
    using assms(2) by (simp add: unat_word_ariths)
  with assms i show ?thesis
    using total_update [of "balances s" who "?b + ?b * ?r div 10000"]
    by (simp add: accrue_def checked_mul_def checked_add_def)
qed

text \<open>
  Interest is credited to anyone, by anyone and at any time, without ether behind it: a savings bank
  whose ether covers the balances exactly no longer covers them after one call that adds interest.
\<close>

theorem interest_is_unbacked:
  assumes "total_of (balances s) = bank_eth s" "msg_value env = 0"
    and "0 < unat (balances s who) * unat (interestRate s) div 10000"
    and "unat (balances s who) * unat (interestRate s) < 2 ^ 256"
    and "unat (balances s who) + unat (balances s who) * unat (interestRate s) div 10000 < 2 ^ 256"
  shows "\<exists>s'. savings_step (Accrue env who) s = Inr s' \<and> bank_eth s' = bank_eth s \<and> bank_eth s' < total_of (balances s')"
  using accrue_adds [OF assms(4,5)] assms(1-3) by (auto simp: accrueInterest_def)

theorem interest_is_unbacked_witness:
  "\<exists>s'. savings_step (Accrue (saver 7 0) 1) \<lparr>balances = (\<lambda>_. 0)(1 := 10000), bank_eth = 10000, interestRate = 100\<rparr> = Inr s' \<and>
     bank_eth s' < total_of (balances s')"
proof -
  have "total_of ((\<lambda>_. 0)(1 := 10000)) = 10000" using total_update [of "\<lambda>_. 0" 1 10000] by simp
  then show ?thesis
    using interest_is_unbacked [of "\<lparr>balances = (\<lambda>_. 0)(1 := 10000), bank_eth = 10000, interestRate = 100\<rparr>" "saver 7 0" 1]
    by (auto simp: saver_def)
qed

end
