(* ===== verification/Tokens.thy ===== *)
theory Tokens
  imports Contract_Env
begin

text \<open>
  The token contracts of foundry-simple-storage-f23: the fungible Mytoken (src/contracts/MyToken.sol)
  and the non-fungible SimpleNFT (src/contracts/SimpleNFT.sol). Events are left out.
\<close>

section \<open>Mytoken\<close>

record Mytoken =
  totalSupply :: u256
  balanceOf :: "address \<Rightarrow> u256"
  allowance :: "address \<Rightarrow> address \<Rightarrow> u256"

definition token_decimals :: nat where "token_decimals = 18"

definition Mytoken_constructor :: "call_env \<Rightarrow> u256 \<Rightarrow> revert_reason + Mytoken" where
  "Mytoken_constructor env initial =
     non_payable env
       (case checked_mul initial (10 ^ token_decimals) of
          Inl e \<Rightarrow> Inl e
        | Inr minted \<Rightarrow>
            Inr \<lparr>totalSupply = minted, balanceOf = (\<lambda>_. 0)(msg_sender env := minted), allowance = (\<lambda>_ _. 0)\<rparr>)"

definition move_tokens :: "address \<Rightarrow> address \<Rightarrow> u256 \<Rightarrow> Mytoken \<Rightarrow> revert_reason + Mytoken" where
  "move_tokens src dst amount s =
     (case checked_sub (balanceOf s src) amount of
        Inl e \<Rightarrow> Inl e
      | Inr left \<Rightarrow>
          (let s1 = s\<lparr>balanceOf := (balanceOf s)(src := left)\<rparr>
           in case checked_add (balanceOf s1 dst) amount of
                Inl e \<Rightarrow> Inl e
              | Inr received \<Rightarrow> Inr (s1\<lparr>balanceOf := (balanceOf s1)(dst := received)\<rparr>)))"

definition token_transfer :: "call_env \<Rightarrow> address \<Rightarrow> u256 \<Rightarrow> Mytoken \<Rightarrow> revert_reason + Mytoken \<times> bool" where
  "token_transfer env dst amount s =
     non_payable env
       (if \<not> amount < balanceOf s (msg_sender env) then Inl (Require ''insifficient Funds'')
        else
          (case move_tokens (msg_sender env) dst amount s of
             Inl e \<Rightarrow> Inl e
           | Inr s' \<Rightarrow> Inr (s', True)))"

definition approve :: "call_env \<Rightarrow> address \<Rightarrow> u256 \<Rightarrow> Mytoken \<Rightarrow> revert_reason + Mytoken \<times> bool" where
  "approve env spender amount s =
     non_payable env
       (Inr (s\<lparr>allowance := (allowance s)(msg_sender env := (allowance s (msg_sender env))(spender := amount))\<rparr>, True))"

definition transferFrom ::
    "call_env \<Rightarrow> address \<Rightarrow> address \<Rightarrow> u256 \<Rightarrow> Mytoken \<Rightarrow> revert_reason + Mytoken \<times> bool" where
  "transferFrom env src dst amount s =
     non_payable env
       (if balanceOf s src < amount then Inl (Require ''insufficient Funds'')
        else if allowance s src (msg_sender env) < amount then Inl (Require ''allowance is less'')
        else
          (case move_tokens src dst amount s of
             Inl e \<Rightarrow> Inl e
           | Inr s1 \<Rightarrow>
               (case checked_sub (allowance s1 src (msg_sender env)) amount of
                  Inl e \<Rightarrow> Inl e
                | Inr rest \<Rightarrow>
                    Inr (s1\<lparr>allowance := (allowance s1)(src := (allowance s1 src)(msg_sender env := rest))\<rparr>, True))))"

datatype token_call =
    Transfer call_env address u256
  | Approve call_env address u256
  | TransferFrom call_env address address u256

fun token_call_env :: "token_call \<Rightarrow> call_env" where
  "token_call_env (Transfer env dst v) = env"
| "token_call_env (Approve env spender v) = env"
| "token_call_env (TransferFrom env src dst v) = env"

fun token_step :: "token_call \<Rightarrow> Mytoken \<Rightarrow> revert_reason + Mytoken" where
  "token_step (Transfer env dst v) s = map_sum id fst (token_transfer env dst v s)"
| "token_step (Approve env spender v) s = map_sum id fst (approve env spender v s)"
| "token_step (TransferFrom env src dst v) s = map_sum id fst (transferFrom env src dst v s)"

section \<open>SimpleNFT\<close>

record SimpleNFT =
  ownerOf :: "u256 \<Rightarrow> address"
  nft_balanceOf :: "address \<Rightarrow> u256"
  nextTokenId :: u256

text \<open>\<open>mint\<close> has no return statement, so it returns zero.\<close>

definition nft_mint :: "call_env \<Rightarrow> SimpleNFT \<Rightarrow> revert_reason + SimpleNFT \<times> u256" where
  "nft_mint env s =
     non_payable env
       (let tokenId = nextTokenId s
        in case checked_add (nextTokenId s) 1 of
             Inl e \<Rightarrow> Inl e
           | Inr following \<Rightarrow>
               (case checked_add (nft_balanceOf s (msg_sender env)) 1 of
                  Inl e \<Rightarrow> Inl e
                | Inr b \<Rightarrow>
                    Inr (s\<lparr>nextTokenId := following, ownerOf := (ownerOf s)(tokenId := msg_sender env),
                           nft_balanceOf := (nft_balanceOf s)(msg_sender env := b)\<rparr>, 0)))"

text \<open>\<open>ownerOf[tokenId]==to;\<close> is a comparison whose result is not used.\<close>

definition nft_transferFrom :: "call_env \<Rightarrow> address \<Rightarrow> address \<Rightarrow> u256 \<Rightarrow> SimpleNFT \<Rightarrow> revert_reason + SimpleNFT" where
  "nft_transferFrom env src dst tokenId s =
     non_payable env
       (if ownerOf s tokenId \<noteq> src then Inl (Require ''Not Owner'')
        else if msg_sender env \<noteq> src then Inl (Require ''Not Approved'')
        else
          (case checked_add (nft_balanceOf s src) 1 of
             Inl e \<Rightarrow> Inl e
           | Inr up \<Rightarrow>
               (let s1 = s\<lparr>nft_balanceOf := (nft_balanceOf s)(src := up)\<rparr>
                in case checked_sub (nft_balanceOf s1 dst) 1 of
                     Inl e \<Rightarrow> Inl e
                   | Inr down \<Rightarrow> Inr (s1\<lparr>nft_balanceOf := (nft_balanceOf s1)(dst := down)\<rparr>))))"

datatype nft_call = Mint call_env | NftTransferFrom call_env address address u256

fun nft_step :: "nft_call \<Rightarrow> SimpleNFT \<Rightarrow> revert_reason + SimpleNFT" where
  "nft_step (Mint env) s = map_sum id fst (nft_mint env s)"
| "nft_step (NftTransferFrom env src dst tokenId) s = nft_transferFrom env src dst tokenId s"

section \<open>The supply is conserved\<close>

definition supply_kept :: "u256 \<Rightarrow> Mytoken \<Rightarrow> bool" where
  "supply_kept minted s \<longleftrightarrow> totalSupply s = minted \<and> total_of (balanceOf s) = unat minted"

text \<open>The balances after moving an amount; for the same account on both sides nothing changes.\<close>

definition moved :: "address \<Rightarrow> address \<Rightarrow> u256 \<Rightarrow> (address \<Rightarrow> u256) \<Rightarrow> address \<Rightarrow> u256" where
  "moved src dst v m = (if src = dst then m else m(src := m src - v, dst := m dst + v))"

lemma moved_other:
  assumes "a \<noteq> src" "v \<le> m src" "total_of m < 2 ^ 256"
  shows "unat (m a) \<le> unat (moved src dst v m a)"
  using total_move(1) [OF assms(2,3), of dst] assms(1) by (auto simp: moved_def unat_word_ariths)

lemma move_tokens_exact:
  assumes "supply_kept minted s" "amount \<le> balanceOf s src"
  shows "move_tokens src dst amount s = Inr (s\<lparr>balanceOf := moved src dst amount (balanceOf s)\<rparr>)"
    and "supply_kept minted (s\<lparr>balanceOf := moved src dst amount (balanceOf s)\<rparr>)"
proof -
  let ?m = "balanceOf s" and ?m1 = "(balanceOf s)(src := balanceOf s src - amount)"
  have small: "total_of ?m < 2 ^ 256"
    using assms(1) unat_below [of minted] by (simp add: supply_kept_def)
  note mv = total_move [OF assms(2) small, of dst]
  have eq: "?m1(dst := ?m1 dst + amount) = moved src dst amount ?m" by (auto simp: moved_def fun_eq_iff)
  show "move_tokens src dst amount s = Inr (s\<lparr>balanceOf := moved src dst amount ?m\<rparr>)"
    using assms(2) mv(1) eq by (simp add: move_tokens_def checked_sub_def checked_add_def Let_def)
  show "supply_kept minted (s\<lparr>balanceOf := moved src dst amount ?m\<rparr>)"
    using assms(1) mv(2) eq by (simp add: supply_kept_def)
qed

lemma token_transfer_exact:
  assumes "supply_kept minted s" "msg_value env = 0"
  shows "token_transfer env dst amount s =
    (if amount < balanceOf s (msg_sender env)
     then Inr (s\<lparr>balanceOf := moved (msg_sender env) dst amount (balanceOf s)\<rparr>, True)
     else Inl (Require ''insifficient Funds''))"
  using move_tokens_exact(1) [OF assms(1), of amount "msg_sender env" dst] assms(2)
  by (auto simp: token_transfer_def non_payable_def)

lemma transferFrom_exact:
  assumes "supply_kept minted s" "msg_value env = 0"
  shows "transferFrom env src dst amount s =
    (if balanceOf s src < amount then Inl (Require ''insufficient Funds'')
     else if allowance s src (msg_sender env) < amount then Inl (Require ''allowance is less'')
     else Inr (s\<lparr>balanceOf := moved src dst amount (balanceOf s),
       allowance := (allowance s)(src := (allowance s src)(msg_sender env := allowance s src (msg_sender env) - amount))\<rparr>, True))"
  using move_tokens_exact(1) [OF assms(1), of amount src dst] assms(2)
  by (auto simp: transferFrom_def non_payable_def checked_sub_def not_less)

lemma approve_exact:
  "msg_value env = 0 \<Longrightarrow> approve env spender amount s =
    Inr (s\<lparr>allowance := (allowance s)(msg_sender env := (allowance s (msg_sender env))(spender := amount))\<rparr>, True)"
  by (simp add: approve_def non_payable_def)

lemmas token_exact = token_transfer_exact transferFrom_exact approve_exact

lemma token_call_refused: "msg_value (token_call_env x) \<noteq> 0 \<Longrightarrow> token_step x s = Inl NonPayable"
  by (cases x) (simp_all add: token_transfer_def approve_def transferFrom_def non_payable_def)

lemma token_step_keeps:
  assumes "supply_kept minted s" "token_step x s = Inr s'"
  shows "supply_kept minted s'"
proof -
  have paid: "msg_value (token_call_env x) = 0" using token_call_refused assms(2) by fastforce
  note mv = move_tokens_exact(2) [OF assms(1)]
  have allow: "supply_kept minted (t\<lparr>allowance := f\<rparr>) = supply_kept minted t" for t f by (simp add: supply_kept_def)
  show ?thesis
  proof (cases x)
    case (Transfer env dst v)
    with paid assms mv [of v "msg_sender env" dst] show ?thesis
      by (auto simp: token_transfer_exact [OF assms(1)] split: if_splits)
  next
    case (Approve env spender v)
    with paid assms show ?thesis by (auto simp: approve_exact allow)
  next
    case (TransferFrom env src dst v)
    with paid assms(2) mv [of v src dst] show ?thesis
      by (auto simp: transferFrom_exact [OF assms(1)] allow not_less split: if_splits)
  qed
qed

lemma token_never_panics: "supply_kept minted s \<Longrightarrow> token_step x s \<noteq> Inl Panic"
proof (cases "msg_value (token_call_env x) = 0")
  case True
  assume "supply_kept minted s"
  with True show ?thesis by (cases x) (auto simp: token_exact)
qed (simp add: token_call_refused)

interpretation token: contract_system token_step "supply_kept minted" for minted
  by unfold_locales (rule token_step_keeps)

lemma constructor_supply:
  assumes "Mytoken_constructor env initial = Inr s"
  shows "supply_kept (totalSupply s) s" "unat (totalSupply s) = unat initial * 10 ^ 18"
proof -
  have "unat (10 ^ token_decimals :: u256) = 10 ^ 18" by (simp add: token_decimals_def)
  then show "unat (totalSupply s) = unat initial * 10 ^ 18"
    using assms by (auto simp: Mytoken_constructor_def checked_mul_def unat_word_ariths token_decimals_def split: if_splits)
  have "total_of ((\<lambda>_. 0)(a := v)) = unat v" for a v using total_update [of "\<lambda>_. 0" a v] by simp
  then show "supply_kept (totalSupply s) s"
    using assms by (auto simp: Mytoken_constructor_def supply_kept_def split: sum.splits)
qed

text \<open>
  C12. From the deployment on, every sequence of transfers and approvals keeps the sum of all balances at
  the initial supply, and no call ever fails with an arithmetic overflow.
\<close>

theorem token_supply_conserved:
  assumes "Mytoken_constructor env initial = Inr s" "s' = run_txs token_step xs s"
  shows "total_of (balanceOf s') = unat initial * 10 ^ 18 \<and> unat (totalSupply s') = unat initial * 10 ^ 18 \<and>
    token_step x s' \<noteq> Inl Panic"
proof -
  have "supply_kept (totalSupply s) s'"
    unfolding assms(2) by (rule token.txs_keep [OF constructor_supply(1) [OF assms(1)]])
  with constructor_supply(2) [OF assms(1)] token_never_panics [of _ s' x] show ?thesis by (auto simp: supply_kept_def)
qed

definition holder :: "address \<Rightarrow> call_env" where
  "holder who = \<lparr>msg_sender = who, msg_value = 0, block_timestamp = 0\<rparr>"

definition sample_token :: Mytoken where
  "sample_token =
     \<lparr>totalSupply = 2000000000000000000, balanceOf = (\<lambda>_. 0)(1 := 2000000000000000000), allowance = (\<lambda>_ _. 0)\<rparr>"

lemma sample_token: "Mytoken_constructor (holder 1) 2 = Inr sample_token"
  by (simp add: Mytoken_constructor_def holder_def non_payable_def checked_mul_def token_decimals_def sample_token_def)

theorem token_supply_conserved_witness:
  "total_of (balanceOf (run_txs token_step [Transfer (holder 1) 2 5, Approve (holder 2) 3 4, TransferFrom (holder 3) 2 1 4]
     sample_token)) = 2 * 10 ^ 18"
  using token_supply_conserved [OF sample_token refl,
    of "[Transfer (holder 1) 2 5, Approve (holder 2) 3 4, TransferFrom (holder 3) 2 1 4]"]
  by (simp del: run_txs_simps)

text \<open>
  A transfer moves exactly the amount between the two accounts when the sender holds strictly more
  than it, so nobody can transfer their whole balance. A transfer on behalf of a holder needs a
  sufficient balance and allowance, moves exactly the amount and uses up that much of the allowance.
\<close>

theorem token_transfers_exact:
  assumes "Mytoken_constructor env0 initial = Inr s0" "s = run_txs token_step xs s0" "msg_value env = 0"
  shows "token_transfer env dst amount s =
      (if balanceOf s (msg_sender env) \<le> amount then Inl (Require ''insifficient Funds'')
       else Inr (s\<lparr>balanceOf := moved (msg_sender env) dst amount (balanceOf s)\<rparr>, True)) \<and>
    transferFrom env src dst amount s =
      (if balanceOf s src < amount then Inl (Require ''insufficient Funds'')
       else if allowance s src (msg_sender env) < amount then Inl (Require ''allowance is less'')
       else Inr (s\<lparr>balanceOf := moved src dst amount (balanceOf s), allowance := (allowance s)(src :=
         (allowance s src)(msg_sender env := allowance s src (msg_sender env) - amount))\<rparr>, True))"
proof -
  have "supply_kept (totalSupply s0) s"
    unfolding assms(2) by (rule token.txs_keep [OF constructor_supply(1) [OF assms(1)]])
  note token_transfer_exact [OF this assms(3)] transferFrom_exact [OF this assms(3)]
  then show ?thesis by auto
qed

theorem token_transfers_exact_witness:
  "token_transfer (holder 1) 2 2000000000000000000 sample_token = Inl (Require ''insifficient Funds'')"
  using token_transfers_exact [OF sample_token, of sample_token "[]" "holder 1" 2 2000000000000000000]
  by (simp add: holder_def sample_token_def)

text \<open>
  C34. What someone else takes from an account is covered by an allowance of its holder: a call by
  another sender lowers the balance by no more than it lowers the allowance of that sender.
\<close>

theorem spending_needs_allowance:
  assumes "Mytoken_constructor env0 initial = Inr s0" "s = run_txs token_step xs s0"
    and "token_step x s = Inr s'" "msg_sender (token_call_env x) \<noteq> a"
  shows "unat (balanceOf s a) \<le> unat (balanceOf s' a) +
    (unat (allowance s a (msg_sender (token_call_env x))) - unat (allowance s' a (msg_sender (token_call_env x))))"
proof -
  have inv: "supply_kept (totalSupply s0) s"
    unfolding assms(2) by (rule token.txs_keep [OF constructor_supply(1) [OF assms(1)]])
  have paid: "msg_value (token_call_env x) = 0" using token_call_refused assms(3) by fastforce
  have small: "total_of (balanceOf s) < 2 ^ 256"
    using inv unat_below [of "totalSupply s0"] by (simp add: supply_kept_def)
  show ?thesis
  proof (cases x)
    case (Transfer env dst v)
    with paid assms(3,4) moved_other [OF _ _ small, of a "msg_sender env" v dst] show ?thesis
      by (auto simp: token_transfer_exact [OF inv] split: if_splits)
  next
    case (Approve env spender v)
    with paid assms(3) show ?thesis by (auto simp: approve_exact)
  next
    case (TransferFrom env src dst v)
    with paid assms(3) have v: "v \<le> balanceOf s src" "v \<le> allowance s src (msg_sender env)"
      and s': "balanceOf s' = moved src dst v (balanceOf s)"
        "allowance s' src (msg_sender env) = allowance s src (msg_sender env) - v"
      by (auto simp: transferFrom_exact [OF inv] not_less split: if_splits)
    show ?thesis
    proof (cases "a = src")
      case True
      with v s' TransferFrom show ?thesis by (auto simp: moved_def unat_sub word_le_nat_alt)
    next
      case False
      with moved_other [OF _ v(1) small] s'(1) show ?thesis by (simp add: trans_le_add1)
    qed
  qed
qed

theorem spending_needs_allowance_witness:
  "unat (balanceOf (run_txs token_step [Approve (holder 1) 3 5] sample_token) 1) = 2 * 10 ^ 18 \<and>
   (\<exists>s'. token_step (TransferFrom (holder 3) 1 2 4) (run_txs token_step [Approve (holder 1) 3 5] sample_token) = Inr s' \<and>
     2 * 10 ^ 18 \<le> unat (balanceOf s' 1) + (5 - unat (allowance s' 1 3)))"
proof -
  let ?s = "run_txs token_step [Approve (holder 1) 3 5] sample_token"
  have s: "?s = sample_token\<lparr>allowance := (\<lambda>_ _. 0)(1 := (\<lambda>_. 0)(3 := 5))\<rparr>"
    by (simp add: run_tx_def approve_def holder_def non_payable_def sample_token_def)
  obtain s' where s': "token_step (TransferFrom (holder 3) 1 2 4) ?s = Inr s'"
    unfolding s by (simp add: transferFrom_def move_tokens_def holder_def non_payable_def sample_token_def
        checked_sub_def checked_add_def Let_def)
  have "msg_sender (token_call_env (TransferFrom (holder 3) 1 2 4)) \<noteq> 1" by (simp add: holder_def)
  note le = spending_needs_allowance [OF sample_token refl s' this]
  have "unat (balanceOf ?s 1) = 2 * 10 ^ 18" "allowance ?s 1 3 = 5" unfolding s by (simp_all add: sample_token_def)
  with le s' show ?thesis by (simp add: holder_def del: run_txs_simps token_step.simps)
qed

section \<open>Transferred tokens stay where they are\<close>

lemma nft_transfer_cases:
  assumes "nft_transferFrom env src dst tokenId s = Inr s'"
  obtains "ownerOf s tokenId = src" "msg_sender env = src" "ownerOf s' = ownerOf s" "nextTokenId s' = nextTokenId s"
    and "unat (nft_balanceOf s' src) = unat (nft_balanceOf s src) + (if src = dst then 0 else 1)"
    and "unat (nft_balanceOf s' dst) + (if src = dst then 0 else 1) = unat (nft_balanceOf s dst)"
proof (cases rule: checked_add_cases [of "nft_balanceOf s src" 1])
  case 2
  with assms that show thesis
    by (cases rule: checked_sub_cases [of "((nft_balanceOf s)(src := nft_balanceOf s src + 1)) dst" 1])
      (auto simp: nft_transferFrom_def Let_def split: if_splits)
qed (use assms in \<open>auto simp: nft_transferFrom_def Let_def split: if_splits\<close>)

lemma nft_mint_cases:
  assumes "nft_mint env s = Inr (s', r)"
  obtains "r = 0" "unat (nextTokenId s') = unat (nextTokenId s) + 1" "ownerOf s' = (ownerOf s)(nextTokenId s := msg_sender env)"
proof (cases rule: checked_add_cases [of "nextTokenId s" 1])
  case 2
  with assms that show thesis by (auto simp: nft_mint_def Let_def split: sum.splits)
qed (use assms in \<open>auto simp: nft_mint_def Let_def split: sum.splits\<close>)

lemma nft_step_owner:
  assumes "nft_step x s = Inr s'"
  shows "unat (nextTokenId s) \<le> unat (nextTokenId s') \<and>
    (tokenId < nextTokenId s \<longrightarrow> ownerOf s' tokenId = ownerOf s tokenId)"
proof (cases x)
  case (Mint env)
  with assms obtain r where "nft_mint env s = Inr (s', r)" by (cases "nft_mint env s") auto
  then show ?thesis by (rule nft_mint_cases) auto
next
  case (NftTransferFrom env src dst i)
  with assms have "nft_transferFrom env src dst i s = Inr s'" by simp
  then show ?thesis by (rule nft_transfer_cases) simp
qed

text \<open>
  A minted token never changes hands: whatever is called, its owner stays the one who minted it. A
  transfer to another account is refused when that account holds no token, and otherwise raises the
  sender's count by one and lowers the recipient's.
\<close>

theorem nft_owner_never_changes:
  assumes "tokenId < nextTokenId s"
  shows "ownerOf (run_txs nft_step xs s) tokenId = ownerOf s tokenId \<and>
    (case nft_transferFrom env src dst tokenId s of
       Inl e \<Rightarrow> True
     | Inr s' \<Rightarrow> src = dst \<or>
         unat (nft_balanceOf s' src) = unat (nft_balanceOf s src) + 1 \<and>
         unat (nft_balanceOf s' dst) + 1 = unat (nft_balanceOf s dst))"
proof
  show "ownerOf (run_txs nft_step xs s) tokenId = ownerOf s tokenId"
    using assms
  proof (induction xs arbitrary: s)
    case (Cons x xs)
    show ?case
    proof (cases "nft_step x s")
      case (Inr s')
      note own = nft_step_owner [OF Inr, of tokenId]
      then have "tokenId < nextTokenId s'" using Cons.prems by (auto simp: word_less_nat_alt)
      with Cons.IH [of s'] own Cons.prems Inr show ?thesis by (simp add: run_tx_def)
    qed (use Cons in \<open>simp add: run_tx_def\<close>)
  qed simp
next
  show "case nft_transferFrom env src dst tokenId s of Inl e \<Rightarrow> True | Inr s' \<Rightarrow> src = dst \<or>
      unat (nft_balanceOf s' src) = unat (nft_balanceOf s src) + 1 \<and> unat (nft_balanceOf s' dst) + 1 = unat (nft_balanceOf s dst)"
  proof (cases "nft_transferFrom env src dst tokenId s")
    case (Inr s')
    then show ?thesis by (rule nft_transfer_cases) (auto simp: Inr split: if_splits)
  qed simp
qed

theorem nft_owner_never_changes_witness:
  "ownerOf (run_txs nft_step [Mint (holder 2), NftTransferFrom (holder 1) 1 2 0]
     \<lparr>ownerOf = (\<lambda>_. 0)(0 := 1), nft_balanceOf = (\<lambda>_. 0)(1 := 1), nextTokenId = 1\<rparr>) 0 = 1"
  using nft_owner_never_changes [of 0 "\<lparr>ownerOf = (\<lambda>_. 0)(0 := 1), nft_balanceOf = (\<lambda>_. 0)(1 := 1), nextTokenId = 1\<rparr>"
      "[Mint (holder 2), NftTransferFrom (holder 1) 1 2 0]"]
  by (simp del: run_txs_simps)

end
