(* ===== verification/Safe_Wallet.thy ===== *)
theory Safe_Wallet
  imports Contract_Env
begin

text \<open>
  The wallet with a daily limit of foundry-simple-storage-f23 (src/contracts/SafeWallet.sol). The owner
  is paid with \<open>transfer\<close>.
\<close>

section \<open>The contract\<close>

record SafeWallet =
  wallet_owner :: address
  dailyLimit :: u256
  spentToday :: u256
  lastDay :: u256
  wallet_eth :: nat

definition SafeWallet_constructor :: "call_env \<Rightarrow> u256 \<Rightarrow> revert_reason + SafeWallet" where
  "SafeWallet_constructor env limit =
     non_payable env (Inr
       \<lparr>wallet_owner = msg_sender env, dailyLimit = limit, spentToday = 0, lastDay = 0, wallet_eth = 0\<rparr>)"

definition wallet_onlyOwner :: "call_env \<Rightarrow> SafeWallet \<Rightarrow> revert_reason + SafeWallet \<Rightarrow> revert_reason + SafeWallet" where
  "wallet_onlyOwner env s r = (if msg_sender env \<noteq> wallet_owner s then Inl NotOwner else r)"

definition resetDay :: "call_env \<Rightarrow> SafeWallet \<Rightarrow> SafeWallet" where
  "resetDay env s =
     (if lastDay s < block_timestamp env div 86400
      then s\<lparr>lastDay := block_timestamp env div 86400, spentToday := 0\<rparr> else s)"

text \<open>The statement \<open>spentToday+amount;\<close> computes a sum and drops it.\<close>

definition spend :: "bool \<Rightarrow> call_env \<Rightarrow> u256 \<Rightarrow> SafeWallet \<Rightarrow> revert_reason + SafeWallet" where
  "spend accepts env amount s =
     non_payable env (wallet_onlyOwner env s
       (let s1 = resetDay env s
        in case checked_add amount (spentToday s1) of
             Inl e \<Rightarrow> Inl e
           | Inr requested \<Rightarrow>
               if dailyLimit s1 < requested then
                 (case checked_sub (dailyLimit s1) (spentToday s1) of
                    Inl e \<Rightarrow> Inl e
                  | Inr available \<Rightarrow> Inl (LimitExceeds amount available))
               else
                 (case checked_add (spentToday s1) amount of
                    Inl e \<Rightarrow> Inl e
                  | Inr _ \<Rightarrow>
                      if accepts \<and> unat amount \<le> wallet_eth s1
                      then Inr (s1\<lparr>wallet_eth := wallet_eth s1 - unat amount\<rparr>) else Inl CallReverted)))"

definition wallet_receive :: "call_env \<Rightarrow> SafeWallet \<Rightarrow> revert_reason + SafeWallet" where
  "wallet_receive env s = Inr (s\<lparr>wallet_eth := wallet_eth s + unat (msg_value env)\<rparr>)"

datatype wallet_call = Spend call_env u256 bool | Receive call_env

fun wallet_step :: "wallet_call \<Rightarrow> SafeWallet \<Rightarrow> revert_reason + SafeWallet" where
  "wallet_step (Spend env amount accepts) s = spend accepts env amount s"
| "wallet_step (Receive env) s = wallet_receive env s"

section \<open>Nothing is ever counted as spent\<close>

definition unspent :: "address \<Rightarrow> u256 \<Rightarrow> SafeWallet \<Rightarrow> bool" where
  "unspent owner limit s \<longleftrightarrow> spentToday s = 0 \<and> wallet_owner s = owner \<and> dailyLimit s = limit"

lemma resetDay_unspent:
  assumes "unspent owner limit s"
  shows "unspent owner limit (resetDay env s)" "wallet_eth (resetDay env s) = wallet_eth s"
  using assms by (simp_all add: resetDay_def unspent_def)

lemma spend_exact:
  assumes "unspent owner limit s" "msg_value env = 0"
  shows "spend accepts env amount s =
    (if msg_sender env \<noteq> owner then Inl NotOwner
     else if limit < amount then Inl (LimitExceeds amount limit)
     else if accepts \<and> unat amount \<le> wallet_eth s
     then Inr ((resetDay env s)\<lparr>wallet_eth := wallet_eth s - unat amount\<rparr>) else Inl CallReverted)"
  using resetDay_unspent [OF assms(1), of env] assms unat_below [of amount]
  by (simp add: spend_def non_payable_def wallet_onlyOwner_def unspent_def checked_add_def checked_sub_def Let_def)

lemma wallet_step_unspent:
  assumes "unspent owner limit s" "wallet_step x s = Inr s'"
  shows "unspent owner limit s'"
proof (cases x)
  case (Spend env amount accepts)
  with assms(2) have "msg_value env = 0" by (simp add: spend_def)
  with Spend assms resetDay_unspent [OF assms(1), of env] show ?thesis
    by (auto simp: spend_exact [OF assms(1)] unspent_def split: if_splits)
next
  case (Receive env)
  with assms show ?thesis by (auto simp: wallet_receive_def unspent_def)
qed

interpretation wallet: contract_system wallet_step "unspent owner limit" for owner limit
  by unfold_locales (rule wallet_step_unspent)

lemma constructor_unspent: "SafeWallet_constructor env limit = Inr s \<Longrightarrow> unspent (msg_sender env) limit s"
  by (auto simp: SafeWallet_constructor_def unspent_def)

text \<open>
  The limit bounds a single payment only. In every state the owner can spend any amount up to the
  limit, and can do so any number of times at the same moment while the ether lasts, since what was
  spent is never recorded.
\<close>

theorem daily_limit_never_adds_up:
  assumes "SafeWallet_constructor env0 limit = Inr s0" "s = run_txs wallet_step xs s0"
    and "msg_sender env = msg_sender env0" "msg_value env = 0" "amount \<le> limit" "n * unat amount \<le> wallet_eth s"
  shows "wallet_eth (run_txs wallet_step (replicate n (Spend env amount True)) s) = wallet_eth s - n * unat amount"
proof -
  have "unspent (msg_sender env0) limit s"
    unfolding assms(2) by (rule wallet.txs_keep [OF constructor_unspent [OF assms(1)]])
  then show ?thesis using assms(6)
  proof (induction n arbitrary: s)
    case (Suc n)
    let ?s = "(resetDay env s)\<lparr>wallet_eth := wallet_eth s - unat amount\<rparr>"
    have "spend True env amount s = Inr ?s"
      using Suc.prems assms(3-5) by (simp add: spend_exact)
    moreover have "unspent (msg_sender env0) limit ?s"
      using resetDay_unspent [OF Suc.prems(1), of env] by (simp add: unspent_def)
    moreover have "n * unat amount \<le> wallet_eth ?s" using Suc.prems(2) by simp
    ultimately show ?case using Suc.IH [of ?s] by (simp add: run_tx_def)
  qed simp
qed

definition wallet_env :: "u256 \<Rightarrow> call_env" where
  "wallet_env v = \<lparr>msg_sender = 1, msg_value = v, block_timestamp = 100000\<rparr>"

definition sample_wallet :: SafeWallet where
  "sample_wallet = \<lparr>wallet_owner = 1, dailyLimit = 10, spentToday = 0, lastDay = 0, wallet_eth = 0\<rparr>"

theorem daily_limit_never_adds_up_witness:
  "wallet_eth (run_txs wallet_step (replicate 9 (Spend (wallet_env 0) 10 True))
     (run_txs wallet_step [Receive (wallet_env 100)] sample_wallet)) = 10"
proof -
  have "SafeWallet_constructor (wallet_env 0) 10 = Inr sample_wallet"
    by (simp add: SafeWallet_constructor_def wallet_env_def non_payable_def sample_wallet_def)
  note eq = daily_limit_never_adds_up [OF this refl, of "wallet_env 0" 10 9 "[Receive (wallet_env 100)]"]
  have "wallet_eth (run_txs wallet_step [Receive (wallet_env 100)] sample_wallet) = 100"
    by (simp add: run_tx_def wallet_receive_def wallet_env_def sample_wallet_def)
  with eq show ?thesis by (simp add: wallet_env_def del: run_txs_simps)
qed

end
