(* ===== verification/Registries.thy ===== *)
theory Registries
  imports Contract_Env
begin

text \<open>
  The contracts that keep records: StudentRegistry (foundry-simple-storage-f23/src/contracts/StudentRegistry.sol),
  toDoList (revision/ToDo.sol), SimpleStorage (foundry-simple-storage-f23/src/SimpleStorage.sol), the
  owned number of the same name (revision/solidity-practice/src/week1/SimpleStorage.sol) and counter
  (revision/Counter.sol). Events are left out; a dynamic array is a list.
\<close>

section \<open>StudentRegistry\<close>

record Student =
  student_id :: u256
  student_name :: string
  grade :: u8

record StudentRegistry =
  students :: "Student list"
  idToIndex :: "u256 \<Rightarrow> u256"
  nextId :: u256

definition Registry_new :: StudentRegistry where
  "Registry_new = \<lparr>students = [], idToIndex = (\<lambda>_. 0), nextId = 0\<rparr>"

definition addStudent :: "call_env \<Rightarrow> string \<Rightarrow> u8 \<Rightarrow> StudentRegistry \<Rightarrow> revert_reason + StudentRegistry" where
  "addStudent env name g s =
     non_payable env
       (let s1 = s\<lparr>students := students s @ [\<lparr>student_id = nextId s, student_name = name, grade = g\<rparr>]\<rparr>
        in case checked_sub (of_nat (length (students s1))) 1 of
             Inl e \<Rightarrow> Inl e
           | Inr index \<Rightarrow>
               (case checked_add (nextId s1) 1 of
                  Inl e \<Rightarrow> Inl e
                | Inr following \<Rightarrow>
                    Inr (s1\<lparr>idToIndex := (idToIndex s1)(nextId s1 := index), nextId := following\<rparr>)))"

definition getStudent :: "u256 \<Rightarrow> StudentRegistry \<Rightarrow> revert_reason + Student" where
  "getStudent i s =
     (let idx = idToIndex s i
      in if unat idx < length (students s) then Inr (students s ! unat idx) else Inl Panic)"

definition updateGrade :: "call_env \<Rightarrow> u256 \<Rightarrow> u8 \<Rightarrow> StudentRegistry \<Rightarrow> revert_reason + StudentRegistry" where
  "updateGrade env i newGrade s =
     non_payable env
       (let idx = idToIndex s i
        in if unat idx < length (students s)
           then Inr (s\<lparr>students := (students s)[unat idx := (students s ! unat idx)\<lparr>grade := newGrade\<rparr>]\<rparr>)
           else Inl Panic)"

datatype registry_call = AddStudent call_env string u8 | UpdateGrade call_env u256 u8

fun registry_step :: "registry_call \<Rightarrow> StudentRegistry \<Rightarrow> revert_reason + StudentRegistry" where
  "registry_step (AddStudent env name g) s = addStudent env name g s"
| "registry_step (UpdateGrade env i g) s = updateGrade env i g s"

section \<open>toDoList\<close>

record Task =
  content :: string
  pending :: bool

type_synonym toDoList = "address \<Rightarrow> Task list"

definition createTask :: "call_env \<Rightarrow> string \<Rightarrow> toDoList \<Rightarrow> revert_reason + toDoList" where
  "createTask env c tasks =
     non_payable env
       (Inr (tasks(msg_sender env := tasks (msg_sender env) @ [\<lparr>content = c, pending = False\<rparr>])))"

definition executeTask :: "call_env \<Rightarrow> u256 \<Rightarrow> toDoList \<Rightarrow> revert_reason + toDoList" where
  "executeTask env taskId tasks =
     non_payable env
       (if \<not> unat taskId < length (tasks (msg_sender env)) then Inl (Require ''Invalid Task Id '')
        else Inr (tasks(msg_sender env := (tasks (msg_sender env))
          [unat taskId := (tasks (msg_sender env) ! unat taskId)\<lparr>pending := True\<rparr>])))"

definition getMyAllTask :: "call_env \<Rightarrow> toDoList \<Rightarrow> Task list" where
  "getMyAllTask env tasks = tasks (msg_sender env)"

definition deleteATask :: "call_env \<Rightarrow> u256 \<Rightarrow> toDoList \<Rightarrow> revert_reason + toDoList" where
  "deleteATask env taskId tasks =
     non_payable env
       (let ts = tasks (msg_sender env)
        in if \<not> unat taskId < length ts then Inl (Require ''Invalid Task Id '')
           else Inr (tasks(msg_sender env := butlast (ts[unat taskId := ts ! (length ts - 1)]))))"

datatype todo_call = CreateTask call_env string | ExecuteTask call_env u256 | DeleteATask call_env u256

fun todo_call_env :: "todo_call \<Rightarrow> call_env" where
  "todo_call_env (CreateTask env c) = env"
| "todo_call_env (ExecuteTask env i) = env"
| "todo_call_env (DeleteATask env i) = env"

fun todo_step :: "todo_call \<Rightarrow> toDoList \<Rightarrow> revert_reason + toDoList" where
  "todo_step (CreateTask env c) s = createTask env c s"
| "todo_step (ExecuteTask env i) s = executeTask env i s"
| "todo_step (DeleteATask env i) s = deleteATask env i s"

section \<open>SimpleStorage\<close>

record Person =
  favoriteNumber :: u256
  person_name :: string

record SimpleStorage =
  myFavoriteNumber :: u256
  listOfPeople :: "Person list"
  nameToFavoriteNumber :: "string \<Rightarrow> u256"

definition store :: "call_env \<Rightarrow> u256 \<Rightarrow> SimpleStorage \<Rightarrow> revert_reason + SimpleStorage" where
  "store env n s = non_payable env (Inr (s\<lparr>myFavoriteNumber := n\<rparr>))"

definition retrieve :: "SimpleStorage \<Rightarrow> u256" where
  "retrieve s = myFavoriteNumber s"

definition addPerson :: "call_env \<Rightarrow> string \<Rightarrow> u256 \<Rightarrow> SimpleStorage \<Rightarrow> revert_reason + SimpleStorage" where
  "addPerson env name n s =
     non_payable env
       (Inr (s\<lparr>listOfPeople := listOfPeople s @ [\<lparr>favoriteNumber = n, person_name = name\<rparr>],
               nameToFavoriteNumber := (nameToFavoriteNumber s)(name := n)\<rparr>))"

datatype storage_call = Store call_env u256 | AddPerson call_env string u256

fun storage_step :: "storage_call \<Rightarrow> SimpleStorage \<Rightarrow> revert_reason + SimpleStorage" where
  "storage_step (Store env n) s = store env n s"
| "storage_step (AddPerson env name n) s = addPerson env name n s"

section \<open>The owned number and the counter\<close>

record OwnedNumber =
  storedNumber :: u256
  number_owner :: address

definition OwnedNumber_constructor :: "call_env \<Rightarrow> revert_reason + OwnedNumber" where
  "OwnedNumber_constructor env = non_payable env (Inr \<lparr>storedNumber = 0, number_owner = msg_sender env\<rparr>)"

definition number_onlyOnwer :: "call_env \<Rightarrow> OwnedNumber \<Rightarrow> revert_reason + OwnedNumber \<Rightarrow> revert_reason + OwnedNumber" where
  "number_onlyOnwer env s r = (if msg_sender env \<noteq> number_owner s then Inl NotOwner else r)"

definition updateNumber :: "call_env \<Rightarrow> u256 \<Rightarrow> OwnedNumber \<Rightarrow> revert_reason + OwnedNumber" where
  "updateNumber env n s = non_payable env (number_onlyOnwer env s (Inr (s\<lparr>storedNumber := n\<rparr>)))"

definition transferOwnership :: "call_env \<Rightarrow> address \<Rightarrow> OwnedNumber \<Rightarrow> revert_reason + OwnedNumber" where
  "transferOwnership env newOwner s = non_payable env (number_onlyOnwer env s (Inr (s\<lparr>number_owner := newOwner\<rparr>)))"

definition getNumber :: "OwnedNumber \<Rightarrow> u256" where
  "getNumber s = storedNumber s"

datatype number_call = UpdateNumber call_env u256 | TransferOwnership call_env address

fun number_call_env :: "number_call \<Rightarrow> call_env" where
  "number_call_env (UpdateNumber env n) = env"
| "number_call_env (TransferOwnership env a) = env"

fun number_step :: "number_call \<Rightarrow> OwnedNumber \<Rightarrow> revert_reason + OwnedNumber" where
  "number_step (UpdateNumber env n) s = updateNumber env n s"
| "number_step (TransferOwnership env a) s = transferOwnership env a s"

record counter =
  counter_count :: u256
  counter_owner :: address

definition counter_constructor :: "call_env \<Rightarrow> revert_reason + counter" where
  "counter_constructor env = non_payable env (Inr \<lparr>counter_count = 0, counter_owner = msg_sender env\<rparr>)"

definition incrementCounter :: "call_env \<Rightarrow> counter \<Rightarrow> revert_reason + counter" where
  "incrementCounter env s =
     non_payable env
       (case checked_add (counter_count s) 1 of Inl e \<Rightarrow> Inl e | Inr c \<Rightarrow> Inr (s\<lparr>counter_count := c\<rparr>))"

definition decrementCounter :: "call_env \<Rightarrow> counter \<Rightarrow> revert_reason + counter" where
  "decrementCounter env s =
     non_payable env
       (if \<not> 0 < counter_count s then Inl (Require ''Count should be greater than 0'')
        else (case checked_sub (counter_count s) 1 of Inl e \<Rightarrow> Inl e | Inr c \<Rightarrow> Inr (s\<lparr>counter_count := c\<rparr>)))"

definition counter_reset :: "call_env \<Rightarrow> counter \<Rightarrow> revert_reason + counter" where
  "counter_reset env s =
     non_payable env
       (if msg_sender env \<noteq> counter_owner s then Inl (Require ''Only owner can change'')
        else Inr (s\<lparr>counter_count := 0\<rparr>))"

definition getCount :: "counter \<Rightarrow> u256" where
  "getCount s = counter_count s"

section \<open>Students are found by their number\<close>

definition registry_wf :: "StudentRegistry \<Rightarrow> bool" where
  "registry_wf s \<longleftrightarrow> length (students s) < 2 ^ 256 \<and> nextId s = of_nat (length (students s)) \<and>
     idToIndex s = (\<lambda>i. if i < nextId s then i else 0) \<and>
     (\<forall>i < length (students s). student_id (students s ! i) = of_nat i)"

lemma registry_next: "registry_wf s \<Longrightarrow> unat (nextId s) = length (students s)"
  by (simp add: registry_wf_def unat_of_nat_below)

lemma addStudent_exact:
  assumes "registry_wf s" "addStudent env name g s = Inr s'"
  shows "students s' = students s @ [\<lparr>student_id = nextId s, student_name = name, grade = g\<rparr>] \<and>
    idToIndex s' = (idToIndex s)(nextId s := nextId s) \<and> nextId s' = nextId s + 1 \<and>
    unat (nextId s + 1) = length (students s) + 1"
proof (cases rule: checked_add_cases [of "nextId s" 1])
  case 2
  have "(of_nat (length (students s)) :: u256) + 1 - 1 = nextId s" using assms(1) by (simp add: registry_wf_def)
  with 2 assms(2) registry_next [OF assms(1)] show ?thesis
    by (auto simp: addStudent_def Let_def checked_sub_def split: if_splits)
qed (use assms(2) in \<open>auto simp: addStudent_def Let_def split: sum.splits\<close>)

lemma addStudent_wf:
  assumes "registry_wf s" "addStudent env name g s = Inr s'"
  shows "registry_wf s'"
proof -
  let ?n = "length (students s)"
  note ex = addStudent_exact [OF assms] and nx = registry_next [OF assms(1)]
  have len: "length (students s') = ?n + 1" "?n + 1 < 2 ^ 256"
    using ex unat_below [of "nextId s + 1"] by auto
  have less: "i < nextId s + 1 \<longleftrightarrow> i < nextId s \<or> i = nextId s" for i
    using ex nx by (auto simp: word_less_nat_alt less_Suc_eq word_unat_eq_iff)
  have "idToIndex s' = (\<lambda>i. if i < nextId s' then i else 0)"
  proof
    fix i
    have "idToIndex s i = (if i < nextId s then i else 0)" using assms(1) unfolding registry_wf_def by metis
    with ex less [of i] show "idToIndex s' i = (if i < nextId s' then i else 0)" by (metis fun_upd_apply)
  qed
  moreover have "nextId s' = of_nat (length (students s'))"
    using ex len assms(1) by (simp add: registry_wf_def add.commute)
  moreover have "student_id (students s' ! i) = of_nat i" if "i < length (students s')" for i
    using that ex len assms(1) by (auto simp: registry_wf_def nth_append less_Suc_eq)
  ultimately show ?thesis using len unfolding registry_wf_def by auto
qed

lemma registry_lookup:
  assumes "registry_wf s" "students s \<noteq> []"
  shows "unat (idToIndex s i) = (if i < nextId s then unat i else 0)" "unat (idToIndex s i) < length (students s)"
  using assms registry_next [OF assms(1)] by (auto simp: registry_wf_def word_less_nat_alt)

lemma updateGrade_wf:
  assumes "registry_wf s" "updateGrade env i g s = Inr s'"
  shows "registry_wf s'"
  using assms by (auto simp: updateGrade_def registry_wf_def Let_def nth_list_update split: if_splits)

lemma registry_step_wf: "registry_wf s \<Longrightarrow> registry_step x s = Inr s' \<Longrightarrow> registry_wf s'"
  by (cases x) (auto intro: addStudent_wf updateGrade_wf)

interpretation registry: contract_system registry_step registry_wf
  by unfold_locales (rule registry_step_wf)

lemma registry_new_wf: "registry_wf Registry_new"
  by (simp add: registry_wf_def Registry_new_def)

text \<open>
  Once there is a student, every number is answered. A registered number gives the student with that
  number and a new grade is stored for that student alone; a number that was never given out reads and
  overwrites the first student.
\<close>

theorem registry_answers:
  assumes "s = run_txs registry_step xs Registry_new" "students s \<noteq> []" "msg_value env = 0"
  shows "\<exists>st. getStudent i s = Inr st \<and> student_id st = (if i < nextId s then i else 0) \<and>
    updateGrade env i g s =
      Inr (s\<lparr>students := (students s)[unat (student_id st) := st\<lparr>grade := g\<rparr>]\<rparr>)"
proof -
  have wf: "registry_wf s" unfolding assms(1) by (rule registry.txs_keep [OF registry_new_wf])
  note look = registry_lookup [OF wf assms(2), of i]
  let ?st = "students s ! unat (idToIndex s i)"
  have "student_id ?st = of_nat (unat (idToIndex s i))" using wf look(2) by (auto simp: registry_wf_def)
  then have "student_id ?st = (if i < nextId s then i else 0)" using look(1) by auto
  moreover from this have "unat (student_id ?st) = unat (idToIndex s i)" using look(1) by auto
  ultimately show ?thesis using look(2) assms(3) by (simp add: getStudent_def updateGrade_def non_payable_def Let_def)
qed

definition teacher :: call_env where
  "teacher = \<lparr>msg_sender = 1, msg_value = 0, block_timestamp = 0\<rparr>"

theorem registry_answers_witness:
  "\<exists>st. getStudent 77 (run_txs registry_step [AddStudent teacher ''ada'' 1] Registry_new) = Inr st \<and> student_id st = 0"
proof -
  let ?s = "run_txs registry_step [AddStudent teacher ''ada'' 1] Registry_new"
  have s: "?s = \<lparr>students = [\<lparr>student_id = 0, student_name = ''ada'', grade = 1\<rparr>], idToIndex = (\<lambda>_. 0), nextId = 1\<rparr>"
    by (simp add: run_tx_def addStudent_def teacher_def non_payable_def Registry_new_def checked_sub_def checked_add_def
        Let_def fun_eq_iff)
  have "students ?s \<noteq> []" unfolding s by simp
  moreover have "msg_value teacher = 0" by (simp add: teacher_def)
  moreover have "\<not> 77 < nextId ?s" unfolding s by simp
  ultimately show ?thesis using registry_answers [OF refl, of "[AddStudent teacher ''ada'' 1]" teacher 77]
    by (auto simp del: run_txs_simps)
qed

section \<open>Task lists\<close>

lemma todo_others: "todo_step x s = Inr s' \<Longrightarrow> a \<noteq> msg_sender (todo_call_env x) \<Longrightarrow> s' a = s a"
  by (cases x) (auto simp: createTask_def executeTask_def deleteATask_def Let_def split: if_splits)

lemma delete_task_swaps: "i < length ts \<Longrightarrow> butlast (ts[i := ts ! (length ts - 1)]) = swap_remove i ts"
  by (cases "ts = []") (simp_all add: swap_remove_def last_conv_nth)

lemma mset_delete_task:
  "i < length ts \<Longrightarrow> mset (butlast (ts[i := ts ! (length ts - 1)])) = mset ts - {#ts ! i#}"
  using mset_swap_remove [of i ts] by (metis add_mset_remove_trivial delete_task_swaps)

text \<open>
  Deleting a task takes exactly that task off the caller's list, whatever order the others end up
  in, an invalid number is refused, and nobody else's list is touched by any call.
\<close>

theorem todo_delete_exact:
  assumes "msg_value env = 0"
  shows "(case deleteATask env i tasks of
       Inl e \<Rightarrow> length (tasks (msg_sender env)) \<le> unat i \<and> e = Require ''Invalid Task Id ''
     | Inr tasks' \<Rightarrow> unat i < length (tasks (msg_sender env)) \<and>
         mset (tasks' (msg_sender env)) = mset (tasks (msg_sender env)) - {#tasks (msg_sender env) ! unat i#}) \<and>
    (a = msg_sender (todo_call_env x) \<or> run_tx todo_step x tasks a = tasks a)"
  using assms mset_delete_task [of "unat i" "tasks (msg_sender env)"] todo_others [of x tasks _ a]
  by (auto simp: deleteATask_def non_payable_def Let_def run_tx_def split: sum.splits)

theorem todo_delete_exact_witness:
  "run_tx todo_step (CreateTask teacher ''x'') (\<lambda>_. []) 5 = [] \<and>
   deleteATask teacher 3 (\<lambda>_. []) = Inl (Require ''Invalid Task Id '')"
proof -
  have "msg_value teacher = 0" by (simp add: teacher_def)
  from todo_delete_exact [OF this, where i = 3 and tasks = "\<lambda>_. []" and a = 5 and x = "CreateTask teacher ''x''"] show ?thesis
    by (auto simp: teacher_def split: sum.splits)
qed

section \<open>Names and numbers\<close>

text \<open>The mapping answers with the number of the last person of that name in the list.\<close>

definition names_match :: "SimpleStorage \<Rightarrow> bool" where
  "names_match s \<longleftrightarrow> (\<forall>n. nameToFavoriteNumber s n =
     (case map_of (rev (map (\<lambda>p. (person_name p, favoriteNumber p)) (listOfPeople s))) n of Some v \<Rightarrow> v | None \<Rightarrow> 0))"

interpretation storage: contract_system storage_step names_match
proof
  fix s s' x
  assume "names_match s" "storage_step x s = Inr s'"
  then show "names_match s'" by (cases x) (auto simp: store_def addPerson_def names_match_def)
qed

section \<open>Ownership\<close>

lemma number_step_refused:
  "msg_sender (number_call_env x) \<noteq> number_owner s \<Longrightarrow> run_tx number_step x s = s"
  by (cases x) (auto simp: run_tx_def updateNumber_def transferOwnership_def number_onlyOnwer_def non_payable_def)

lemma number_frozen:
  "\<forall>x \<in> set xs. msg_sender (number_call_env x) \<noteq> number_owner s \<Longrightarrow> run_txs number_step xs s = s"
  by (induction xs) (simp_all add: number_step_refused)

text \<open>
  Ownership can be given to the zero address. From then on no account, the zero address having no
  key, can change the number or the owner again.
\<close>

theorem ownership_can_be_lost:
  assumes "msg_sender env = number_owner s" "msg_value env = 0"
    and "\<forall>x \<in> set xs. msg_sender (number_call_env x) \<noteq> 0"
  shows "run_txs number_step (TransferOwnership env 0 # xs) s = s\<lparr>number_owner := 0\<rparr>"
proof -
  have "run_tx number_step (TransferOwnership env 0) s = s\<lparr>number_owner := 0\<rparr>"
    using assms(1,2) by (simp add: run_tx_def transferOwnership_def number_onlyOnwer_def non_payable_def)
  with number_frozen [of xs "s\<lparr>number_owner := 0\<rparr>"] assms(3) show ?thesis by simp
qed

theorem ownership_can_be_lost_witness:
  "run_txs number_step [TransferOwnership teacher 0, UpdateNumber teacher 5] \<lparr>storedNumber = 3, number_owner = 1\<rparr> =
     \<lparr>storedNumber = 3, number_owner = 0\<rparr>"
  using ownership_can_be_lost [of teacher "\<lparr>storedNumber = 3, number_owner = 1\<rparr>" "[UpdateNumber teacher 5]"]
  by (simp add: teacher_def del: run_txs_simps)

section \<open>Counting\<close>

text \<open>The counter is a natural number below \<open>2 ^ 256\<close>: counting past either end is refused.\<close>

lemma counter_counts:
  assumes "msg_value env = 0"
  shows "unat (getCount (run_tx incrementCounter env s)) = min (unat (getCount s) + 1) (2 ^ 256 - 1)"
    and "unat (getCount (run_tx decrementCounter env s)) = unat (getCount s) - 1"
proof -
  show "unat (getCount (run_tx incrementCounter env s)) = min (unat (getCount s) + 1) (2 ^ 256 - 1)"
    using assms unat_below [of "counter_count s"] unat_below [of "counter_count s + 1"]
    by (cases rule: checked_add_cases [of "counter_count s" 1])
      (simp_all add: run_tx_def incrementCounter_def getCount_def non_payable_def min_def)
  show "unat (getCount (run_tx decrementCounter env s)) = unat (getCount s) - 1"
    using assms
    by (cases rule: checked_sub_cases [of "counter_count s" 1])
      (auto simp: run_tx_def decrementCounter_def getCount_def non_payable_def word_less_nat_alt)
qed

end
