(* ===== verification/Tx_Validation.thy ===== *)
theory Tx_Validation
  imports Fee_Service
begin

text \<open>
  Checking a transaction before it enters the pool or a block: \<open>Backend\<close> as \<open>TransactionValidator\<close>
  (anvil/src/eth/backend/mem/mod.rs), the errors (anvil/src/eth/error.rs) and the impersonated accounts
  (anvil/src/eth/backend/cheats.rs). The check of the blobs against the KZG settings, the secp256k1
  recovery and the padding of its input are parameters.
\<close>

section \<open>Impersonation\<close>

record CheatsState =
  impersonated_accounts :: "address fset"
  auto_impersonate_accounts :: bool
  signature_overrides :: "(bytes, address) fmap"

definition impersonate :: "address \<Rightarrow> CheatsState \<Rightarrow> CheatsState \<times> bool" where
  "impersonate a s =
     (if a |\<in>| impersonated_accounts s then (s, True)
      else (s\<lparr>impersonated_accounts := finsert a (impersonated_accounts s)\<rparr>, a |\<notin>| impersonated_accounts s))"

definition stop_impersonating :: "address \<Rightarrow> CheatsState \<Rightarrow> CheatsState" where
  "stop_impersonating a s = s\<lparr>impersonated_accounts := impersonated_accounts s |-| {|a|}\<rparr>"

definition is_impersonated :: "address \<Rightarrow> CheatsState \<Rightarrow> bool" where
  "is_impersonated a s = (if auto_impersonate_accounts s then True else a |\<in>| impersonated_accounts s)"

definition set_auto_impersonate_account :: "bool \<Rightarrow> CheatsState \<Rightarrow> CheatsState" where
  "set_auto_impersonate_account enabled s = s\<lparr>auto_impersonate_accounts := enabled\<rparr>"

definition add_recover_override :: "bytes \<Rightarrow> address \<Rightarrow> CheatsState \<Rightarrow> CheatsState" where
  "add_recover_override sig a s = s\<lparr>signature_overrides := fmupd sig a (signature_overrides s)\<rparr>"

definition get_recover_override :: "bytes \<Rightarrow> CheatsState \<Rightarrow> address option" where
  "get_recover_override sig s = fmlookup (signature_overrides s) sig"

definition has_recover_overrides :: "CheatsState \<Rightarrow> bool" where
  "has_recover_overrides s \<longleftrightarrow> fmdom (signature_overrides s) \<noteq> {||}"

definition skip_blob_validation :: "CheatsState \<Rightarrow> address option \<Rightarrow> bool" where
  "skip_blob_validation s impersonator \<longleftrightarrow>
     auto_impersonate_accounts s \<or>
     (case impersonator of Some a \<Rightarrow> a |\<in>| impersonated_accounts s | None \<Rightarrow> False)"

text \<open>
  The replacement of the \<open>ecrecover\<close> precompile. \<open>pad\<close> pads or cuts its input to 128 bytes, \<open>run\<close> is the
  original. An override applies to the signature \<open>r\<close>, \<open>s\<close>, \<open>v\<close> without looking at the message.
\<close>

definition cheat_ecrecover_call ::
    "(bytes \<Rightarrow> bytes) \<Rightarrow> (bytes \<Rightarrow> u64 \<Rightarrow> 'e + u64 \<times> bytes) \<Rightarrow> 'e \<Rightarrow> CheatsState \<Rightarrow> bytes \<Rightarrow> u64 \<Rightarrow> 'e + u64 \<times> bytes" where
  "cheat_ecrecover_call pad run out_of_gas s data gas =
     (if \<not> has_recover_overrides s then run data gas
      else if gas < 3000 then Inl out_of_gas
      else
        (let padded = pad data;
             sig = take 64 (drop 64 padded) @ [padded ! 63]
         in case get_recover_override sig s of
              Some a \<Rightarrow> Inr (3000, replicate 12 0 @ rev (le_bytes 20 a))
            | None \<Rightarrow> run data gas))"

section \<open>Errors\<close>

text \<open>The variants of \<open>InvalidTransaction\<close> of revm that the conversion matches on.\<close>

datatype InvalidTransaction =
    RInvalidChainId | RPriorityFeeGreaterThanMaxFee | RGasPriceLessThanBasefee | RCallerGasLimitMoreThanBlock
  | RCallGasCostMoreThanGasLimit | RGasFloorMoreThanGasLimit | RRejectCallerWithCode | RLackOfFundForMaxFee
  | ROverflowPaymentInTransaction | RNonceOverflowInTransaction | RCreateInitCodeSizeLimit | RNonceTooHigh
  | RNonceTooLow | RAccessListNotSupported | RBlobGasPriceGreaterThanMax | RBlobVersionedHashesNotSupported
  | RMaxFeePerBlobGasNotSupported | RBlobCreateTransaction | RBlobVersionNotSupported | REmptyBlobs
  | RTooManyBlobs nat nat | RAuthorizationListNotSupported | RTxGasLimitGreaterThanCap u64 u64
  | RAuthorizationListInvalidFields | REip1559NotSupported | REip2930NotSupported | REip4844NotSupported
  | REip7702NotSupported | REmptyAuthorizationList | REip7873NotSupported | REip7873MissingTarget | RMissingChainId

datatype OpTransactionError =
    OpBase InvalidTransaction | DepositSystemTxPostRegolith | HaltedDepositPostRegolith

datatype 'be InvalidTransactionError =
    NonceTooLow | NonceTooHigh | NonceMaxValue | InsufficientFundsForTransfer | MaxInitCodeSizeExceeded
  | InsufficientFunds | GasUintOverflow | GasTooLow | GasTooHigh string | TipAboveFeeCap | FeeCapTooLow
  | BasicOutOfGas u128 | ExecutionReverted "bytes option" | SenderNoEOA | InvalidChainId | IncompatibleEIP155
  | AccessListNotSupported | BlobFeeCapTooLow | BlobVersionedHashesNotSupported | MaxFeePerBlobGasNotSupported
  | NoBlobHashes | TooManyBlobs nat nat | BlobTransactionValidationError 'be | BlobCreateTransaction
  | BlobVersionNotSupported | EmptyBlobs | AuthorizationListNotSupported | TxGasLimitGreaterThanCap u64 u64
  | RevmError InvalidTransaction | DepositTxErrorPostRegolith

fun from_invalid_transaction :: "InvalidTransaction \<Rightarrow> 'be InvalidTransactionError" where
  "from_invalid_transaction RInvalidChainId = InvalidChainId"
| "from_invalid_transaction RPriorityFeeGreaterThanMaxFee = TipAboveFeeCap"
| "from_invalid_transaction RGasPriceLessThanBasefee = FeeCapTooLow"
| "from_invalid_transaction RCallerGasLimitMoreThanBlock = GasTooHigh ''CallerGasLimitMoreThanBlock''"
| "from_invalid_transaction RCallGasCostMoreThanGasLimit = GasTooHigh ''CallGasCostMoreThanGasLimit''"
| "from_invalid_transaction RGasFloorMoreThanGasLimit = GasTooHigh ''GasFloorMoreThanGasLimit''"
| "from_invalid_transaction RRejectCallerWithCode = SenderNoEOA"
| "from_invalid_transaction RLackOfFundForMaxFee = InsufficientFunds"
| "from_invalid_transaction ROverflowPaymentInTransaction = GasUintOverflow"
| "from_invalid_transaction RNonceOverflowInTransaction = NonceMaxValue"
| "from_invalid_transaction RCreateInitCodeSizeLimit = MaxInitCodeSizeExceeded"
| "from_invalid_transaction RNonceTooHigh = NonceTooHigh"
| "from_invalid_transaction RNonceTooLow = NonceTooLow"
| "from_invalid_transaction RAccessListNotSupported = AccessListNotSupported"
| "from_invalid_transaction RBlobGasPriceGreaterThanMax = BlobFeeCapTooLow"
| "from_invalid_transaction RBlobVersionedHashesNotSupported = BlobVersionedHashesNotSupported"
| "from_invalid_transaction RMaxFeePerBlobGasNotSupported = MaxFeePerBlobGasNotSupported"
| "from_invalid_transaction RBlobCreateTransaction = BlobCreateTransaction"
| "from_invalid_transaction RBlobVersionNotSupported = BlobVersionNotSupported"
| "from_invalid_transaction REmptyBlobs = EmptyBlobs"
| "from_invalid_transaction (RTooManyBlobs have limit) = TooManyBlobs have limit"
| "from_invalid_transaction RAuthorizationListNotSupported = AuthorizationListNotSupported"
| "from_invalid_transaction (RTxGasLimitGreaterThanCap gas cap) = TxGasLimitGreaterThanCap gas cap"
| "from_invalid_transaction RAuthorizationListInvalidFields = RevmError RAuthorizationListInvalidFields"
| "from_invalid_transaction REip1559NotSupported = RevmError REip1559NotSupported"
| "from_invalid_transaction REip2930NotSupported = RevmError REip2930NotSupported"
| "from_invalid_transaction REip4844NotSupported = RevmError REip4844NotSupported"
| "from_invalid_transaction REip7702NotSupported = RevmError REip7702NotSupported"
| "from_invalid_transaction REmptyAuthorizationList = RevmError REmptyAuthorizationList"
| "from_invalid_transaction REip7873NotSupported = RevmError REip7873NotSupported"
| "from_invalid_transaction REip7873MissingTarget = RevmError REip7873MissingTarget"
| "from_invalid_transaction RMissingChainId = RevmError RMissingChainId"

fun from_op_transaction_error :: "OpTransactionError \<Rightarrow> 'be InvalidTransactionError" where
  "from_op_transaction_error (OpBase e) = from_invalid_transaction e"
| "from_op_transaction_error DepositSystemTxPostRegolith = DepositTxErrorPostRegolith"
| "from_op_transaction_error HaltedDepositPostRegolith = DepositTxErrorPostRegolith"

section \<open>The checks\<close>

record AccountInfo =
  account_nonce :: u64
  account_balance :: u256

record EvmBlockEnv = BlockEnv +
  env_number :: u256
  env_timestamp :: u256
  env_basefee :: u64
  env_prevrandao :: "b256 option"

text \<open>\<open>cfg_gas_limit_cap\<close> is what the method \<open>tx_gas_limit_cap()\<close> of the configuration returns.\<close>

record 's CfgEnv =
  cfg_spec :: 's
  disable_block_gas_limit :: bool
  tx_gas_limit_cap :: "u64 option"
  cfg_gas_limit_cap :: u64
  disable_base_fee :: bool

record 's fork_ids = "'s spec_ids" +
  SPURIOUS_DRAGON :: 's
  LONDON_FORK :: 's

record 'be validator =
  validator_chain_id :: u64
  max_blob_count :: nat
  disable_pool_balance_checks :: bool
  validator_cheats :: CheatsState
  blob_validate :: "TxEip4844Variant \<Rightarrow> 'be option"

definition MIN_TRANSACTION_GAS :: u64 where "MIN_TRANSACTION_GAS = 21000"

definition and_then :: "'e + unit \<Rightarrow> 'e + unit \<Rightarrow> 'e + unit" where
  "and_then a b = (case a of Inl e \<Rightarrow> Inl e | Inr _ \<Rightarrow> b)"

definition refuse :: "bool \<Rightarrow> 'e \<Rightarrow> 'e + unit" where
  "refuse c e = (if c then Inl e else Inr ())"

definition check_chain_id ::
    "'be validator \<Rightarrow> 's::linorder fork_ids \<Rightarrow> 's CfgEnv \<Rightarrow> TypedTransaction \<Rightarrow> 'be InvalidTransactionError + unit" where
  "check_chain_id v forks cfg t =
     (case tx_chain_id t of
        None \<Rightarrow> Inr ()
      | Some tx_chain \<Rightarrow>
          if validator_chain_id v = tx_chain then Inr ()
          else
            (case t of
               Legacy l \<Rightarrow> refuse (SPURIOUS_DRAGON forks \<le> cfg_spec cfg \<and> legacy_chain_id l = None) IncompatibleEIP155
             | _ \<Rightarrow> Inl InvalidChainId))"

definition check_nonce :: "AccountInfo \<Rightarrow> TypedTransaction \<Rightarrow> 'be InvalidTransactionError + unit" where
  "check_nonce account t = refuse (tx_nonce t < account_nonce account \<and> \<not> is_deposit t) NonceTooLow"

definition check_blobs ::
    "'be validator \<Rightarrow> 's::linorder fork_ids \<Rightarrow> 's CfgEnv \<Rightarrow> address \<Rightarrow> TypedTransaction \<Rightarrow> 'be InvalidTransactionError + unit" where
  "check_blobs v forks cfg from_address t =
     (case t of
        EIP4844 b \<Rightarrow>
          if CANCUN forks \<le> cfg_spec cfg then
            (let blob_count = length (eip4844_blob_versioned_hashes (variant_tx b))
             in if blob_count = 0 then Inl NoBlobHashes
                else if max_blob_count v < blob_count then Inl (TooManyBlobs blob_count (max_blob_count v))
                else if skip_blob_validation (validator_cheats v) (Some from_address) then Inr ()
                else (case blob_validate v b of Some e \<Rightarrow> Inl (BlobTransactionValidationError e) | None \<Rightarrow> Inr ()))
          else Inr ()
      | _ \<Rightarrow> Inr ())"

definition check_gas ::
    "'s CfgEnv \<Rightarrow> EvmBlockEnv \<Rightarrow> TypedTransaction \<Rightarrow> 'be InvalidTransactionError + unit" where
  "check_gas cfg block t =
     and_then (refuse (tx_gas_limit t < MIN_TRANSACTION_GAS) GasTooLow)
       (and_then
         (refuse (\<not> disable_block_gas_limit cfg \<and> env_gas_limit block < tx_gas_limit t)
            (GasTooHigh ''tx.gas_limit > env.block.gas_limit''))
         (refuse (tx_gas_limit_cap cfg = None \<and> cfg_gas_limit_cap cfg < tx_gas_limit t)
            (GasTooHigh ''tx.gas_limit > env.cfg.tx_gas_limit_cap'')))"

definition check_fees ::
    "'s::linorder fork_ids \<Rightarrow> 's CfgEnv \<Rightarrow> EvmBlockEnv \<Rightarrow> TypedTransaction \<Rightarrow> 'be InvalidTransactionError + unit" where
  "check_fees forks cfg block t =
     and_then
       (if LONDON_FORK forks \<le> cfg_spec cfg then
          and_then (refuse (gas_price t < ucast (env_basefee block) \<and> \<not> is_deposit t) FeeCapTooLow)
            (case (ess_max_priority_fee_per_gas (essentials t), ess_max_fee_per_gas (essentials t)) of
               (Some tip, Some fee) \<Rightarrow> refuse (fee < tip) TipAboveFeeCap
             | _ \<Rightarrow> Inr ())
        else Inr ())
       (case (ess_max_fee_per_blob_gas (essentials t), env_blob_excess_gas_and_price block) of
          (Some max_fee, Some (_, price)) \<Rightarrow>
            refuse (CANCUN forks \<le> cfg_spec cfg \<and> tx_is_eip4844 t \<and> max_fee < price) BlobFeeCapTooLow
        | _ \<Rightarrow> Inr ())"

text \<open>\<open>value.saturating_to::<u128>()\<close> and \<open>u128::checked_add\<close>; addition on \<open>U256\<close> wraps.\<close>

definition saturating_to_u128 :: "u256 \<Rightarrow> u128" where
  "saturating_to_u128 v = (if unat v < 2 ^ 128 then ucast v else - 1)"

definition check_funds :: "AccountInfo \<Rightarrow> TypedTransaction \<Rightarrow> 'be InvalidTransactionError + unit" where
  "check_funds account t =
     (case t of
        Deposit d \<Rightarrow> refuse (account_balance account + ucast (deposit_mint d) < tx_value t) InsufficientFunds
      | _ \<Rightarrow>
          (let cost = max_cost t; v = saturating_to_u128 (tx_value t)
           in if 2 ^ 128 \<le> unat cost + unat v then Inl InsufficientFunds
              else refuse (account_balance account < ucast (cost + v)) InsufficientFunds))"

definition validate_pool_transaction_for ::
    "'be validator \<Rightarrow> 's::linorder fork_ids \<Rightarrow> PendingTransaction \<Rightarrow> AccountInfo \<Rightarrow> 's CfgEnv \<Rightarrow> EvmBlockEnv
       \<Rightarrow> 'be InvalidTransactionError + unit" where
  "validate_pool_transaction_for v forks pending account cfg block =
     (let t = typed_transaction pending
      in and_then (check_chain_id v forks cfg t)
           (and_then (check_nonce account t)
             (and_then (check_blobs v forks cfg (sender pending) t)
               (if disable_pool_balance_checks v then Inr ()
                else and_then (check_gas cfg block t) (and_then (check_fees forks cfg block t) (check_funds account t))))))"

definition validate_for ::
    "'be validator \<Rightarrow> 's::linorder fork_ids \<Rightarrow> PendingTransaction \<Rightarrow> AccountInfo \<Rightarrow> 's CfgEnv \<Rightarrow> EvmBlockEnv
       \<Rightarrow> 'be InvalidTransactionError + unit" where
  "validate_for v forks pending account cfg block =
     and_then (validate_pool_transaction_for v forks pending account cfg block)
       (refuse (account_nonce account < tx_nonce (typed_transaction pending)) NonceTooHigh)"

section \<open>What an accepted transaction guarantees\<close>

named_theorems check_defs \<open>definitions of the single checks\<close>

lemmas [check_defs] =
  check_chain_id_def check_nonce_def check_blobs_def check_gas_def check_fees_def check_funds_def

lemma and_then_ok [simp]: "and_then a b = Inr () \<longleftrightarrow> a = Inr () \<and> b = Inr ()"
  by (cases a) (auto simp: and_then_def)

lemma refuse_ok [simp]: "refuse c e = Inr () \<longleftrightarrow> \<not> c"
  by (simp add: refuse_def)

lemma unat_saturating_to_u128: "unat (saturating_to_u128 v) = min (unat v) (2 ^ 128 - 1)"
proof (cases "unat v < 2 ^ 128")
  case True
  then have "unat (ucast v :: u128) = unat v" by (simp add: unsigned_ucast_eq take_bit_nat_eq_self)
  with True show ?thesis by (simp add: saturating_to_u128_def)
qed (simp add: saturating_to_u128_def unat_max_word)

lemma unat_ucast_u256: "unat (ucast w :: u256) = unat (w :: u128)"
  using unat_below [of w] by (simp add: unsigned_ucast_eq take_bit_nat_eq_self)

lemma funds_cover:
  assumes "check_funds account t = Inr ()" "\<not> is_deposit t"
  shows "unat (max_cost t) + min (unat (tx_value t)) (2 ^ 128 - 1) \<le> unat (account_balance account)"
proof -
  let ?c = "max_cost t" and ?v = "saturating_to_u128 (tx_value t)"
  have ok: "unat ?c + unat ?v < 2 ^ 128" "\<not> account_balance account < ucast (?c + ?v)"
    using assms by (auto simp: check_funds_def Let_def split: TypedTransaction.splits if_splits)
  then have "unat (?c + ?v) = unat ?c + unat ?v" by (simp add: unat_word_ariths)
  with ok(2) show ?thesis
    by (simp add: not_less word_le_nat_alt unat_ucast_u256 unat_saturating_to_u128)
qed


definition sample_cheats :: CheatsState where
  "sample_cheats = \<lparr>impersonated_accounts = {||}, auto_impersonate_accounts = False, signature_overrides = fmempty\<rparr>"

definition sample_validator :: "unit validator" where
  "sample_validator =
     \<lparr>validator_chain_id = 31337, max_blob_count = 6, disable_pool_balance_checks = False,
      validator_cheats = sample_cheats, blob_validate = (\<lambda>_. None)\<rparr>"

definition sample_forks :: "nat fork_ids" where
  "sample_forks = \<lparr>SHANGHAI = 3, CANCUN = 4, PRAGUE = 5, SPURIOUS_DRAGON = 1, LONDON_FORK = 2\<rparr>"

definition sample_cfg :: "nat CfgEnv" where
  "sample_cfg =
     \<lparr>cfg_spec = 5, disable_block_gas_limit = False, tx_gas_limit_cap = None, cfg_gas_limit_cap = - 1,
      disable_base_fee = False\<rparr>"

definition sample_block_env :: EvmBlockEnv where
  "sample_block_env =
     \<lparr>env_gas_limit = 30000000, env_beneficiary = 0, env_difficulty = 0, env_blob_excess_gas_and_price = None,
      env_number = 1, env_timestamp = 10, env_basefee = 3, env_prevrandao = None\<rparr>"

lemma sample_validates:
  "validate_pool_transaction_for sample_validator sample_forks (sample_pending 5 2 9)
     \<lparr>account_nonce = 2, account_balance = 200000\<rparr> sample_cfg sample_block_env = Inr ()"
  by (simp add: validate_pool_transaction_for_def check_defs sample_legacy_def sample_validator_def sample_forks_def
      sample_cfg_def sample_block_env_def MIN_TRANSACTION_GAS_def max_cost_def saturating_mul_def
      saturating_to_u128_def Let_def)


lemma legacy_checks:
  "check_chain_id v forks cfg (Legacy l) = Inr ()"
  "check_nonce account (Legacy (l\<lparr>legacy_chain_id := c\<rparr>)) = check_nonce account (Legacy l)"
  "check_blobs v forks cfg a (Legacy l) = Inr ()"
  "check_gas cfg block (Legacy (l\<lparr>legacy_chain_id := c\<rparr>)) = check_gas cfg block (Legacy l)"
  "check_fees forks cfg block (Legacy (l\<lparr>legacy_chain_id := c\<rparr>)) = check_fees forks cfg block (Legacy l)"
  "check_funds account (Legacy (l\<lparr>legacy_chain_id := c\<rparr>)) = check_funds account (Legacy l)"
  by (auto simp: check_chain_id_def check_nonce_def check_blobs_def check_gas_def check_fees_def check_funds_def
      max_cost_def refuse_def split: option.split)

text \<open>
  C35. The chain id of a legacy transaction is never compared with the chain's: whatever it is signed for, the
  outcome of the checks is that of the same transaction without a chain id.
\<close>

theorem legacy_chain_id_is_ignored:
  "validate_pool_transaction_for v forks
     (p\<lparr>maybe_transaction := m\<lparr>mi_transaction := Legacy (l\<lparr>legacy_chain_id := c\<rparr>)\<rparr>\<rparr>) account cfg block =
   validate_pool_transaction_for v forks
     (p\<lparr>maybe_transaction := m\<lparr>mi_transaction := Legacy (l\<lparr>legacy_chain_id := None\<rparr>)\<rparr>\<rparr>) account cfg block"
  by (simp add: validate_pool_transaction_for_def Let_def legacy_checks)

text \<open>\<open>impersonate\<close> answers \<open>true\<close> whether or not the account was impersonated before.\<close>

lemma impersonate_always_true: "snd (impersonate a s) \<and> is_impersonated a (fst (impersonate a s))"
  by (simp add: impersonate_def is_impersonated_def)

end
