(* ===== verification/Block_Executor.thy ===== *)
theory Block_Executor
  imports Tx_Validation "HOL-Library.Sublist"
begin

text \<open>
  Executing the transactions of a block (anvil/src/eth/backend/executor.rs). The EVM, the database and
  the inspector that records traces belong to revm and are parameters (\<open>evm_ops\<close>), as are the encoding
  of a transaction, the receipt root and the bloom filter. The precompiles the executor injects are part
  of the EVM parameter; logging and the caching that a read of a forked database does are left out.
\<close>

section \<open>Results of the EVM\<close>

record Log =
  log_address :: address
  log_topics :: "b256 list"
  log_data :: bytes

datatype Output = CallOutput bytes | CreateOutput bytes "address option"

fun into_data :: "Output \<Rightarrow> bytes" where
  "into_data (CallOutput b) = b"
| "into_data (CreateOutput b a) = b"

datatype 'x OpHaltReason = HaltBase 'x | FailedDeposit

text \<open>Exit reasons are given as \<open>InstructionResult\<close>, to which success and halt reasons convert.\<close>

datatype 'x ExecutionResult =
    Success 'x u64 "Log list" Output
  | Revert u64 bytes
  | Halt "'x OpHaltReason" u64

datatype 'de EVMError = EvmDatabase 'de | EvmTransaction OpTransactionError | EvmOther

record ('s, 'db, 'de, 'x, 'tr) evm_ops =
  db_basic :: "'db \<Rightarrow> address \<Rightarrow> 'de + AccountInfo option"
  transact_commit ::
    "'s CfgEnv \<Rightarrow> EvmBlockEnv \<Rightarrow> OpTransaction \<Rightarrow> 'db \<Rightarrow> ('de EVMError + 'x ExecutionResult \<times> 'tr list) \<times> 'db"
  maybe_state_root :: "'db \<Rightarrow> b256 option"
  exit_code :: "'x \<Rightarrow> u8"
  SELF_DESTRUCT :: 'x
  EXIT_REVERT :: 'x
  EXIT_STOP :: 'x
  rlp_encode :: "TypedTransaction \<Rightarrow> bytes"
  bloom_accrue :: "bytes \<Rightarrow> bytes \<Rightarrow> bytes"
  receipt_bloom :: "Log list \<Rightarrow> bytes"

definition op_haltreason_to_instruction_result :: "('s, 'db, 'de, 'x, 'tr) evm_ops \<Rightarrow> 'x OpHaltReason \<Rightarrow> 'x" where
  "op_haltreason_to_instruction_result ops r = (case r of HaltBase x \<Rightarrow> x | FailedDeposit \<Rightarrow> EXIT_STOP ops)"

section \<open>Executed transactions and receipts\<close>

record ('x, 'tr) ExecutedTransaction =
  executed_transaction :: PoolTransaction
  exit_reason :: 'x
  executed_out :: "Output option"
  executed_gas_used :: u64
  executed_logs :: "Log list"
  executed_traces :: "'tr list"
  executed_nonce :: u64

record ReceiptWithBloom =
  receipt_status :: bool
  cumulative_gas_used :: u64
  receipt_logs :: "Log list"
  receipt_logs_bloom :: bytes

record DepositReceipt =
  deposit_inner :: ReceiptWithBloom
  deposit_nonce :: "u64 option"
  deposit_receipt_version :: "u64 option"

datatype TypedReceipt =
    LegacyReceipt ReceiptWithBloom
  | EIP2930Receipt ReceiptWithBloom
  | EIP1559Receipt ReceiptWithBloom
  | EIP4844Receipt ReceiptWithBloom
  | EIP7702Receipt ReceiptWithBloom
  | DepositTxReceipt DepositReceipt

fun as_receipt_with_bloom :: "TypedReceipt \<Rightarrow> ReceiptWithBloom" where
  "as_receipt_with_bloom (LegacyReceipt r) = r"
| "as_receipt_with_bloom (EIP2930Receipt r) = r"
| "as_receipt_with_bloom (EIP1559Receipt r) = r"
| "as_receipt_with_bloom (EIP4844Receipt r) = r"
| "as_receipt_with_bloom (EIP7702Receipt r) = r"
| "as_receipt_with_bloom (DepositTxReceipt d) = deposit_inner d"

fun typed_receipt :: "TypedTransaction \<Rightarrow> ReceiptWithBloom \<Rightarrow> TypedReceipt" where
  "typed_receipt (Legacy t) r = LegacyReceipt r"
| "typed_receipt (EIP2930 t) r = EIP2930Receipt r"
| "typed_receipt (EIP1559 t) r = EIP1559Receipt r"
| "typed_receipt (EIP4844 t) r = EIP4844Receipt r"
| "typed_receipt (EIP7702 t) r = EIP7702Receipt r"
| "typed_receipt (Deposit t) r =
     DepositTxReceipt \<lparr>deposit_inner = r, deposit_nonce = Some 0, deposit_receipt_version = Some 1\<rparr>"

definition create_receipt ::
    "('s, 'db, 'de, 'x, 'tr) evm_ops \<Rightarrow> ('x, 'tr) ExecutedTransaction \<Rightarrow> u64 \<Rightarrow> TypedReceipt \<times> u64" where
  "create_receipt ops tx cumulative =
     (let cumulative' = saturating_add cumulative (executed_gas_used tx);
          status = (exit_code ops (exit_reason tx) \<le> exit_code ops (SELF_DESTRUCT ops))
      in (typed_receipt (typed_transaction (pending_transaction (executed_transaction tx)))
            \<lparr>receipt_status = status, cumulative_gas_used = cumulative', receipt_logs = executed_logs tx,
             receipt_logs_bloom = receipt_bloom ops (executed_logs tx)\<rparr>, cumulative'))"

datatype ('de, 'be, 'x, 'tr) TransactionExecutionOutcome =
    Executed "('x, 'tr) ExecutedTransaction"
  | Invalid PoolTransaction "'be InvalidTransactionError"
  | BlockGasExhausted PoolTransaction
  | BlobGasExhausted PoolTransaction
  | TransactionGasExhausted PoolTransaction
  | DatabaseError PoolTransaction 'de

section \<open>The executor\<close>

record ('s, 'be) executor_env =
  ex_validator :: "'be validator"
  ex_forks :: "'s fork_ids"
  ex_block_env :: EvmBlockEnv
  ex_cfg_env :: "'s CfgEnv"
  ex_parent_hash :: b256
  ex_optimism :: bool
  ex_max_blob_gas_per_block :: u64

record 'db executor_state =
  exec_db :: 'db
  exec_gas_used :: u64
  exec_blob_gas_used :: u64

definition env_for ::
    "('s, 'db, 'de, 'x, 'tr) evm_ops \<Rightarrow> ('s, 'be) executor_env \<Rightarrow> PendingTransaction \<Rightarrow> OpTransaction" where
  "env_for ops ex p =
     (let tx_env = to_revm_tx_env p
      in if ex_optimism ex then tx_env\<lparr>op_enveloped_tx := Some (rlp_encode ops (typed_transaction p))\<rparr> else tx_env)"

definition after_execution ::
    "('s, 'db, 'de, 'x, 'tr) evm_ops \<Rightarrow> PoolTransaction \<Rightarrow> u64 \<Rightarrow> 'x ExecutionResult \<Rightarrow> 'tr list \<Rightarrow> 'db executor_state
       \<Rightarrow> ('de, 'be, 'x, 'tr) TransactionExecutionOutcome \<times> 'db executor_state" where
  "after_execution ops tx nonce result traces st =
     (let (reason, gas, out, logs) =
            (case result of
               Success r g ls output \<Rightarrow> (r, g, Some output, ls)
             | Revert g output \<Rightarrow> (EXIT_REVERT ops, g, Some (CallOutput output), [])
             | Halt r g \<Rightarrow> (op_haltreason_to_instruction_result ops r, g, None, []))
      in (Executed \<lparr>executed_transaction = tx, exit_reason = reason, executed_out = out, executed_gas_used = gas,
             executed_logs = logs, executed_traces = traces, executed_nonce = nonce\<rparr>,
          st\<lparr>exec_gas_used := saturating_add (exec_gas_used st) gas,
             exec_blob_gas_used :=
               (case blob_gas (typed_transaction (pending_transaction tx)) of
                  Some g \<Rightarrow> saturating_add (exec_blob_gas_used st) g
                | None \<Rightarrow> exec_blob_gas_used st)\<rparr>))"

text \<open>One step of the iterator; \<open>None\<close> is the panic on any other error of the EVM.\<close>

definition executor_next ::
    "('s::linorder, 'db, 'de, 'x, 'tr) evm_ops \<Rightarrow> ('s, 'be) executor_env \<Rightarrow> PoolTransaction \<Rightarrow> 'db executor_state
       \<Rightarrow> (('de, 'be, 'x, 'tr) TransactionExecutionOutcome \<times> 'db executor_state) option" where
  "executor_next ops ex tx st =
     (let pending = pending_transaction tx;
          t = typed_transaction pending;
          block = ex_block_env ex;
          cfg = ex_cfg_env ex
      in case db_basic ops (exec_db st) (sender pending) of
           Inl e \<Rightarrow> Some (DatabaseError tx e, st)
         | Inr found \<Rightarrow>
             (let account = (case found of Some a \<Rightarrow> a | None \<Rightarrow> \<lparr>account_nonce = 0, account_balance = 0\<rparr>);
                  env_tx = env_for ops ex pending;
                  max_block_gas = saturating_add (exec_gas_used st) (txe_gas_limit (op_base env_tx));
                  max_blob_gas = saturating_add (exec_blob_gas_used st) (or_zero (blob_gas t))
              in if \<not> disable_block_gas_limit cfg \<and> env_gas_limit block < max_block_gas
                 then Some (BlockGasExhausted tx, st)
                 else if tx_gas_limit_cap cfg = None \<and> cfg_gas_limit_cap cfg < tx_gas_limit t
                 then Some (TransactionGasExhausted tx, st)
                 else if ex_max_blob_gas_per_block ex < max_blob_gas
                 then Some (BlobGasExhausted tx, st)
                 else
                   (case validate_pool_transaction_for (ex_validator ex) (ex_forks ex) pending account cfg block of
                      Inl e \<Rightarrow> Some (Invalid tx e, st)
                    | Inr _ \<Rightarrow>
                        (case transact_commit ops cfg block env_tx (exec_db st) of
                           (Inl (EvmDatabase e), db) \<Rightarrow> Some (DatabaseError tx e, st\<lparr>exec_db := db\<rparr>)
                         | (Inl (EvmTransaction e), db) \<Rightarrow>
                             Some (Invalid tx (from_op_transaction_error e), st\<lparr>exec_db := db\<rparr>)
                         | (Inl EvmOther, db) \<Rightarrow> None
                         | (Inr (result, traces), db) \<Rightarrow>
                             Some (after_execution ops tx (account_nonce account) result traces (st\<lparr>exec_db := db\<rparr>))))))"

section \<open>Building the block\<close>

record ('x, 'tr) tx_details =
  transaction_index :: u64
  info_from :: address
  info_to :: "address option"
  info_contract_address :: "address option"
  info_traces :: "'tr list"
  info_exit :: 'x
  info_out :: "bytes option"
  info_nonce :: u64
  info_gas_used :: u64

record ('x, 'tr) building =
  b_included :: "PoolTransaction list"
  b_invalid :: "PoolTransaction list"
  b_infos :: "('x, 'tr) tx_details TransactionInfo list"
  b_receipts :: "TypedReceipt list"
  b_transactions :: "MaybeImpersonatedTransaction list"
  b_bloom :: bytes
  b_cumulative_gas_used :: u64
  b_cumulative_blob_gas_used :: "u64 option"

definition build_logs_bloom ::
    "('s, 'db, 'de, 'x, 'tr) evm_ops \<Rightarrow> Log list \<Rightarrow> bytes \<Rightarrow> bytes" where
  "build_logs_bloom ops logs bloom =
     fold (\<lambda>log b. fold (\<lambda>topic b. bloom_accrue ops b (rev (le_bytes 32 topic))) (log_topics log)
        (bloom_accrue ops b (rev (le_bytes 20 (log_address log))))) logs bloom"

definition include_transaction ::
    "('s, 'db, 'de, 'x, 'tr) evm_ops \<Rightarrow> bool \<Rightarrow> ('x, 'tr) ExecutedTransaction \<Rightarrow> ('x, 'tr) building \<Rightarrow> ('x, 'tr) building" where
  "include_transaction ops is_cancun tx b =
     (let pool_tx = executed_transaction tx;
          pending = pending_transaction pool_tx;
          t = typed_transaction pending;
          blob' = (if is_cancun
            then Some (saturating_add (or_zero (b_cumulative_blob_gas_used b)) (or_zero (blob_gas t)))
            else b_cumulative_blob_gas_used b);
          (receipt, cumulative) = create_receipt ops tx (b_cumulative_gas_used b);
          contract_address = (case executed_out tx of Some (CreateOutput _ a) \<Rightarrow> a | _ \<Rightarrow> None);
          info = \<lparr>transaction_hash = tx_hash_of pool_tx,
            transaction_details =
              \<lparr>transaction_index = of_nat (length (b_infos b)), info_from = sender pending, info_to = tx_to t,
               info_contract_address = contract_address, info_traces = executed_traces tx,
               info_exit = exit_reason tx, info_out = map_option into_data (executed_out tx),
               info_nonce = executed_nonce tx, info_gas_used = executed_gas_used tx\<rparr>\<rparr>
      in b\<lparr>b_included := b_included b @ [pool_tx],
           b_infos := b_infos b @ [info],
           b_receipts := b_receipts b @ [receipt],
           b_transactions := b_transactions b @ [maybe_transaction pending],
           b_bloom := build_logs_bloom ops (executed_logs tx) (b_bloom b),
           b_cumulative_gas_used := cumulative,
           b_cumulative_blob_gas_used := blob'\<rparr>)"

fun record_outcome ::
    "('s, 'db, 'de, 'x, 'tr) evm_ops \<Rightarrow> bool \<Rightarrow> ('de, 'be, 'x, 'tr) TransactionExecutionOutcome
       \<Rightarrow> ('x, 'tr) building \<Rightarrow> ('x, 'tr) building" where
  "record_outcome ops is_cancun (Executed tx) b = include_transaction ops is_cancun tx b"
| "record_outcome ops is_cancun (Invalid tx e) b = b\<lparr>b_invalid := b_invalid b @ [tx]\<rparr>"
| "record_outcome ops is_cancun (BlockGasExhausted tx) b = b"
| "record_outcome ops is_cancun (BlobGasExhausted tx) b = b"
| "record_outcome ops is_cancun (TransactionGasExhausted tx) b = b"
| "record_outcome ops is_cancun (DatabaseError tx e) b = b"

fun execute_loop ::
    "('s::linorder, 'db, 'de, 'x, 'tr) evm_ops \<Rightarrow> ('s, 'be) executor_env \<Rightarrow> bool \<Rightarrow> PoolTransaction list
       \<Rightarrow> 'db executor_state \<times> ('x, 'tr) building \<Rightarrow> ('db executor_state \<times> ('x, 'tr) building) option" where
  "execute_loop ops ex is_cancun [] (st, b) = Some (st, b)"
| "execute_loop ops ex is_cancun (tx # txs) (st, b) =
     (case executor_next ops ex tx st of
        None \<Rightarrow> None
      | Some (outcome, st') \<Rightarrow> execute_loop ops ex is_cancun txs (st', record_outcome ops is_cancun outcome b))"

record ('x, 'tr) BlockInfo =
  info_block :: "MaybeImpersonatedTransaction Block"
  info_transactions :: "('x, 'tr) tx_details TransactionInfo list"
  info_receipts :: "TypedReceipt list"

record ('x, 'tr) ExecutedTransactions =
  executed_block :: "('x, 'tr) BlockInfo"
  executed_included :: "PoolTransaction list"
  executed_invalid :: "PoolTransaction list"

definition saturating_to_u64 :: "u256 \<Rightarrow> u64" where
  "saturating_to_u64 v = (if unat v < 2 ^ 64 then ucast v else - 1)"

definition building_empty :: "bool \<Rightarrow> ('x, 'tr) building" where
  "building_empty is_cancun =
     \<lparr>b_included = [], b_invalid = [], b_infos = [], b_receipts = [], b_transactions = [],
      b_bloom = replicate 256 0, b_cumulative_gas_used = 0,
      b_cumulative_blob_gas_used = (if is_cancun then Some 0 else None)\<rparr>"

definition executor_execute ::
    "('s::linorder, 'db, 'de, 'x, 'tr) evm_ops \<Rightarrow> MaybeImpersonatedTransaction chain_ops \<Rightarrow> (TypedReceipt list \<Rightarrow> b256)
       \<Rightarrow> ('s, 'be) executor_env \<Rightarrow> PoolTransaction list \<Rightarrow> 'db \<Rightarrow> (('x, 'tr) ExecutedTransactions \<times> 'db) option" where
  "executor_execute ops chain receipt_root ex txs db =
     (let block = ex_block_env ex;
          cfg = ex_cfg_env ex;
          forks = ex_forks ex;
          is_shanghai = SHANGHAI forks \<le> cfg_spec cfg;
          is_cancun = CANCUN forks \<le> cfg_spec cfg;
          is_prague = PRAGUE forks \<le> cfg_spec cfg
      in case execute_loop ops ex is_cancun txs
                (\<lparr>exec_db = db, exec_gas_used = 0, exec_blob_gas_used = 0\<rparr>, building_empty is_cancun) of
           None \<Rightarrow> None
         | Some (st, b) \<Rightarrow>
             (let header =
                \<lparr>ph_parent_hash = ex_parent_hash ex, ph_beneficiary = env_beneficiary block,
                 ph_state_root = or_zero (maybe_state_root ops (exec_db st)),
                 ph_receipts_root = receipt_root (b_receipts b), ph_logs_bloom = b_bloom b,
                 ph_difficulty = env_difficulty block, ph_number = saturating_to_u64 (env_number block),
                 ph_gas_limit = env_gas_limit block, ph_gas_used = b_cumulative_gas_used b,
                 ph_timestamp = saturating_to_u64 (env_timestamp block), ph_extra_data = [],
                 ph_mix_hash = or_zero (env_prevrandao block),
                 ph_blob_gas_used = b_cumulative_blob_gas_used b,
                 ph_excess_blob_gas = (if is_cancun then map_option fst (env_blob_excess_gas_and_price block) else None),
                 ph_parent_beacon_block_root = (if is_cancun then Some 0 else None), ph_nonce = 0,
                 ph_base_fee = (if LONDON_FORK forks \<le> cfg_spec cfg then Some (env_basefee block) else None),
                 ph_withdrawals_root = (if is_shanghai then Some (EMPTY_WITHDRAWALS chain) else None),
                 ph_requests_hash = (if is_prague then Some (EMPTY_REQUESTS_HASH chain) else None)\<rparr>
              in Some (\<lparr>executed_block =
                      \<lparr>info_block = Block_new chain header (b_transactions b), info_transactions = b_infos b,
                       info_receipts = b_receipts b\<rparr>,
                    executed_included = b_included b, executed_invalid = b_invalid b\<rparr>, exec_db st)))"

section \<open>One transaction\<close>

fun result_gas :: "'x ExecutionResult \<Rightarrow> u64" where
  "result_gas (Success r g ls out) = g"
| "result_gas (Revert g out) = g"
| "result_gas (Halt r g) = g"

text \<open>The gas a transaction uses is at most its gas limit: what revm documents of \<open>gas_used\<close>.\<close>

definition evm_gas_bounded :: "('s, 'db, 'de, 'x, 'tr) evm_ops \<Rightarrow> bool" where
  "evm_gas_bounded ops \<longleftrightarrow>
     (\<forall>cfg block tx db result traces db'.
        transact_commit ops cfg block tx db = (Inr (result, traces), db') \<longrightarrow>
        result_gas result \<le> txe_gas_limit (op_base tx))"

definition gas_fits :: "('s, 'be) executor_env \<Rightarrow> PoolTransaction \<Rightarrow> 'db executor_state \<Rightarrow> bool" where
  "gas_fits ex tx st \<longleftrightarrow>
     (let t = typed_transaction (pending_transaction tx) in
      (\<not> disable_block_gas_limit (ex_cfg_env ex) \<longrightarrow>
         saturating_add (exec_gas_used st) (tx_gas_limit t) \<le> env_gas_limit (ex_block_env ex)) \<and>
      saturating_add (exec_blob_gas_used st) (or_zero (blob_gas t)) \<le> ex_max_blob_gas_per_block ex)"

definition validated :: "('s::linorder, 'be) executor_env \<Rightarrow> PoolTransaction \<Rightarrow> bool" where
  "validated ex tx \<longleftrightarrow>
     (\<exists>account. validate_pool_transaction_for (ex_validator ex) (ex_forks ex) (pending_transaction tx) account
        (ex_cfg_env ex) (ex_block_env ex) = Inr ())"

lemma env_for_gas_limit [simp]:
  "txe_gas_limit (op_base (env_for ops ex p)) = tx_gas_limit (typed_transaction p)"
  by (simp add: env_for_def Let_def to_revm_tx_env_def revm_fields)

text \<open>A transaction is executed, refused as invalid, or skipped without a trace in the block.\<close>

lemma executor_next_cases:
  assumes "executor_next ops ex tx st = Some (outcome, st')"
  obtains
    (executed) nonce result traces db where
      "after_execution ops tx nonce result traces (st\<lparr>exec_db := db\<rparr>) = (outcome, st')"
      "gas_fits ex tx st" "validated ex tx"
      "transact_commit ops (ex_cfg_env ex) (ex_block_env ex) (env_for ops ex (pending_transaction tx)) (exec_db st) =
         (Inr (result, traces), db)"
  | (refused) e db where "outcome = Invalid tx e" "st' = st\<lparr>exec_db := db\<rparr>"
  | (skipped) db where "\<And>c b. record_outcome ops c outcome b = b" "st' = st\<lparr>exec_db := db\<rparr>"
proof -
  show thesis
  proof (cases "db_basic ops (exec_db st) (sender (pending_transaction tx))")
    case (Inl e)
    with assms have "outcome = DatabaseError tx e" "st' = st" by (simp_all add: executor_next_def)
    then show thesis using skipped [of "exec_db st"] by simp
  next
    case (Inr found)
    let ?a = "case found of Some a \<Rightarrow> a | None \<Rightarrow> \<lparr>account_nonce = 0, account_balance = 0\<rparr>"
    let ?v = "validate_pool_transaction_for (ex_validator ex) (ex_forks ex) (pending_transaction tx) ?a
      (ex_cfg_env ex) (ex_block_env ex)"
    let ?r = "transact_commit ops (ex_cfg_env ex) (ex_block_env ex) (env_for ops ex (pending_transaction tx)) (exec_db st)"
    consider "outcome = BlockGasExhausted tx \<or> outcome = TransactionGasExhausted tx \<or> outcome = BlobGasExhausted tx" "st' = st"
      | e where "?v = Inl e" "outcome = Invalid tx e" "st' = st"
      | "?v = Inr ()" "gas_fits ex tx st"
          "(case ?r of
             (Inl (EvmDatabase e), db) \<Rightarrow> Some (DatabaseError tx e, st\<lparr>exec_db := db\<rparr>)
           | (Inl (EvmTransaction e), db) \<Rightarrow> Some (Invalid tx (from_op_transaction_error e), st\<lparr>exec_db := db\<rparr>)
           | (Inl EvmOther, db) \<Rightarrow> None
           | (Inr (result, traces), db) \<Rightarrow>
               Some (after_execution ops tx (account_nonce ?a) result traces (st\<lparr>exec_db := db\<rparr>))) = Some (outcome, st')"
      using assms Inr unfolding executor_next_def Let_def gas_fits_def
      by (simp add: not_less split: if_split_asm sum.split_asm; fastforce)
    then show thesis
    proof cases
      case 1
      then show thesis using skipped [of "exec_db st"] by auto
    next
      case 2
      then show thesis using refused [of e "exec_db st"] by simp
    next
      case 3
      have "validated ex tx" unfolding validated_def using 3(1) by blast
      with 3(2,3) show thesis
        by (cases ?r; cases "fst ?r")
          (auto split: EVMError.split_asm intro: executed refused skipped)
    qed
  qed
qed

lemma execute_loop_keeps:
  assumes "execute_loop ops ex c txs (st, b) = Some (st', b')" "I st b"
    and "\<And>tx outcome st st' b. tx \<in> set txs \<Longrightarrow> executor_next ops ex tx st = Some (outcome, st') \<Longrightarrow> I st b \<Longrightarrow>
      I st' (record_outcome ops c outcome b)"
  shows "I st' b'"
  using assms
proof (induction txs arbitrary: st b)
  case (Cons tx txs)
  then obtain outcome s where step: "executor_next ops ex tx st = Some (outcome, s)"
    "execute_loop ops ex c txs (s, record_outcome ops c outcome b) = Some (st', b')"
    by (auto split: option.split_asm)
  have "I s (record_outcome ops c outcome b)" by (rule Cons.prems(3) [OF _ step(1) Cons.prems(2)]) simp
  show ?case by (rule Cons.IH [OF step(2) \<open>I s _\<close>]) (auto intro: Cons.prems(3))
qed simp

section \<open>The block under construction\<close>

lemma saturating_add_0 [simp]: "saturating_add a 0 = a"
  by (simp add: saturating_add_def)

lemma after_execution_cases:
  assumes "after_execution ops tx nonce result traces st = (outcome, st')"
  obtains e where "outcome = Executed e" "executed_transaction e = tx" "executed_gas_used e = result_gas result"
    "st' = st\<lparr>exec_gas_used := saturating_add (exec_gas_used st) (result_gas result),
      exec_blob_gas_used := saturating_add (exec_blob_gas_used st)
        (or_zero (blob_gas (typed_transaction (pending_transaction tx))))\<rparr>"
  using assms
  by (cases result) (auto simp: after_execution_def or_zero_def split: option.split_asm)

lemma receipt_cumulative:
  "cumulative_gas_used (as_receipt_with_bloom (typed_receipt t r)) = cumulative_gas_used r"
  by (cases t) simp_all

definition info_gas :: "('x, 'tr) tx_details TransactionInfo list \<Rightarrow> nat list" where
  "info_gas infos = map (\<lambda>i. unat (info_gas_used (transaction_details i))) infos"

definition receipt_gas :: "TypedReceipt list \<Rightarrow> u64 list" where
  "receipt_gas = map (cumulative_gas_used \<circ> as_receipt_with_bloom)"

lemma include_transaction_fields:
  "b_included (include_transaction ops c e b) = b_included b @ [executed_transaction e]"
  "b_invalid (include_transaction ops c e b) = b_invalid b"
  "map transaction_hash (b_infos (include_transaction ops c e b)) =
     map transaction_hash (b_infos b) @ [tx_hash_of (executed_transaction e)]"
  "map (transaction_index \<circ> transaction_details) (b_infos (include_transaction ops c e b)) =
     map (transaction_index \<circ> transaction_details) (b_infos b) @ [of_nat (length (b_infos b))]"
  "info_gas (b_infos (include_transaction ops c e b)) = info_gas (b_infos b) @ [unat (executed_gas_used e)]"
  "receipt_gas (b_receipts (include_transaction ops c e b)) =
     receipt_gas (b_receipts b) @ [saturating_add (b_cumulative_gas_used b) (executed_gas_used e)]"
  "b_transactions (include_transaction ops c e b) =
     b_transactions b @ [maybe_transaction (pending_transaction (executed_transaction e))]"
  "b_cumulative_gas_used (include_transaction ops c e b) =
     saturating_add (b_cumulative_gas_used b) (executed_gas_used e)"
  "b_cumulative_blob_gas_used (include_transaction ops c e b) =
     (if c then Some (saturating_add (or_zero (b_cumulative_blob_gas_used b))
        (or_zero (blob_gas (typed_transaction (pending_transaction (executed_transaction e))))))
      else b_cumulative_blob_gas_used b)"
  by (simp_all add: include_transaction_def create_receipt_def Let_def info_gas_def receipt_gas_def
      receipt_cumulative)

text \<open>The lists of the block describe the included transactions, position by position.\<close>

definition aligned :: "('x, 'tr) building \<Rightarrow> bool" where
  "aligned b \<longleftrightarrow>
     map transaction_hash (b_infos b) = map tx_hash_of (b_included b) \<and>
     map (transaction_index \<circ> transaction_details) (b_infos b) = map of_nat [0..<length (b_included b)] \<and>
     b_transactions b = map (maybe_transaction \<circ> pending_transaction) (b_included b) \<and>
     length (b_receipts b) = length (b_included b)"

lemma aligned_include: "aligned b \<Longrightarrow> aligned (include_transaction ops c e b)"
proof -
  assume b: "aligned b"
  then have len: "length (b_infos b) = length (b_included b)"
    unfolding aligned_def by (metis length_map)
  have "length (b_receipts (include_transaction ops c e b)) = Suc (length (b_receipts b))"
    using arg_cong [OF include_transaction_fields(6), of length] by (simp add: receipt_gas_def)
  with b len show ?thesis unfolding aligned_def include_transaction_fields by simp
qed

text \<open>The counters of the executor and of the block agree, and gas adds up without saturating.\<close>

definition counters_agree :: "bool \<Rightarrow> 'db executor_state \<Rightarrow> ('x, 'tr) building \<Rightarrow> bool" where
  "counters_agree c st b \<longleftrightarrow>
     b_cumulative_gas_used b = exec_gas_used st \<and>
     b_cumulative_blob_gas_used b = (if c then Some (exec_blob_gas_used st) else None)"

definition running_sums :: "nat list \<Rightarrow> nat list" where
  "running_sums gs = map (\<lambda>i. sum_list (take (Suc i) gs)) [0..<length gs]"

lemma running_sums_snoc: "running_sums (gs @ [g]) = running_sums gs @ [sum_list gs + g]"
  by (auto simp: running_sums_def)

definition gas_sums :: "'db executor_state \<Rightarrow> ('x, 'tr) building \<Rightarrow> bool" where
  "gas_sums st b \<longleftrightarrow>
     unat (exec_gas_used st) = sum_list (info_gas (b_infos b)) \<and>
     map unat (receipt_gas (b_receipts b)) = running_sums (info_gas (b_infos b))"

lemma step_aligned:
  assumes "executor_next ops ex tx st = Some (outcome, st')" "aligned b"
  shows "aligned (record_outcome ops c outcome b)"
  using assms(1)
proof (cases rule: executor_next_cases)
  case (executed nonce result traces db)
  then show ?thesis using assms(2) by (auto elim!: after_execution_cases intro: aligned_include)
next
  case (refused e db)
  then show ?thesis using assms(2) by (simp add: aligned_def)
next
  case (skipped db)
  then show ?thesis using assms(2) by simp
qed

lemma step_counters:
  assumes "executor_next ops ex tx st = Some (outcome, st')" "counters_agree c st b"
  shows "counters_agree c st' (record_outcome ops c outcome b)"
  using assms(1)
proof (cases rule: executor_next_cases)
  case (executed nonce result traces db)
  then show ?thesis using assms(2)
    by (auto elim!: after_execution_cases simp: counters_agree_def include_transaction_fields or_zero_def)
next
  case (refused e db)
  then show ?thesis using assms(2) by (simp add: counters_agree_def)
next
  case (skipped db)
  then show ?thesis using assms(2) by (simp add: counters_agree_def)
qed

lemma saturating_add_fits:
  assumes "saturating_add a g \<le> lim" "lim < (- 1 :: 'a::len word)" "h \<le> g"
  shows "unat (saturating_add a h) = unat a + unat h" "saturating_add a h \<le> lim"
proof -
  have "min (unat a + unat g) (2 ^ LENGTH('a) - 1) \<le> unat lim"
    using assms(1) unfolding word_le_nat_alt unat_saturating_add .
  moreover have "unat lim < 2 ^ LENGTH('a) - 1"
    using assms(2) by (simp add: word_less_nat_alt unat_max_word)
  moreover have "unat h \<le> unat g" using assms(3) by (simp add: word_le_nat_alt)
  ultimately show "unat (saturating_add a h) = unat a + unat h" "saturating_add a h \<le> lim"
    unfolding word_le_nat_alt unat_saturating_add by linarith+
qed

lemma step_gas:
  assumes "executor_next ops ex tx st = Some (outcome, st')" "evm_gas_bounded ops"
    and "\<not> disable_block_gas_limit (ex_cfg_env ex)" "env_gas_limit (ex_block_env ex) < - 1"
    and "gas_sums st b" "counters_agree c st b" "exec_gas_used st \<le> env_gas_limit (ex_block_env ex)"
  shows "gas_sums st' (record_outcome ops c outcome b) \<and> exec_gas_used st' \<le> env_gas_limit (ex_block_env ex)"
  using assms(1)
proof (cases rule: executor_next_cases)
  case (executed nonce result traces db)
  have "saturating_add (exec_gas_used st) (tx_gas_limit (typed_transaction (pending_transaction tx)))
      \<le> env_gas_limit (ex_block_env ex)"
    using executed(2) assms(3) by (simp add: gas_fits_def Let_def)
  moreover have "result_gas result \<le> tx_gas_limit (typed_transaction (pending_transaction tx))"
    using assms(2) executed(4) unfolding evm_gas_bounded_def by (metis env_for_gas_limit)
  ultimately have fits:
    "unat (saturating_add (exec_gas_used st) (result_gas result)) = unat (exec_gas_used st) + unat (result_gas result)"
    "saturating_add (exec_gas_used st) (result_gas result) \<le> env_gas_limit (ex_block_env ex)"
    using saturating_add_fits assms(4) by blast+
  from executed(1) show ?thesis
  proof (cases rule: after_execution_cases)
    case (1 e)
    then show ?thesis using assms(5,6) fits
      by (simp add: gas_sums_def counters_agree_def include_transaction_fields running_sums_snoc)
  qed
next
  case (refused e db)
  then show ?thesis using assms(5,7) by (simp add: gas_sums_def)
next
  case (skipped db)
  then show ?thesis using assms(5,7) by (simp add: gas_sums_def)
qed

lemma step_blob_gas:
  assumes "executor_next ops ex tx st = Some (outcome, st')"
    "exec_blob_gas_used st \<le> ex_max_blob_gas_per_block ex"
  shows "exec_blob_gas_used st' \<le> ex_max_blob_gas_per_block ex"
  using assms(1)
proof (cases rule: executor_next_cases)
  case (executed nonce result traces db)
  then show ?thesis by (auto elim!: after_execution_cases simp: gas_fits_def Let_def)
next
  case (refused e db)
  then show ?thesis using assms(2) by simp
next
  case (skipped db)
  then show ?thesis using assms(2) by simp
qed

text \<open>The included and the invalid transactions are taken in order from the list, each one once.\<close>

lemma execute_loop_selects:
  assumes "execute_loop ops ex c txs (st, b) = Some (st', b')"
  shows "\<exists>inc inv. b_included b' = b_included b @ inc \<and> b_invalid b' = b_invalid b @ inv \<and>
    subseq inc txs \<and> subseq inv txs \<and> mset inc + mset inv \<subseteq># mset txs \<and> (\<forall>tx\<in>set inc. validated ex tx)"
  using assms
proof (induction txs arbitrary: st b)
  case (Cons tx txs)
  then obtain outcome s where step: "executor_next ops ex tx st = Some (outcome, s)"
    and loop: "execute_loop ops ex c txs (s, record_outcome ops c outcome b) = Some (st', b')"
    by (auto split: option.split_asm)
  obtain inc inv where sel: "b_included b' = b_included (record_outcome ops c outcome b) @ inc"
    "b_invalid b' = b_invalid (record_outcome ops c outcome b) @ inv"
    "subseq inc txs" "subseq inv txs" "mset inc + mset inv \<subseteq># mset txs" "\<forall>tx\<in>set inc. validated ex tx"
    using Cons.IH [OF loop] by blast
  from sel(5) have more: "mset inc + mset inv \<subseteq># add_mset tx (mset txs)"
    by (rule subset_mset.order_trans) simp
  have later: "subseq inc (tx # txs)" "subseq inv (tx # txs)" using sel(3,4) by (auto intro: list_emb_Cons)
  from step show ?case
  proof (cases rule: executor_next_cases)
    case (executed nonce result traces db)
    from executed(1) obtain e where e: "outcome = Executed e" "executed_transaction e = tx"
      by (rule after_execution_cases)
    show ?thesis
      by (rule exI [of _ "tx # inc"], rule exI [of _ inv])
        (use sel executed(3) e later in \<open>simp add: include_transaction_fields\<close>)
  next
    case (refused e db)
    show ?thesis
      by (rule exI [of _ inc], rule exI [of _ "tx # inv"]) (use sel refused later in simp)
  next
    case (skipped db)
    show ?thesis
      by (rule exI [of _ inc], rule exI [of _ inv]) (use sel skipped more later in simp)
  qed
qed simp

section \<open>Properties\<close>

lemma executor_execute_cases:
  assumes "executor_execute ops chain receipt_root ex txs db = Some (r, db')"
  obtains st b where
    "execute_loop ops ex (CANCUN (ex_forks ex) \<le> cfg_spec (ex_cfg_env ex)) txs
       (\<lparr>exec_db = db, exec_gas_used = 0, exec_blob_gas_used = 0\<rparr>,
        building_empty (CANCUN (ex_forks ex) \<le> cfg_spec (ex_cfg_env ex))) = Some (st, b)"
    "info_transactions (executed_block r) = b_infos b" "info_receipts (executed_block r) = b_receipts b"
    "executed_included r = b_included b" "executed_invalid r = b_invalid b"
    "block_transactions (info_block (executed_block r)) = b_transactions b"
    "gas_used (header (info_block (executed_block r))) = b_cumulative_gas_used b"
    "blob_gas_used (header (info_block (executed_block r))) = b_cumulative_blob_gas_used b"
    "parent_hash (header (info_block (executed_block r))) = ex_parent_hash ex"
    "number (header (info_block (executed_block r))) = saturating_to_u64 (env_number (ex_block_env ex))"
    "timestamp (header (info_block (executed_block r))) = saturating_to_u64 (env_timestamp (ex_block_env ex))"
    "gas_limit (header (info_block (executed_block r))) = env_gas_limit (ex_block_env ex)"
  using assms by (auto simp: executor_execute_def Let_def Block_new_def split: option.split_asm)

lemma executed_block_contents:
  assumes "executor_execute ops chain receipt_root ex txs db = Some (r, db')"
  shows "subseq (executed_included r) txs" and "subseq (executed_invalid r) txs"
    and "mset (executed_included r) + mset (executed_invalid r) \<subseteq># mset txs"
    and "\<forall>tx\<in>set (executed_included r). validated ex tx"
    and "block_transactions (info_block (executed_block r)) =
      map (maybe_transaction \<circ> pending_transaction) (executed_included r)"
    and "map transaction_hash (info_transactions (executed_block r)) = map tx_hash_of (executed_included r)"
    and "map (transaction_index \<circ> transaction_details) (info_transactions (executed_block r)) =
      map of_nat [0..<length (executed_included r)]"
    and "length (info_receipts (executed_block r)) = length (executed_included r)"
proof -
  obtain st b where loop: "execute_loop ops ex (CANCUN (ex_forks ex) \<le> cfg_spec (ex_cfg_env ex)) txs
       (\<lparr>exec_db = db, exec_gas_used = 0, exec_blob_gas_used = 0\<rparr>,
        building_empty (CANCUN (ex_forks ex) \<le> cfg_spec (ex_cfg_env ex))) = Some (st, b)"
    and r: "info_transactions (executed_block r) = b_infos b" "info_receipts (executed_block r) = b_receipts b"
      "executed_included r = b_included b" "executed_invalid r = b_invalid b"
      "block_transactions (info_block (executed_block r)) = b_transactions b"
    using assms by (rule executor_execute_cases)
  have "aligned b"
    by (rule execute_loop_keeps [OF loop, where I = "\<lambda>_. aligned"])
      (simp add: aligned_def building_empty_def, rule step_aligned)
  then show "block_transactions (info_block (executed_block r)) =
      map (maybe_transaction \<circ> pending_transaction) (executed_included r)"
    "map transaction_hash (info_transactions (executed_block r)) = map tx_hash_of (executed_included r)"
    "map (transaction_index \<circ> transaction_details) (info_transactions (executed_block r)) =
      map of_nat [0..<length (executed_included r)]"
    "length (info_receipts (executed_block r)) = length (executed_included r)"
    by (simp_all add: r aligned_def)
  from execute_loop_selects [OF loop] show "subseq (executed_included r) txs" "subseq (executed_invalid r) txs"
    "mset (executed_included r) + mset (executed_invalid r) \<subseteq># mset txs"
    "\<forall>tx\<in>set (executed_included r). validated ex tx"
    by (auto simp: r building_empty_def)
qed


text \<open>
  C4. Gas of a block. If the EVM uses no more gas than a transaction allows, the gas in the header is the
  sum over the included transactions and within the block's gas limit, and the receipts carry the running
  sums. The largest \<open>u64\<close> as gas limit is left out: there a saturating sum can fall short of the gas used.
\<close>

theorem block_gas_within_limit:
  assumes "executor_execute ops chain receipt_root ex txs db = Some (r, db')" "evm_gas_bounded ops"
    and "\<not> disable_block_gas_limit (ex_cfg_env ex)" "env_gas_limit (ex_block_env ex) < - 1"
  shows "unat (gas_used (header (info_block (executed_block r)))) =
      sum_list (info_gas (info_transactions (executed_block r))) \<and>
    gas_used (header (info_block (executed_block r))) \<le> gas_limit (header (info_block (executed_block r))) \<and>
    map unat (receipt_gas (info_receipts (executed_block r))) =
      running_sums (info_gas (info_transactions (executed_block r)))"
  using assms(1)
proof (cases rule: executor_execute_cases)
  case (1 st b)
  let ?c = "CANCUN (ex_forks ex) \<le> cfg_spec (ex_cfg_env ex)"
  have "gas_sums st b \<and> counters_agree ?c st b \<and> exec_gas_used st \<le> env_gas_limit (ex_block_env ex)"
    by (rule execute_loop_keeps [OF 1(1), where I = "\<lambda>st b. gas_sums st b \<and> counters_agree ?c st b \<and>
        exec_gas_used st \<le> env_gas_limit (ex_block_env ex)"])
      (simp add: gas_sums_def counters_agree_def building_empty_def info_gas_def receipt_gas_def running_sums_def,
       use step_gas [OF _ assms(2-4)] step_counters in blast)
  then show ?thesis by (simp add: 1 gas_sums_def counters_agree_def)
qed

text \<open>The blob gas in the header of a block never exceeds the limit of the fork.\<close>

theorem blob_gas_within_limit:
  assumes "executor_execute ops chain receipt_root ex txs db = Some (r, db')"
    "blob_gas_used (header (info_block (executed_block r))) = Some g"
  shows "CANCUN (ex_forks ex) \<le> cfg_spec (ex_cfg_env ex) \<and> g \<le> ex_max_blob_gas_per_block ex"
  using assms(1)
proof (cases rule: executor_execute_cases)
  case (1 st b)
  let ?c = "CANCUN (ex_forks ex) \<le> cfg_spec (ex_cfg_env ex)"
  have "counters_agree ?c st b \<and> exec_blob_gas_used st \<le> ex_max_blob_gas_per_block ex"
    by (rule execute_loop_keeps [OF 1(1), where I = "\<lambda>st b. counters_agree ?c st b \<and>
        exec_blob_gas_used st \<le> ex_max_blob_gas_per_block ex"])
      (simp add: counters_agree_def building_empty_def, use step_counters step_blob_gas in blast)
  then show ?thesis using assms(2) by (simp add: 1 counters_agree_def split: if_split_asm)
qed

text \<open>The EVM fails only with the errors that the executor handles.\<close>

definition evm_errors_expected :: "('s, 'db, 'de, 'x, 'tr) evm_ops \<Rightarrow> bool" where
  "evm_errors_expected ops \<longleftrightarrow> (\<forall>cfg block tx db. fst (transact_commit ops cfg block tx db) \<noteq> Inl EvmOther)"

lemma executor_next_returns:
  assumes "evm_errors_expected ops"
  shows "executor_next ops ex tx st \<noteq> None"
proof -
  have "transact_commit ops cfg block e db \<noteq> (Inl EvmOther, db')" for cfg block e db db'
    using assms unfolding evm_errors_expected_def by (metis fst_conv)
  then show ?thesis
    unfolding executor_next_def Let_def by (auto split: sum.split prod.split EVMError.split)
qed

lemma execute_loop_returns:
  assumes "evm_errors_expected ops"
  shows "\<exists>st' b'. execute_loop ops ex c txs (st, b) = Some (st', b')"
proof (induction txs arbitrary: st b)
  case (Cons tx txs)
  obtain outcome s where "executor_next ops ex tx st = Some (outcome, s)"
    using executor_next_returns [OF assms] by fastforce
  then show ?case using Cons.IH [of s "record_outcome ops c outcome b"] by simp
qed simp

text \<open>
  Executing a list of transactions returns a block, whatever the transactions are, unless the EVM fails
  with an error other than the two kinds the code expects.
\<close>

lemma execution_returns:
  assumes "evm_errors_expected ops"
  shows "\<exists>r db'. executor_execute ops chain receipt_root ex txs db = Some (r, db')"
proof -
  obtain st b where "execute_loop ops ex (CANCUN (ex_forks ex) \<le> cfg_spec (ex_cfg_env ex)) txs
       (\<lparr>exec_db = db, exec_gas_used = 0, exec_blob_gas_used = 0\<rparr>,
        building_empty (CANCUN (ex_forks ex) \<le> cfg_spec (ex_cfg_env ex))) = Some (st, b)"
    using execute_loop_returns [OF assms] by blast
  then show ?thesis unfolding executor_execute_def Let_def by simp
qed

section \<open>An example\<close>

text \<open>An EVM that succeeds with all the gas a transaction allows, on a database with one rich account.\<close>

definition sample_evm :: "(nat, unit, unit, nat, unit) evm_ops" where
  "sample_evm =
     \<lparr>db_basic = (\<lambda>_ _. Inr (Some \<lparr>account_nonce = 2, account_balance = 200000\<rparr>)),
      transact_commit = (\<lambda>_ _ tx db. (Inr (Success 0 (txe_gas_limit (op_base tx)) [] (CallOutput []), []), db)),
      maybe_state_root = (\<lambda>_. None), exit_code = of_nat, SELF_DESTRUCT = 2, EXIT_REVERT = 3, EXIT_STOP = 0,
      rlp_encode = (\<lambda>_. []), bloom_accrue = (\<lambda>b _. b), receipt_bloom = (\<lambda>_. [])\<rparr>"

definition sample_hashing :: "MaybeImpersonatedTransaction chain_ops" where
  "sample_hashing =
     \<lparr>hash_slow = (\<lambda>h. ucast (number h) + 100), block_tx_hash = (\<lambda>_. 9), calculate_transaction_root = (\<lambda>_. 0),
      EMPTY_OMMER_ROOT_HASH = 0, EMPTY_WITHDRAWALS = 0, EMPTY_REQUESTS_HASH = 0\<rparr>"

definition sample_executor :: "(nat, unit) executor_env" where
  "sample_executor =
     \<lparr>ex_validator = sample_validator, ex_forks = sample_forks, ex_block_env = sample_block_env,
      ex_cfg_env = sample_cfg, ex_parent_hash = 1, ex_optimism = False, ex_max_blob_gas_per_block = 786432\<rparr>"

definition sample_pooled :: PoolTransaction where
  "sample_pooled = PoolTransaction_new (sample_pending 5 2 9)"

lemma sample_blob_gas [simp]: "blob_gas (sample_legacy p n) = None"
  by (simp add: sample_legacy_def)

lemma sample_next:
  "\<exists>e. executor_next sample_evm sample_executor sample_pooled \<lparr>exec_db = (), exec_gas_used = 0, exec_blob_gas_used = 0\<rparr> =
     Some (Executed e, \<lparr>exec_db = (), exec_gas_used = 21000, exec_blob_gas_used = 0\<rparr>) \<and>
     executed_transaction e = sample_pooled \<and> executed_gas_used e = 21000"
proof -
  have limits: "\<not> env_gas_limit sample_block_env < 21000" "\<not> cfg_gas_limit_cap sample_cfg < 21000"
    by (simp_all add: sample_block_env_def sample_cfg_def word_less_nat_alt unat_max_word)
  show ?thesis
    by (simp add: executor_next_def sample_evm_def sample_executor_def sample_pooled_def PoolTransaction_new_def
        after_execution_def saturating_add_def or_zero_def sample_validates limits Let_def)
qed

lemma sample_executed:
  "\<exists>r. executor_execute sample_evm sample_hashing (\<lambda>_. 0) sample_executor [sample_pooled] () = Some (r, ()) \<and>
     executed_included r = [sample_pooled] \<and> gas_used (header (info_block (executed_block r))) = 21000 \<and>
     blob_gas_used (header (info_block (executed_block r))) = Some 0"
proof -
  obtain e where e:
    "executor_next sample_evm sample_executor sample_pooled \<lparr>exec_db = (), exec_gas_used = 0, exec_blob_gas_used = 0\<rparr> =
       Some (Executed e, \<lparr>exec_db = (), exec_gas_used = 21000, exec_blob_gas_used = 0\<rparr>)"
    "executed_transaction e = sample_pooled" "executed_gas_used e = 21000"
    using sample_next by blast
  have "CANCUN (ex_forks sample_executor) \<le> cfg_spec (ex_cfg_env sample_executor)"
    by (simp add: sample_executor_def sample_forks_def sample_cfg_def)
  moreover have "blob_gas (typed_transaction (pending_transaction sample_pooled)) = None"
    by (simp add: sample_pooled_def PoolTransaction_new_def)
  ultimately show ?thesis
    by (simp add: executor_execute_def Let_def e include_transaction_fields building_empty_def Block_new_def
        saturating_add_def or_zero_def)
qed

lemma sample_evm_laws: "evm_gas_bounded sample_evm" "evm_errors_expected sample_evm"
  by (simp_all add: evm_gas_bounded_def evm_errors_expected_def sample_evm_def)


theorem block_gas_within_limit_witness:
  "\<exists>r. executor_execute sample_evm sample_hashing (\<lambda>_. 0) sample_executor [sample_pooled] () = Some (r, ()) \<and>
     sum_list (info_gas (info_transactions (executed_block r))) = 21000"
proof -
  obtain r where r: "executor_execute sample_evm sample_hashing (\<lambda>_. 0) sample_executor [sample_pooled] () = Some (r, ())"
    "gas_used (header (info_block (executed_block r))) = 21000"
    using sample_executed by blast
  have "\<not> disable_block_gas_limit (ex_cfg_env sample_executor)" "env_gas_limit (ex_block_env sample_executor) < - 1"
    by (simp_all add: sample_executor_def sample_cfg_def sample_block_env_def word_less_nat_alt unat_max_word)
  from block_gas_within_limit [OF r(1) sample_evm_laws(1) this] r show ?thesis by auto
qed

theorem blob_gas_within_limit_witness:
  "\<exists>r. executor_execute sample_evm sample_hashing (\<lambda>_. 0) sample_executor [sample_pooled] () = Some (r, ()) \<and>
     CANCUN (ex_forks sample_executor) \<le> cfg_spec (ex_cfg_env sample_executor)"
proof -
  obtain r where r: "executor_execute sample_evm sample_hashing (\<lambda>_. 0) sample_executor [sample_pooled] () = Some (r, ())"
    "blob_gas_used (header (info_block (executed_block r))) = Some 0"
    using sample_executed by blast
  from blob_gas_within_limit [OF r] r(1) show ?thesis by blast
qed

end
