(* ===== verification/Mining.thy ===== *)
theory Mining
  imports Block_Executor Block_States Time_Manager Fee_Service
    Tx_Pool
begin

text \<open>
  Mining a block: \<open>Backend::do_mine_block\<close> (anvil/src/eth/backend/mem/mod.rs), which composes the fee
  manager, the block clock, the history of states, the executor and the block storage. The database, the
  hash function, the conversion of a timestamp to a date and the channels of the listeners are
  parameters (\<open>mining_ops\<close>); the wall clock is \<open>now\<close>. Logging is left out, apart from the date it
  computes, which can panic.
\<close>

section \<open>State and operations\<close>

record PruneStateHistoryConfig =
  prune_enabled :: bool
  max_memory_history :: "nat option"

definition is_state_history_supported :: "PruneStateHistoryConfig \<Rightarrow> bool" where
  "is_state_history_supported c \<longleftrightarrow> \<not> prune_enabled c \<or> max_memory_history c \<noteq> None"

definition PruneStateHistoryConfig_from_args :: "nat option option \<Rightarrow> PruneStateHistoryConfig" where
  "PruneStateHistoryConfig_from_args val =
     (case val of
        Some m \<Rightarrow> \<lparr>prune_enabled = True, max_memory_history = m\<rparr>
      | None \<Rightarrow> \<lparr>prune_enabled = False, max_memory_history = None\<rparr>)"

record ('s, 'db, 'st, 'snap, 'disk, 'de, 'x, 'tr, 'l) mining_ops =
  mo_evm :: "('s, 'db, 'de, 'x, 'tr) evm_ops"
  mo_chain :: "MaybeImpersonatedTransaction chain_ops"
  mo_receipt_root :: "TypedReceipt list \<Rightarrow> b256"
  mo_disk :: "('st, 'snap, 'disk) disk_ops"
  mo_fees :: "'s fee_ops"
  current_state :: "'db \<Rightarrow> 'st"
  insert_block_hash :: "u256 \<Rightarrow> b256 \<Rightarrow> 'db \<Rightarrow> 'db"
  keccak256 :: "bytes \<Rightarrow> b256"
  date_exists :: "int \<Rightarrow> bool"
  is_closed :: "'l \<Rightarrow> bool"
  unbounded_send :: "Header \<times> b256 \<Rightarrow> 'l \<Rightarrow> 'l option"
  OSAKA :: 's
  osaka_max_blob_gas :: u64
  prague_max_blob_gas :: u64
  cancun_max_blob_gas :: u64

text \<open>
  What is fixed while mining: the validator and the hard forks, whether the chain is an Arbitrum or an
  Optimism chain or past the merge, the keeper of transactions and the history setting.
\<close>

record ('s, 'be) mining_config =
  mc_validator :: "'be validator"
  mc_forks :: "'s fork_ids"
  mc_arbitrum :: bool
  mc_optimism :: bool
  mc_merged :: bool
  mc_keeper :: "nat option"
  mc_prune :: PruneStateHistoryConfig

record ('s, 'db, 'st, 'disk, 'f, 'x, 'tr, 'l) node =
  nd_db :: 'db
  nd_states :: "('st, 'disk) InMemoryBlockStates"
  nd_cfg :: "'s CfgEnv"
  nd_block :: EvmBlockEnv
  nd_storage :: "(MaybeImpersonatedTransaction, ('x, 'tr) tx_details, TypedReceipt) BlockchainStorage"
  nd_time :: TimeManager
  nd_fees :: "('s, 'f) FeeManager"
  nd_listeners :: "'l list"

definition blob_params ::
    "('s::linorder, 'db, 'st, 'snap, 'disk, 'de, 'x, 'tr, 'l) mining_ops \<Rightarrow> 's fork_ids \<Rightarrow> 's CfgEnv \<Rightarrow> u64" where
  "blob_params ops forks cfg =
     (if OSAKA ops \<le> cfg_spec cfg then osaka_max_blob_gas ops
      else if PRAGUE forks \<le> cfg_spec cfg then prague_max_blob_gas ops
      else cancun_max_blob_gas ops)"

text \<open>The date of a timestamp, which is read as a signed number; \<open>None\<close> is the panic of \<open>unwrap\<close>.\<close>

definition utc_from_secs ::
    "('s, 'db, 'st, 'snap, 'disk, 'de, 'x, 'tr, 'l) mining_ops \<Rightarrow> u64 \<Rightarrow> int option" where
  "utc_from_secs ops secs = (if date_exists ops (sint secs) then Some (sint secs) else None)"

definition notify_on_new_block ::
    "('s, 'db, 'st, 'snap, 'disk, 'de, 'x, 'tr, 'l) mining_ops \<Rightarrow> Header \<Rightarrow> b256 \<Rightarrow> 'l list \<Rightarrow> 'l list" where
  "notify_on_new_block ops h block_hash listeners =
     List.map_filter (unbounded_send ops (h, block_hash)) (filter (\<lambda>l. \<not> is_closed ops l) listeners)"

text \<open>The environment of the next block, before the timestamp is set.\<close>

definition next_block_cfg :: "EvmBlockEnv \<Rightarrow> 's CfgEnv \<Rightarrow> 's CfgEnv" where
  "next_block_cfg block cfg = (if env_basefee block = 0 then cfg\<lparr>disable_base_fee := True\<rparr> else cfg)"

definition next_block_env ::
    "('s::linorder, 'db, 'st, 'snap, 'disk, 'de, 'x, 'tr, 'l) mining_ops \<Rightarrow> ('s, 'be) mining_config
       \<Rightarrow> ('s, 'db, 'st, 'disk, 'f, 'x, 'tr, 'l) node \<Rightarrow> u64 \<Rightarrow> EvmBlockEnv" where
  "next_block_env ops mc nd num =
     (nd_block nd)
       \<lparr>env_number := (if mc_arbitrum mc then ucast num else saturating_add (env_number (nd_block nd)) 1),
        env_basefee := base_fee (mo_fees ops) (nd_fees nd),
        env_blob_excess_gas_and_price :=
          map_option (\<lambda>b. (blob_excess_gas b, blob_gasprice b)) (excess_blob_gas_and_price (mo_fees ops) (nd_fees nd)),
        env_prevrandao :=
          Some (keccak256 ops (rev (le_bytes 32 (best_hash (nd_storage nd))) @ le_bytes 8 num))\<rparr>"

definition block_executor ::
    "('s::linorder, 'db, 'st, 'snap, 'disk, 'de, 'x, 'tr, 'l) mining_ops \<Rightarrow> ('s, 'be) mining_config
       \<Rightarrow> 's CfgEnv \<Rightarrow> EvmBlockEnv \<Rightarrow> b256 \<Rightarrow> ('s, 'be) executor_env" where
  "block_executor ops mc cfg block parent =
     \<lparr>ex_validator = mc_validator mc, ex_forks = mc_forks mc, ex_block_env = block, ex_cfg_env = cfg,
      ex_parent_hash = parent, ex_optimism = mc_optimism mc,
      ex_max_blob_gas_per_block = blob_params ops (mc_forks mc) cfg\<rparr>"

text \<open>What is written once the block is executed, with the environment it was executed in.\<close>

definition write_mined_block ::
    "('s::linorder, 'db, 'st, 'snap, 'disk, 'de, 'x, 'tr, 'l) mining_ops \<Rightarrow> ('s, 'be) mining_config \<Rightarrow> u64 \<Rightarrow> EvmBlockEnv
       \<Rightarrow> ('x, 'tr) ExecutedTransactions \<Rightarrow> ('s, 'db, 'st, 'disk, 'f, 'x, 'tr, 'l) node \<Rightarrow> MinedBlockOutcome \<times> ('s, 'db, 'st, 'disk, 'f, 'x, 'tr, 'l) node" where
  "write_mined_block ops mc num env r nd =
     (let block = info_block (executed_block r);
          h = header block;
          block_hash = hash_slow (mo_chain ops) h
      in (\<lparr>block_number = num, included = executed_included r, invalid = executed_invalid r\<rparr>,
          nd\<lparr>nd_db := insert_block_hash ops (ucast (number h)) block_hash (nd_db nd),
             nd_block := env\<lparr>env_difficulty := 0\<rparr>,
             nd_storage := record_mined_block (mo_chain ops) (mc_merged mc) (mc_keeper mc) num block
               (info_transactions (executed_block r)) (info_receipts (executed_block r)) (nd_storage nd),
             nd_fees := fees_after_block (mo_fees ops) h (nd_fees nd),
             nd_listeners := notify_on_new_block ops h block_hash (nd_listeners nd)\<rparr>))"

definition do_mine_block ::
    "('s::linorder, 'db, 'st, 'snap, 'disk, 'de, 'x, 'tr, 'l) mining_ops \<Rightarrow> ('s, 'be) mining_config \<Rightarrow> u64
       \<Rightarrow> PoolTransaction list \<Rightarrow> ('s, 'db, 'st, 'disk, 'f, 'x, 'tr, 'l) node \<Rightarrow> (MinedBlockOutcome \<times> ('s, 'db, 'st, 'disk, 'f, 'x, 'tr, 'l) node) option" where
  "do_mine_block ops mc now pool_transactions nd =
     (let cfg = next_block_cfg (nd_block nd) (nd_cfg nd);
          num = saturating_add (best_number (nd_storage nd)) 1;
          parent = best_hash (nd_storage nd);
          stored = (if is_state_history_supported (mc_prune mc)
            then states_insert (mo_disk ops) parent (current_state ops (nd_db nd)) (nd_states nd)
            else Some (nd_states nd))
      in case stored of
           None \<Rightarrow> None
         | Some states' \<Rightarrow>
             (let (ts, time') = next_timestamp now (nd_time nd);
                  env = (next_block_env ops mc nd num)\<lparr>env_timestamp := ucast ts\<rparr>
              in case executor_execute (mo_evm ops) (mo_chain ops) (mo_receipt_root ops)
                        (block_executor ops mc cfg env parent) pool_transactions (nd_db nd) of
                   None \<Rightarrow> None
                 | Some (r, db') \<Rightarrow>
                     (case utc_from_secs ops (timestamp (header (info_block (executed_block r)))) of
                        None \<Rightarrow> None
                      | Some _ \<Rightarrow>
                          Some (write_mined_block ops mc num env r
                            (nd\<lparr>nd_db := db', nd_states := states', nd_cfg := cfg, nd_time := time'\<rparr>)))))"

section \<open>Well-formed nodes\<close>

text \<open>
  The blocks are linked: each names its predecessor as parent and is not older than it. The environment
  carries the number of the best block, and no block is newer than the clock.
\<close>

definition linked :: "('tx, 'i, 'r) BlockchainStorage \<Rightarrow> bool" where
  "linked s \<longleftrightarrow>
     (\<forall>n h b. n < best_number s \<longrightarrow> fmlookup (hashes s) (n + 1) = Some h \<longrightarrow> fmlookup (blocks s) h = Some b \<longrightarrow>
        fmlookup (hashes s) n = Some (parent_hash (header b)) \<and>
        (\<forall>p. fmlookup (blocks s) (parent_hash (header b)) = Some p \<longrightarrow> timestamp (header p) \<le> timestamp (header b)))"

definition node_wf ::
    "('s, 'db, 'st, 'snap, 'disk, 'de, 'x, 'tr, 'l) mining_ops
       \<Rightarrow> ('s, 'db, 'st, 'disk, 'f, 'x, 'tr, 'l) node \<Rightarrow> bool" where
  "node_wf ops nd \<longleftrightarrow>
     chain_wf (mo_chain ops) (nd_storage nd) \<and> linked (nd_storage nd) \<and>
     env_number (nd_block nd) = ucast (best_number (nd_storage nd)) \<and>
     (\<forall>b. fmlookup (blocks (nd_storage nd)) (best_hash (nd_storage nd)) = Some b \<longrightarrow>
        timestamp (header b) \<le> last_timestamp (nd_time nd))"

text \<open>What is assumed of the hash function: a later block never gets the hash of a stored one.\<close>

definition no_collision :: "'tx chain_ops \<Rightarrow> ('tx, 'i, 'r) BlockchainStorage \<Rightarrow> bool" where
  "no_collision ops s \<longleftrightarrow>
     (\<forall>h. best_number s < number h \<longrightarrow>
        fmlookup (blocks s) (hash_slow ops h) = None \<and> (\<forall>n. fmlookup (hashes s) n \<noteq> Some (hash_slow ops h)))"

text \<open>Pooled transactions carry their hash and are not on the chain yet.\<close>

definition unmined ::
    "MaybeImpersonatedTransaction chain_ops \<Rightarrow> (MaybeImpersonatedTransaction, 'i, 'r) BlockchainStorage
       \<Rightarrow> PoolTransaction list \<Rightarrow> bool" where
  "unmined ops s txs \<longleftrightarrow>
     (\<forall>tx\<in>set txs. block_tx_hash ops (maybe_transaction (pending_transaction tx)) = tx_hash_of tx \<and>
        fmlookup (transactions s) (tx_hash_of tx) = None)"

lemma linked_headers:
  "linked s \<longleftrightarrow>
     (\<forall>n h b. n < best_number s \<longrightarrow> fmlookup (hashes s) (n + 1) = Some h \<longrightarrow>
        map_option header (fmlookup (blocks s) h) = Some b \<longrightarrow>
        fmlookup (hashes s) n = Some (parent_hash b) \<and>
        (\<forall>p. map_option header (fmlookup (blocks s) (parent_hash b)) = Some p \<longrightarrow> timestamp p \<le> timestamp b))"
  unfolding linked_def by fastforce

lemma u64_succ: "n \<noteq> - 1 \<Longrightarrow> n < n + (1 :: u64)" "n \<noteq> - 1 \<Longrightarrow> unat (n + (1 :: u64)) = unat n + 1"
  "n \<noteq> - 1 \<Longrightarrow> saturating_add n (1 :: u64) = n + 1"
proof -
  assume n: "n \<noteq> - 1"
  then have "unat n \<noteq> unat (- 1 :: u64)" by (metis unsigned_word_eqI)
  then have "unat n + 1 < 2 ^ 64" using unat_below [of n] by (simp add: unat_max_word)
  then show "n < n + 1" "unat (n + 1) = unat n + 1" "saturating_add n 1 = n + 1"
    by (simp_all add: word_less_nat_alt unat_word_ariths saturating_add_def)
qed

lemma unat_u64_u256: "unat (ucast n :: u256) = unat (n :: u64)"
  using unat_below [of n] by (simp add: unsigned_ucast_eq take_bit_nat_eq_self)

lemma saturating_to_u64_ucast [simp]: "saturating_to_u64 (ucast n) = n"
proof -
  have "unat (ucast n :: u256) < 2 ^ 64" using unat_below [of n] unfolding unat_u64_u256 by simp
  moreover have "(ucast (ucast n :: u256) :: u64) = n"
    by (rule bit_word_eqI) (simp add: bit_simps)
  ultimately show ?thesis by (simp add: saturating_to_u64_def)
qed

lemma saturating_succ_ucast:
  "n \<noteq> - 1 \<Longrightarrow> saturating_add (ucast n :: u256) 1 = ucast (n + 1 :: u64)"
proof -
  assume n: "n \<noteq> - 1"
  have "unat (saturating_add (ucast n :: u256) 1) = unat (ucast (n + 1) :: u256)"
    using unat_below [of n] unfolding unat_saturating_add unat_u64_u256 u64_succ(2) [OF n] by simp
  then show ?thesis by (rule unsigned_word_eqI)
qed

section \<open>Mining keeps the node well-formed\<close>

lemma do_mine_block_cases:
  fixes mc :: "('s::linorder, 'be) mining_config"
  assumes "do_mine_block ops mc now txs nd = Some (outcome, nd')"
  obtains st ts tm r db' where
    "next_timestamp now (nd_time nd) = (ts, tm)"
    "executor_execute (mo_evm ops) (mo_chain ops) (mo_receipt_root ops)
       (block_executor ops mc (next_block_cfg (nd_block nd) (nd_cfg nd))
         ((next_block_env ops mc nd (saturating_add (best_number (nd_storage nd)) 1))\<lparr>env_timestamp := ucast ts\<rparr>)
         (best_hash (nd_storage nd))) txs (nd_db nd) = Some (r, db')"
    "(if is_state_history_supported (mc_prune mc)
      then states_insert (mo_disk ops) (best_hash (nd_storage nd)) (current_state ops (nd_db nd)) (nd_states nd)
      else Some (nd_states nd)) = Some st"
    "write_mined_block ops mc (saturating_add (best_number (nd_storage nd)) 1)
       ((next_block_env ops mc nd (saturating_add (best_number (nd_storage nd)) 1))\<lparr>env_timestamp := ucast ts\<rparr>) r
       (nd\<lparr>nd_db := db', nd_states := st, nd_cfg := next_block_cfg (nd_block nd) (nd_cfg nd), nd_time := tm\<rparr>) = (outcome, nd')"
proof -
  obtain ts tm where t: "next_timestamp now (nd_time nd) = (ts, tm)" by fastforce
  show thesis
    using assms unfolding do_mine_block_def Let_def t prod.case
    by (auto split: option.split_asm prod.split_asm if_split_asm intro: that [OF t])
qed

lemma linked_record:
  assumes wf: "chain_wf ops s" "linked s" and fresh: "fresh_block ops s block infos receipts"
    and num: "number (header block) = best_number s + 1" "best_number s \<noteq> - 1"
    and parent: "parent_hash (header block) = best_hash s"
    and time: "\<And>b. fmlookup (blocks s) (best_hash s) = Some b \<Longrightarrow> timestamp (header b) \<le> timestamp (header block)"
  shows "linked (record_mined_block ops merged keeper (number (header block)) block infos receipts s)"
  unfolding linked_headers recorded_shape
proof (intro allI impI)
  let ?h = "hash_slow ops (header block)"
  fix n h b
  assume n: "n < number (header block)" "fmlookup (fmupd (number (header block)) ?h (hashes s)) (n + 1) = Some h"
    and b: "(if h = ?h then Some (header block) else map_option header (fmlookup (blocks s) h)) = Some b"
  have new: "fmlookup (hashes s) m \<noteq> Some ?h" "fmlookup (blocks s) ?h = None" for m
    using fresh by (simp_all add: fresh_block_def)
  have best: "fmlookup (hashes s) (best_number s) = Some (best_hash s)" using wf(1) by (simp add: chain_wf_def)
  show "fmlookup (fmupd (number (header block)) ?h (hashes s)) n = Some (parent_hash b) \<and>
      (\<forall>p. (if parent_hash b = ?h then Some (header block) else map_option header (fmlookup (blocks s) (parent_hash b))) = Some p
         \<longrightarrow> timestamp p \<le> timestamp b)"
  proof (cases "n = best_number s")
    case True
    then have "b = header block" using n(2) b num(1) by auto
    then show ?thesis
      using True best new(1) [of "best_number s"] u64_succ(1) [OF num(2)] num(1) parent time by auto
  next
    case False
    then have less: "n < best_number s"
      using n(1) num u64_succ(2) [OF num(2)] by (auto simp: word_less_nat_alt) (metis Suc_eq_plus1 less_SucE unsigned_word_eqI)
    have ne: "n + 1 \<noteq> number (header block)" using False num(1) by simp
    then have h: "fmlookup (hashes s) (n + 1) = Some h" using n(2) by simp
    then have "h \<noteq> ?h" using new(1) by auto
    then have b': "map_option header (fmlookup (blocks s) h) = Some b" using b by simp
    note old = wf(2) [unfolded linked_headers, rule_format, OF less h b']
    then have "parent_hash b \<noteq> ?h" using new(1) by auto
    moreover have "n \<noteq> number (header block)" using n(1) by simp
    ultimately show ?thesis using old by simp
  qed
qed

lemma executed_fresh:
  assumes "executor_execute evm chain root ex txs db = Some (r, db')" "no_collision chain s" "unmined chain s txs"
    and "best_number s < number (header (info_block (executed_block r)))"
  shows "fresh_block chain s (info_block (executed_block r)) (info_transactions (executed_block r))
     (info_receipts (executed_block r))"
proof -
  note c = executed_block_contents [OF assms(1)]
  have sub: "set (executed_included r) \<subseteq> set txs"
    using c(3) by (metis set_mset_mset set_mset_mono subset_mset.order_trans mset_subset_eq_add_left)
  have len: "length (info_transactions (executed_block r)) = length (executed_included r)"
    using c(6) by (metis length_map)
  have hashes: "block_tx_hash chain (maybe_transaction (pending_transaction tx)) = tx_hash_of tx"
    "fmlookup (transactions s) (tx_hash_of tx) = None" if "tx \<in> set (executed_included r)" for tx
    using that sub assms(3) by (auto simp: unmined_def)
  show ?thesis
    using assms(2,4) c(5,6,8) len hashes unfolding fresh_block_def no_collision_def by auto
qed

lemma executed_header:
  assumes "executor_execute evm chain root ex txs db = Some (r, db')"
  shows "parent_hash (header (info_block (executed_block r))) = ex_parent_hash ex"
    and "number (header (info_block (executed_block r))) = saturating_to_u64 (env_number (ex_block_env ex))"
    and "timestamp (header (info_block (executed_block r))) = saturating_to_u64 (env_timestamp (ex_block_env ex))"
  using assms by (rule executor_execute_cases; simp)+

lemma next_timestamp_clock:
  assumes "next_timestamp now tm = (ts, tm')"
  shows "last_timestamp tm' = ts" and "last_timestamp tm \<noteq> - 1 \<Longrightarrow> last_timestamp tm \<le> ts"
  using assms compute_next_timestamp_ge [of tm now]
  by (auto simp: next_timestamp_def Let_def split: prod.split_asm)

text \<open>What a mined block is, and that mining keeps the node well-formed.\<close>

lemma do_mine_block_wf:
  fixes mc :: "('s::linorder, 'be) mining_config" and nd :: "('s, 'db, 'st, 'disk, 'f, 'x, 'tr, 'l) node"
  assumes mine: "do_mine_block ops mc now txs nd = Some (outcome, nd')" and wf: "node_wf ops nd"
    and new: "no_collision (mo_chain ops) (nd_storage nd)" "unmined (mo_chain ops) (nd_storage nd) txs"
    and below: "best_number (nd_storage nd) \<noteq> - 1" "last_timestamp (nd_time nd) \<noteq> - 1"
  obtains r :: "('x, 'tr) ExecutedTransactions" where
    "node_wf ops nd'" "block_number outcome = best_number (nd_storage nd) + 1"
    "included outcome = executed_included r" "invalid outcome = executed_invalid r"
    "parent_hash (header (info_block (executed_block r))) = best_hash (nd_storage nd)"
    "number (header (info_block (executed_block r))) = best_number (nd_storage nd) + 1"
    "last_timestamp (nd_time nd) \<le> timestamp (header (info_block (executed_block r)))"
    "fresh_block (mo_chain ops) (nd_storage nd) (info_block (executed_block r))
       (info_transactions (executed_block r)) (info_receipts (executed_block r))"
    "nd_storage nd' = record_mined_block (mo_chain ops) (mc_merged mc) (mc_keeper mc) (best_number (nd_storage nd) + 1)
       (info_block (executed_block r)) (info_transactions (executed_block r)) (info_receipts (executed_block r)) (nd_storage nd)"
    "mset (executed_included r) + mset (executed_invalid r) \<subseteq># mset txs"
    "map transaction_hash (info_transactions (executed_block r)) = map tx_hash_of (executed_included r)"
  using mine
proof (cases rule: do_mine_block_cases)
  case (1 st ts tm r db')
  let ?s = "nd_storage nd" and ?b = "info_block (executed_block r)"
  have num: "saturating_add (best_number ?s) 1 = best_number ?s + 1" by (rule u64_succ(3) [OF below(1)])
  have env: "env_number (nd_block nd) = ucast (best_number ?s)" using wf by (simp add: node_wf_def)
  have h: "parent_hash (header ?b) = best_hash ?s" "number (header ?b) = best_number ?s + 1" "timestamp (header ?b) = ts"
    using executed_header [OF 1(2)]
    by (simp_all add: block_executor_def next_block_env_def num env saturating_succ_ucast [OF below(1)])
  have fresh: "fresh_block (mo_chain ops) ?s ?b (info_transactions (executed_block r)) (info_receipts (executed_block r))"
    by (rule executed_fresh [OF 1(2) new]) (simp add: h u64_succ(1) [OF below(1)])
  have out: "outcome = \<lparr>block_number = best_number ?s + 1, included = executed_included r, invalid = executed_invalid r\<rparr>"
    and s': "nd_storage nd' = record_mined_block (mo_chain ops) (mc_merged mc) (mc_keeper mc) (best_number ?s + 1) ?b
      (info_transactions (executed_block r)) (info_receipts (executed_block r)) ?s"
    and rest: "nd_time nd' = tm" "env_number (nd_block nd') = ucast (best_number ?s + 1)"
    using 1(4)
    by (auto simp: write_mined_block_def Let_def num next_block_env_def env saturating_succ_ucast [OF below(1)])
  note clock = next_timestamp_clock [OF 1(1)]
  have "linked (nd_storage nd')"
    unfolding s' h(2) [symmetric]
    by (rule linked_record [OF _ _ fresh h(2) below(1) h(1)])
      (use wf clock(2) [OF below(2)] h(3) in \<open>auto simp: node_wf_def\<close>)
  moreover have "chain_wf (mo_chain ops) (nd_storage nd')"
    unfolding s' h(2) [symmetric] by (rule recorded_wf [OF _ fresh]) (use wf in \<open>simp add: node_wf_def\<close>)
  moreover have "timestamp (header b) = ts" if "fmlookup (blocks (nd_storage nd')) (best_hash (nd_storage nd')) = Some b" for b
    using arg_cong [OF that, of "map_option header"] h(3) by (auto simp: s' recorded_shape)
  ultimately have "node_wf ops nd'"
    unfolding node_wf_def using rest clock(1) by (auto simp: s' recorded_shape)
  moreover have "last_timestamp (nd_time nd) \<le> timestamp (header ?b)" using clock(2) [OF below(2)] by (simp add: h(3))
  moreover have "block_number outcome = best_number ?s + 1" "included outcome = executed_included r"
    "invalid outcome = executed_invalid r"
    by (simp_all add: out)
  ultimately show thesis
    by (intro that [of r] h fresh s' executed_block_contents(3,6) [OF 1(2)])
qed

lemma mining_returns:
  assumes "evm_errors_expected (mo_evm ops)" and "0 < limit_after (nd_states nd)"
  shows "(\<exists>r. do_mine_block ops mc now txs nd = Some r) \<longleftrightarrow>
    date_exists ops (sint (fst (next_timestamp now (nd_time nd))))"
proof -
  let ?s = "nd_storage nd" and ?num = "saturating_add (best_number (nd_storage nd)) 1"
  obtain ts tm where t: "next_timestamp now (nd_time nd) = (ts, tm)" by fastforce
  let ?ex = "block_executor ops mc (next_block_cfg (nd_block nd) (nd_cfg nd))
    ((next_block_env ops mc nd ?num)\<lparr>env_timestamp := ucast ts\<rparr>) (best_hash ?s)"
  obtain r db where r: "executor_execute (mo_evm ops) (mo_chain ops) (mo_receipt_root ops) ?ex txs (nd_db nd) = Some (r, db)"
    using execution_returns [OF assms(1)] by blast
  have "timestamp (header (info_block (executed_block r))) = ts"
    using executed_header(3) [OF r] by (simp add: block_executor_def)
  moreover obtain st where "states_insert (mo_disk ops) (best_hash ?s) (current_state ops (nd_db nd)) (nd_states nd) = Some st"
    using states_insert_returns_iff [of "mo_disk ops" "best_hash ?s" "current_state ops (nd_db nd)" "nd_states nd"] assms(2)
    by auto
  ultimately show ?thesis
    by (auto simp: do_mine_block_def Let_def t r utc_from_secs_def)
qed

text \<open>A node on which mining always returns: it stays one.\<close>

definition mining_good ::
    "('s, 'db, 'st, 'snap, 'disk, 'de, 'x, 'tr, 'l) mining_ops
       \<Rightarrow> ('s, 'db, 'st, 'disk, 'f, 'x, 'tr, 'l) node \<Rightarrow> bool" where
  "mining_good ops nd \<longleftrightarrow>
     evm_errors_expected (mo_evm ops) \<and> (\<forall>t. date_exists ops t) \<and> limits_pos (nd_states nd)"

lemma do_mine_block_good:
  assumes "mining_good ops nd"
  shows "\<exists>outcome nd'. do_mine_block ops mc now txs nd = Some (outcome, nd') \<and> mining_good ops nd'"
proof -
  have "0 < limit_after (nd_states nd)" using assms by (auto simp: mining_good_def limits_pos_def limit_after_def)
  then obtain outcome nd' where mined: "do_mine_block ops mc now txs nd = Some (outcome, nd')"
    using mining_returns [of ops nd mc now txs] assms by (auto simp: mining_good_def)
  then have "limits_pos (nd_states nd')"
  proof (cases rule: do_mine_block_cases)
    case (1 st ts tm r db')
    have "limits_pos st"
      using 1(3) assms
        states_insert_pos [of "nd_states nd" "mo_disk ops" "best_hash (nd_storage nd)" "current_state ops (nd_db nd)"]
      by (auto simp: mining_good_def split: if_split_asm)
    moreover have "nd_states nd' = st" using 1(4) by (auto simp: write_mined_block_def Let_def)
    ultimately show ?thesis by simp
  qed
  with mined assms show ?thesis by (auto simp: mining_good_def)
qed

lemma executed_transaction_found:
  assumes "fresh_block chain s block infos receipts" "map transaction_hash infos = map tx_hash_of txs" "tx \<in> set txs"
  shows "\<exists>m. get_transaction_by_hash (tx_hash_of tx) (record_mined_block chain merged None n block infos receipts s) = Some m \<and>
    mined_block_hash m = hash_slow chain (header block) \<and> mined_block_number m = n"
proof -
  have "tx_hash_of tx \<in> transaction_hash ` set infos" using assms(2,3) by (metis image_eqI list.set_map)
  with assms(1) show ?thesis using recorded_transaction unfolding fresh_block_def by blast
qed

section \<open>Properties\<close>

text \<open>
  C2. Mining a block on a well-formed node gives a well-formed node: the storage stays well-formed, each
  block names its predecessor as parent and is not older than it. The new block carries the next number,
  its parent is the block that was the best, it is not older than the clock was, it is filed as the
  latest block, and unless a keeper prunes the storage each included transaction can be looked up with the number and
  the hash of this block. No given transaction is both included and reported invalid more often than it
  was given.
\<close>

theorem mined_block_extends_chain:
  fixes nd :: "('s::linorder, 'db, 'st, 'disk, 'f, 'x, 'tr, 'l) node"
  assumes "do_mine_block ops mc now txs nd = Some (outcome, nd')" and "node_wf ops nd"
    and "no_collision (mo_chain ops) (nd_storage nd)" and "unmined (mo_chain ops) (nd_storage nd) txs"
    and "best_number (nd_storage nd) \<noteq> - 1" and "last_timestamp (nd_time nd) \<noteq> - 1"
  shows "node_wf ops nd' \<and> block_number outcome = best_number (nd_storage nd) + 1 \<and>
    best_number (nd_storage nd') = best_number (nd_storage nd) + 1 \<and>
    (\<exists>h. map_option header (get_block_by_hash (best_hash (nd_storage nd')) (nd_storage nd')) = Some h \<and>
       parent_hash h = best_hash (nd_storage nd) \<and> number h = best_number (nd_storage nd) + 1 \<and>
       last_timestamp (nd_time nd) \<le> timestamp h) \<and>
    mset (included outcome) + mset (invalid outcome) \<subseteq># mset txs \<and>
    (mc_keeper mc = None \<longrightarrow> (\<forall>tx\<in>set (included outcome). \<exists>m.
       get_transaction_by_hash (tx_hash_of tx) (nd_storage nd') = Some m \<and>
       mined_block_hash m = best_hash (nd_storage nd') \<and> mined_block_number m = best_number (nd_storage nd) + 1))"
proof -
  let ?s = "nd_storage nd"
  obtain r :: "('x, 'tr) ExecutedTransactions" where r: "node_wf ops nd'" "block_number outcome = best_number ?s + 1"
    "included outcome = executed_included r" "invalid outcome = executed_invalid r"
    "parent_hash (header (info_block (executed_block r))) = best_hash ?s"
    "number (header (info_block (executed_block r))) = best_number ?s + 1"
    "last_timestamp (nd_time nd) \<le> timestamp (header (info_block (executed_block r)))"
    and fresh: "fresh_block (mo_chain ops) ?s (info_block (executed_block r)) (info_transactions (executed_block r))
       (info_receipts (executed_block r))"
    and s': "nd_storage nd' = record_mined_block (mo_chain ops) (mc_merged mc) (mc_keeper mc) (best_number ?s + 1)
       (info_block (executed_block r)) (info_transactions (executed_block r)) (info_receipts (executed_block r)) ?s"
    and txs: "mset (executed_included r) + mset (executed_invalid r) \<subseteq># mset txs"
      "map transaction_hash (info_transactions (executed_block r)) = map tx_hash_of (executed_included r)"
    using assms by (rule do_mine_block_wf)
  have "\<exists>m. get_transaction_by_hash (tx_hash_of tx) (nd_storage nd') = Some m \<and>
      mined_block_hash m = best_hash (nd_storage nd') \<and> mined_block_number m = best_number ?s + 1"
    if "mc_keeper mc = None" "tx \<in> set (included outcome)" for tx
    unfolding s' that(1) recorded_shape
    by (rule executed_transaction_found [OF fresh txs(2)]) (use that(2) r(3) in simp)
  moreover have "map_option header (get_block_by_hash (best_hash (nd_storage nd')) (nd_storage nd')) = Some (header (info_block (executed_block r)))"
    unfolding s' get_block_by_hash_def recorded_shape by simp
  moreover have "best_number (nd_storage nd') = best_number ?s + 1" unfolding s' recorded_shape ..
  ultimately show ?thesis using r txs(1) by (simp only:) blast
qed


text \<open>
  With the history of states enabled, the state on which the block was built can be recalled under the
  hash of the parent block.
\<close>

theorem parent_state_recalled:
  assumes "do_mine_block ops mc now txs nd = Some (outcome, nd')" and "is_state_history_supported (mc_prune mc)"
  shows "states_get (mo_disk ops) (best_hash (nd_storage nd)) (nd_states nd') =
    (Some (current_state ops (nd_db nd)), nd_states nd')"
  using assms(1)
proof (cases rule: do_mine_block_cases)
  case (1 st ts tm r db')
  have "fmlookup (states st) (best_hash (nd_storage nd)) = Some (current_state ops (nd_db nd))"
    using 1(3) assms(2) by (auto simp: states_insert_def Let_def)
  moreover have "nd_states nd' = st" using 1(4) by (auto simp: write_mined_block_def Let_def)
  ultimately show ?thesis by (simp add: states_get_def)
qed

section \<open>An example\<close>

text \<open>
  A node at its genesis block, with the databases, the EVM and the fees of the examples of the components.
  There are dates up to the year 262142, as in the chrono library.
\<close>

definition sample_mining :: "(nat, unit, nat CacheDB, nat StateSnapshot, (b256, nat StateSnapshot) fmap, unit, nat, unit, unit) mining_ops" where
  "sample_mining =
     \<lparr>mo_evm = sample_evm, mo_chain = sample_hashing, mo_receipt_root = (\<lambda>_. 0), mo_disk = map_disk_ops,
      mo_fees = sample_fee_ops, current_state = (\<lambda>_. sample_db), insert_block_hash = (\<lambda>_ _ db. db),
      keccak256 = (\<lambda>_. 5), date_exists = (\<lambda>s. \<bar>s\<bar> < 8210266876800), is_closed = (\<lambda>_. False),
      unbounded_send = (\<lambda>_ l. Some l), OSAKA = 6, osaka_max_blob_gas = 1179648, prague_max_blob_gas = 1179648,
      cancun_max_blob_gas = 786432\<rparr>"

definition sample_mining_config :: "(nat, unit) mining_config" where
  "sample_mining_config =
     \<lparr>mc_validator = sample_validator, mc_forks = sample_forks, mc_arbitrum = False, mc_optimism = False,
      mc_merged = True, mc_keeper = None, mc_prune = PruneStateHistoryConfig_from_args None\<rparr>"

definition sample_node :: "u64 option \<Rightarrow> (nat, unit, nat CacheDB, (b256, nat StateSnapshot) fmap, unit, nat, unit, unit) node" where
  "sample_node exact =
     \<lparr>nd_db = (), nd_states = sample_states, nd_cfg = sample_cfg, nd_block = sample_block_env\<lparr>env_number := 0\<rparr>,
      nd_storage = Storage_new sample_hashing \<lparr>SHANGHAI = 3, CANCUN = 4, PRAGUE = (5 :: nat)\<rparr>
        \<lparr>env_gas_limit = 30000000, env_beneficiary = 0, env_difficulty = 0, env_blob_excess_gas_and_price = None\<rparr> 5 None 0 0,
      nd_time = (TimeManager_new 1000 0)\<lparr>next_exact_timestamp := exact\<rparr>,
      nd_fees = FeeManager_new () 1 3 True 5 \<lparr>blob_excess_gas = 0, blob_gasprice = 1\<rparr>, nd_listeners = []\<rparr>"

lemmas sample_node_defs = sample_node_def sample_mining_def sample_hashing_def Storage_new_def Block_new_def
  PartialHeader_default_def Let_def

lemma sample_node_ok:
  "node_wf sample_mining (sample_node e)" "no_collision (mo_chain sample_mining) (nd_storage (sample_node e))"
  "best_number (nd_storage (sample_node e)) = 0" "best_hash (nd_storage (sample_node e)) = 100"
  "last_timestamp (nd_time (sample_node e)) = 0"
  "unmined (mo_chain sample_mining) (nd_storage (sample_node e)) [sample_pooled]"
  "evm_errors_expected (mo_evm sample_mining)" "0 < limit_after (nd_states (sample_node e))"
proof -
  have ne: "(100 :: u256) \<noteq> ucast (n :: u64) + 100" if "0 < n" for n
  proof -
    have "unat (ucast n :: u256) \<noteq> 0" using that by (simp add: unat_u64_u256 word_less_nat_alt)
    then show ?thesis by auto
  qed
  then show "no_collision (mo_chain sample_mining) (nd_storage (sample_node e))"
    by (auto simp: no_collision_def sample_node_defs)
  show "node_wf sample_mining (sample_node e)"
    by (simp add: node_wf_def chain_wf_def numbers_match_def linked_def sample_node_defs TimeManager_new_def time_reset_def)
  show "best_number (nd_storage (sample_node e)) = 0" "best_hash (nd_storage (sample_node e)) = 100"
    "last_timestamp (nd_time (sample_node e)) = 0"
    by (simp_all add: sample_node_defs TimeManager_new_def time_reset_def)
  show "unmined (mo_chain sample_mining) (nd_storage (sample_node e)) [sample_pooled]"
    by (simp add: unmined_def sample_node_defs sample_pooled_def PoolTransaction_new_def tx_hash_of_def)
  show "evm_errors_expected (mo_evm sample_mining)" using sample_evm_laws by (simp add: sample_mining_def)
  show "0 < limit_after (nd_states (sample_node e))" 
    by (simp add: sample_node_def sample_states_def limit_after_def BlockStates_new_def is_memory_only_def MIN_HISTORY_LIMIT_def)
qed

lemma sample_clock:
  "fst (next_timestamp 1012 (nd_time (sample_node None))) = 12"
  "fst (next_timestamp 1012 (nd_time (sample_node (Some t)))) = t"
  by (simp_all add: next_timestamp_def compute_next_timestamp_def sample_node_def TimeManager_new_def time_reset_def
      sat_i128_def Let_def)

lemma sample_mines:
  "\<exists>r. do_mine_block sample_mining sample_mining_config 1012 [sample_pooled] (sample_node None) = Some r"
  unfolding mining_returns [OF sample_node_ok(7,8)] sample_clock by (simp add: sample_mining_def)

theorem mined_block_extends_chain_witness:
  "\<exists>outcome nd. do_mine_block sample_mining sample_mining_config 1012 [sample_pooled] (sample_node None) = Some (outcome, nd) \<and>
     node_wf sample_mining nd \<and> best_number (nd_storage nd) = 1"
proof -
  obtain outcome nd where mined:
    "do_mine_block sample_mining sample_mining_config 1012 [sample_pooled] (sample_node None) = Some (outcome, nd)"
    using sample_mines by fastforce
  from mined_block_extends_chain [OF mined sample_node_ok(1,2,6)] mined show ?thesis
    by (auto simp: sample_node_ok)
qed


theorem parent_state_recalled_witness:
  "\<exists>outcome nd. do_mine_block sample_mining sample_mining_config 1012 [sample_pooled] (sample_node None) = Some (outcome, nd) \<and>
     states_get map_disk_ops 100 (nd_states nd) = (Some sample_db, nd_states nd)"
proof -
  obtain outcome nd where mined:
    "do_mine_block sample_mining sample_mining_config 1012 [sample_pooled] (sample_node None) = Some (outcome, nd)"
    using sample_mines by fastforce
  have "is_state_history_supported (mc_prune sample_mining_config)"
    by (simp add: sample_mining_config_def PruneStateHistoryConfig_from_args_def is_state_history_supported_def)
  from parent_state_recalled [OF mined this] mined show ?thesis
    by (simp add: sample_node_ok(4)) (simp add: sample_mining_def)
qed

end
