(* ===== verification/Node_Service.thy ===== *)
theory Node_Service
  imports Miner Mining
begin

text \<open>
  The service that drives the node (anvil/src/service.rs): the block producer, which mines one block at a
  time on another thread, and the loop that feeds it with the miner's transactions and tells the pool what was mined.
  Mining is a parameter, as is whether the mining thread is done when it is polled; both may depend on
  a state of the world (\<open>service_ops\<close>). The fee history task and the eviction of filters that a poll of the service starts
  after this loop are left out.
\<close>

section \<open>The block producer\<close>

text \<open>A running task holds the backend and the transactions of the block.\<close>

record 'nd BlockProducer =
  idle_backend :: "'nd option"
  block_mining :: "('nd \<times> PoolTransaction list) option"
  queued :: "PoolTransaction list list"

record ('nd, 'w) service_ops =
  task_finished :: "'w \<Rightarrow> bool \<times> 'w"
  mine_block :: "'w \<Rightarrow> PoolTransaction list \<Rightarrow> 'nd \<Rightarrow> (MinedBlockOutcome \<times> 'nd) option"

definition BlockProducer_new :: "'nd \<Rightarrow> 'nd BlockProducer" where
  "BlockProducer_new backend = \<lparr>idle_backend = Some backend, block_mining = None, queued = []\<rparr>"

definition spawn_mining :: "'nd BlockProducer \<Rightarrow> 'nd BlockProducer" where
  "spawn_mining bp =
     (case queued bp of
        [] \<Rightarrow> bp
      | txs # rest \<Rightarrow>
          (case idle_backend bp of
             None \<Rightarrow> bp
           | Some backend \<Rightarrow>
               bp\<lparr>idle_backend := None, block_mining := Some (backend, txs), queued := rest\<rparr>))"

text \<open>\<open>None\<close> is the panic when the mining task failed.\<close>

definition producer_poll_next ::
    "('nd, 'w) service_ops \<Rightarrow> 'nd BlockProducer \<times> 'w \<Rightarrow> (MinedBlockOutcome poll \<times> 'nd BlockProducer \<times> 'w) option" where
  "producer_poll_next ops = (\<lambda>(bp, w).
     let bp1 = spawn_mining bp in
     case block_mining bp1 of
       None \<Rightarrow> Some (PollPending, bp1, w)
     | Some (backend, txs) \<Rightarrow>
         (case task_finished ops w of
            (False, w') \<Rightarrow> Some (PollPending, bp1, w')
          | (True, w') \<Rightarrow>
              (case mine_block ops w' txs backend of
                 None \<Rightarrow> None
               | Some (outcome, backend') \<Rightarrow>
                   Some (PollReady outcome, bp1\<lparr>idle_backend := Some backend', block_mining := None\<rparr>, w'))))"

definition producer_feed :: "PoolTransaction list \<Rightarrow> 'nd BlockProducer \<Rightarrow> 'nd BlockProducer" where
  "producer_feed txs bp = bp\<lparr>queued := queued bp @ [txs]\<rparr>"

text \<open>The batches that are not mined yet, oldest first.\<close>

definition batches :: "'nd BlockProducer \<Rightarrow> PoolTransaction list list" where
  "batches bp = (case block_mining bp of None \<Rightarrow> [] | Some (_, txs) \<Rightarrow> [txs]) @ queued bp"

lemma batches_spawn_le: "length (batches (spawn_mining bp)) \<le> length (batches bp)"
  by (auto simp: batches_def spawn_mining_def split: list.split option.split)

lemma producer_ready_less:
  "producer_poll_next ops (bp, w) = Some (PollReady outcome, bp', w') \<Longrightarrow> length (batches bp') < length (batches bp)"
  using batches_spawn_le [of bp]
  by (auto simp: producer_poll_next_def Let_def batches_def split: option.split_asm bool.split_asm prod.split_asm)

section \<open>The service\<close>

record ('ch, 'nd, 'rx, 'iv, 'w) NodeService =
  sv_pool :: "'ch Pool"
  sv_producer :: "'nd BlockProducer"
  sv_miner :: "('rx, 'iv) Miner"
  sv_world :: 'w

text \<open>Block production is advanced until it is pending; the pool learns of each block.\<close>

function advance ::
    "('nd, 'w) service_ops \<Rightarrow> hash_orders \<Rightarrow> 'ch Pool \<Rightarrow> 'nd BlockProducer \<times> 'w
       \<Rightarrow> ('ch Pool \<times> 'nd BlockProducer \<times> 'w) option" where
  "advance ops ho pool (bp, w) =
     (case producer_poll_next ops (bp, w) of
        None \<Rightarrow> None
      | Some (PollPending, bp', w') \<Rightarrow> Some (pool, bp', w')
      | Some (PollReady outcome, bp', w') \<Rightarrow>
          (case on_mined_block ho outcome pool of
             None \<Rightarrow> None
           | Some (_, pool') \<Rightarrow> advance ops ho pool' (bp', w')))"
  by pat_completeness auto

termination advance
  by (relation "measure (\<lambda>(ops, ho, pool, bp, w). length (batches bp))") (auto dest: producer_ready_less)

declare advance.simps [simp del]

text \<open>
  The loop of a poll of the service, as far as \<open>fuel\<close> rounds; \<open>None\<close> if it does not return within
  them or panics.
\<close>

fun service_loop ::
    "('nd, 'w) service_ops \<Rightarrow> ('rx, 'iv) streams \<Rightarrow> hash_orders \<Rightarrow> nat \<Rightarrow> ('ch, 'nd, 'rx, 'iv, 'w) NodeService
       \<Rightarrow> ('ch, 'nd, 'rx, 'iv, 'w) NodeService option" where
  "service_loop ops st ho 0 sv = None"
| "service_loop ops st ho (Suc fuel) sv =
     (case advance ops ho (sv_pool sv) (sv_producer sv, sv_world sv) of
        None \<Rightarrow> None
      | Some (pool, bp, w) \<Rightarrow>
          (case miner_poll st (inner pool) (sv_miner sv) of
             None \<Rightarrow> None
           | Some (PollPending, miner) \<Rightarrow> Some \<lparr>sv_pool = pool, sv_producer = bp, sv_miner = miner, sv_world = w\<rparr>
           | Some (PollReady txs, miner) \<Rightarrow>
               service_loop ops st ho fuel
                 \<lparr>sv_pool = pool, sv_producer = producer_feed txs bp, sv_miner = miner, sv_world = w\<rparr>))"

section \<open>The producer as a queue\<close>

text \<open>Exactly one of the idle backend and the running task is there.\<close>

definition producer_ok :: "'nd BlockProducer \<Rightarrow> bool" where
  "producer_ok bp \<longleftrightarrow> idle_backend bp = None \<longleftrightarrow> block_mining bp \<noteq> None"

definition producer_backend :: "'nd BlockProducer \<Rightarrow> 'nd" where
  "producer_backend bp = (case idle_backend bp of Some nd \<Rightarrow> nd | None \<Rightarrow> fst (the (block_mining bp)))"

lemma spawn_mining_abs:
  assumes "producer_ok bp"
  shows "producer_ok (spawn_mining bp)" "batches (spawn_mining bp) = batches bp"
    "producer_backend (spawn_mining bp) = producer_backend bp"
    "block_mining (spawn_mining bp) = None \<Longrightarrow> batches bp = []"
  using assms
  by (auto simp: producer_ok_def batches_def producer_backend_def spawn_mining_def
      split: list.splits option.splits)

lemma producer_feed_abs:
  "producer_ok (producer_feed txs bp) = producer_ok bp" "batches (producer_feed txs bp) = batches bp @ [txs]"
  "producer_backend (producer_feed txs bp) = producer_backend bp"
  by (simp_all add: producer_feed_def producer_ok_def batches_def producer_backend_def split: option.split)

lemma producer_poll_cases:
  assumes "producer_ok bp"
  obtains
    (idle) "batches bp = []" "producer_poll_next ops (bp, w) = Some (PollPending, spawn_mining bp, w)"
  | (busy) w' where "task_finished ops w = (False, w')"
      "producer_poll_next ops (bp, w) = Some (PollPending, spawn_mining bp, w')"
  | (finished) txs rest w' where "task_finished ops w = (True, w')" "batches bp = txs # rest"
      "producer_poll_next ops (bp, w) =
         map_option (\<lambda>(outcome, nd). (PollReady outcome,
           \<lparr>idle_backend = Some nd, block_mining = None, queued = rest\<rparr>, w')) (mine_block ops w' txs (producer_backend bp))"
proof (cases "block_mining (spawn_mining bp)")
  case None
  then show thesis
    using idle spawn_mining_abs(4) [OF assms] by (simp add: producer_poll_next_def)
next
  case (Some task)
  obtain nd txs where task: "task = (nd, txs)" by fastforce
  have abs: "batches bp = txs # queued (spawn_mining bp)" "producer_backend bp = nd" "idle_backend (spawn_mining bp) = None"
    using spawn_mining_abs(1-3) [OF assms] Some task
    by (auto simp: batches_def producer_backend_def producer_ok_def)
  obtain b w' where t: "task_finished ops w = (b, w')" by fastforce
  show thesis
  proof (cases b)
    case False
    then show thesis using busy t Some task by (simp add: producer_poll_next_def)
  next
    case True
    then show thesis
      using finished [OF _ abs(1)] t Some task abs(2)
      by (cases "spawn_mining bp") (auto simp: producer_poll_next_def split: option.split)
  qed
qed

section \<open>Mining backends\<close>

text \<open>What the producer relies on: on a backend in order, mining returns and leaves it in order.\<close>

locale block_backend =
  fixes ops :: "('nd, 'w) service_ops" and good :: "'nd \<Rightarrow> bool"
  assumes mine_returns: "good nd \<Longrightarrow> \<exists>outcome nd'. mine_block ops w txs nd = Some (outcome, nd') \<and> good nd'"
begin

lemma poll_returns:
  assumes "producer_ok bp" "good (producer_backend bp)"
  shows "\<exists>r bp' w'. producer_poll_next ops (bp, w) = Some (r, bp', w') \<and> producer_ok bp' \<and> good (producer_backend bp')"
  using assms(1)
proof (cases rule: producer_poll_cases [of bp ops w])
  case idle
  then show ?thesis using spawn_mining_abs [OF assms(1)] assms(2) by simp
next
  case (busy w')
  then show ?thesis using spawn_mining_abs [OF assms(1)] assms(2) by simp
next
  case (finished txs rest w')
  obtain outcome nd where "mine_block ops w' txs (producer_backend bp) = Some (outcome, nd)" "good nd"
    using mine_returns [OF assms(2)] by blast
  with finished(3) show ?thesis by (simp add: producer_ok_def producer_backend_def)
qed

lemma advance_returns:
  assumes "pool_inv ho rk mrk pool" "producer_ok bp" "good (producer_backend bp)"
  shows "\<exists>pool' bp' w'. advance ops ho pool (bp, w) = Some (pool', bp', w') \<and>
    pool_inv ho rk mrk pool' \<and> producer_ok bp' \<and> good (producer_backend bp')"
  using assms
proof (induction "length (batches bp)" arbitrary: pool bp w rule: less_induct)
  case less
  obtain r bp' w' where poll: "producer_poll_next ops (bp, w) = Some (r, bp', w')" "producer_ok bp'" "good (producer_backend bp')"
    using poll_returns [OF less.prems(2,3)] by blast
  show ?case
  proof (cases r)
    case PollPending
    then show ?thesis using poll less.prems(1) by (simp add: advance.simps [of ops ho pool])
  next
    case (PollReady outcome)
    obtain res pool' where pool: "on_mined_block ho outcome pool = Some (res, pool')" "pool_inv ho rk mrk pool'"
      using pool_ops.step_inv [OF less.prems(1), of "OpMined outcome"] by auto
    have "length (batches bp') < length (batches bp)" using producer_ready_less poll(1) PollReady by simp
    from less.hyps [OF this pool(2) poll(2,3)] show ?thesis
      using poll(1) PollReady pool(1) by (simp add: advance.simps [of ops ho pool bp])
  qed
qed

end

section \<open>The node's backend\<close>

text \<open>Mining as \<open>Backend::mine_block\<close> does it, at the time the world shows.\<close>

definition node_mining ::
    "('w \<Rightarrow> bool \<times> 'w) \<Rightarrow> ('w \<Rightarrow> u64) \<Rightarrow> ('s::linorder, 'db, 'st, 'snap, 'disk, 'de, 'x, 'tr, 'l) mining_ops
       \<Rightarrow> ('s, 'be) mining_config \<Rightarrow> (('s, 'db, 'st, 'disk, 'f, 'x, 'tr, 'l) node, 'w) service_ops" where
  "node_mining finished now ops mc =
     \<lparr>task_finished = finished, mine_block = (\<lambda>w txs nd. do_mine_block ops mc (now w) txs nd)\<rparr>"

interpretation node_backend: block_backend "node_mining finished now ops mc" "mining_good ops"
  for finished now ops mc
  by unfold_locales (simp add: node_mining_def do_mine_block_good)

section \<open>Properties\<close>

text \<open>
  C7. The block producer is a queue of batches in front of the backend: it always has exactly one of an idle
  backend and a running task; a poll that yields a block takes the oldest batch and the block is the one
  the backend mines from it; any other poll changes neither the batches nor the backend.
\<close>

theorem producer_refines_queue:
  assumes "producer_ok bp" and "producer_poll_next ops (bp, w) = Some (r, bp', w')"
  shows "producer_ok bp' \<and>
    (case r of
       PollPending \<Rightarrow> batches bp' = batches bp \<and> producer_backend bp' = producer_backend bp
     | PollReady outcome \<Rightarrow> (\<exists>txs. batches bp = txs # batches bp' \<and>
         mine_block ops w' txs (producer_backend bp) = Some (outcome, producer_backend bp')))"
  using assms(1)
proof (cases rule: producer_poll_cases [of bp ops w])
  case idle
  then show ?thesis using assms spawn_mining_abs [OF assms(1)] by auto
next
  case (busy w')
  then show ?thesis using assms spawn_mining_abs [OF assms(1)] by auto
next
  case (finished txs rest w1)
  then obtain outcome nd where "mine_block ops w1 txs (producer_backend bp) = Some (outcome, nd)"
    "r = PollReady outcome" "bp' = \<lparr>idle_backend = Some nd, block_mining = None, queued = rest\<rparr>" "w' = w1"
    using assms(2) by (cases "mine_block ops w1 txs (producer_backend bp)") auto
  then show ?thesis using finished(2) by (simp add: producer_ok_def producer_backend_def batches_def)
qed

text \<open>The reference: mine the batches one after the other, and tell the pool after each.\<close>

fun mine_all ::
    "('nd, 'w) service_ops \<Rightarrow> 'w \<Rightarrow> hash_orders \<Rightarrow> PoolTransaction list list \<Rightarrow> 'ch Pool \<times> 'nd \<Rightarrow> ('ch Pool \<times> 'nd) option" where
  "mine_all ops w ho [] s = Some s"
| "mine_all ops w ho (txs # rest) (pool, nd) =
     (case mine_block ops w txs nd of
        None \<Rightarrow> None
      | Some (outcome, nd') \<Rightarrow>
          (case on_mined_block ho outcome pool of
             None \<Rightarrow> None
           | Some (_, pool') \<Rightarrow> mine_all ops w ho rest (pool', nd')))"

text \<open>
  C8. When the mining tasks finish, advancing the block production does the same as mining the waiting batches one
  after the other in the order they were queued, and ends with an idle backend and an empty queue.
\<close>

theorem advance_mines_in_order:
  assumes "producer_ok bp" and "task_finished ops w = (True, w)"
  shows "advance ops ho pool (bp, w) =
    map_option (\<lambda>(pool', nd). (pool', BlockProducer_new nd, w)) (mine_all ops w ho (batches bp) (pool, producer_backend bp))"
  using assms(1)
proof (induction "length (batches bp)" arbitrary: pool bp rule: less_induct)
  case less
  from less.prems show ?case
  proof (cases rule: producer_poll_cases [of bp ops w])
    case idle
    then have "bp = BlockProducer_new (producer_backend bp)"
      using less.prems by (cases bp) (auto simp: producer_ok_def producer_backend_def batches_def BlockProducer_new_def split: option.splits)
    moreover have "spawn_mining bp = bp"
      using idle(1) by (auto simp: batches_def spawn_mining_def)
    ultimately show ?thesis using idle by (simp add: advance.simps [of ops ho pool bp])
  next
    case (busy w')
    then show ?thesis using assms(2) by simp
  next
    case (finished txs rest w')
    have w: "w' = w" using finished(1) assms(2) by simp
    let ?bp = "\<lambda>nd. \<lparr>idle_backend = Some nd, block_mining = None, queued = rest\<rparr>"
    have bp: "batches (?bp nd) = rest" "producer_ok (?bp nd)" "producer_backend (?bp nd) = nd" for nd
      by (simp_all add: batches_def producer_ok_def producer_backend_def)
    have "length (batches (?bp nd)) < length (batches bp)" for nd by (simp add: bp finished(2))
    note rest = less.hyps [OF this bp(2), unfolded bp]
    show ?thesis
      by (simp add: advance.simps [of ops ho pool bp] finished(2,3) w rest split: option.split)
  qed
qed


lemma ready_miner_full_batch:
  assumes "poll_next st (rx m) = (PollPending, rx m)" "has_pending_txs m \<noteq> Some False"
    and "iter_take (max_transactions m) (get_transactions (ready_transactions pool)) = batch"
    and "length batch = max_transactions m" "batch \<noteq> []"
  shows "ready_miner_poll st pool m = Some (PollReady batch, m\<lparr>has_pending_txs := Some True\<rparr>)"
proof -
  have "drain_rx (poll_next st) (has_pending_txs m) (rx m) = Some (has_pending_txs m, rx m)"
    using assms(1) by (simp add: drain_rx.simps)
  then show ?thesis using assms(2-5) by (simp add: ready_miner_poll_def Let_def)
qed

text \<open>
  C40. A full batch keeps the service spinning: while a block is being mined and the ready transactions fill a
  batch, each round of the loop queues the same transactions once more, and the loop does not return.
\<close>

theorem full_batch_keeps_spinning:
  assumes "producer_ok bp" and "block_mining bp \<noteq> None" and "task_finished ops w = (False, w)"
    and "poll_next st (rx m) = (PollPending, rx m)" and "has_pending_txs m = Some True"
    and "iter_take (max_transactions m) (get_transactions (ready_transactions (inner pool))) = batch"
    and "length batch = max_transactions m" and "batch \<noteq> []"
  shows "service_loop ops st ho (n + fuel)
      \<lparr>sv_pool = pool, sv_producer = bp, sv_miner = Miner_new (Auto m), sv_world = w\<rparr> =
    service_loop ops st ho fuel
      \<lparr>sv_pool = pool, sv_producer = bp\<lparr>queued := queued bp @ replicate n batch\<rparr>, sv_miner = Miner_new (Auto m), sv_world = w\<rparr> \<and>
    service_loop ops st ho n
      \<lparr>sv_pool = pool, sv_producer = bp, sv_miner = Miner_new (Auto m), sv_world = w\<rparr> = None"
  using assms(1,2)
proof (induction n arbitrary: bp)
  case (Suc n)
  have "m\<lparr>has_pending_txs := Some True\<rparr> = m" using assms(5) by (cases m) simp
  then have miner: "miner_poll st (inner pool) (Miner_new (Auto m)) = Some (PollReady batch, Miner_new (Auto m))"
    using ready_miner_full_batch [OF assms(4) _ assms(6-8)] assms(5) by (simp add: miner_poll_def Miner_new_def)
  have same: "spawn_mining bp = bp" using Suc.prems by (auto simp: spawn_mining_def producer_ok_def split: list.split option.split)
  with Suc.prems(2) have "producer_poll_next ops (bp, w) = Some (PollPending, bp, w)"
    using assms(3) by (auto simp: producer_poll_next_def)
  then have round: "service_loop ops st ho (Suc k) \<lparr>sv_pool = pool, sv_producer = bp, sv_miner = Miner_new (Auto m), sv_world = w\<rparr> =
      service_loop ops st ho k
        \<lparr>sv_pool = pool, sv_producer = producer_feed batch bp, sv_miner = Miner_new (Auto m), sv_world = w\<rparr>" for k
    using miner by (simp add: advance.simps [of ops ho pool bp])
  have "producer_ok (producer_feed batch bp)" "block_mining (producer_feed batch bp) \<noteq> None"
    using Suc.prems by (simp_all add: producer_feed_def producer_ok_def)
  note IH = Suc.IH [OF this]
  have "(producer_feed batch bp)\<lparr>queued := queued (producer_feed batch bp) @ replicate n batch\<rparr> =
      bp\<lparr>queued := queued bp @ replicate (Suc n) batch\<rparr>"
    by (simp add: producer_feed_def)
  with IH show ?case by (simp only: add_Suc round)
qed simp


section \<open>Examples\<close>

text \<open>The world of the examples is the clock; tasks finish at even times.\<close>

definition sample_service ::
    "((nat, unit, nat CacheDB, (b256, nat StateSnapshot) fmap, unit, nat, unit, unit) node, u64) service_ops" where
  "sample_service = node_mining (\<lambda>w. (even (unat w), w)) id (sample_mining\<lparr>date_exists := \<lambda>_. True\<rparr>) sample_mining_config"

definition sample_producer ::
    "(nat, unit, nat CacheDB, (b256, nat StateSnapshot) fmap, unit, nat, unit, unit) node BlockProducer" where
  "sample_producer = \<lparr>idle_backend = None, block_mining = Some (sample_node None, [sample_pooled]), queued = [[]]\<rparr>"

lemma sample_producer_ok:
  "producer_ok sample_producer" "batches sample_producer = [[sample_pooled], []]"
  "mining_good (sample_mining\<lparr>date_exists := \<lambda>_. True\<rparr>) (producer_backend sample_producer)"
proof -
  show "producer_ok sample_producer" "batches sample_producer = [[sample_pooled], []]"
    by (simp_all add: sample_producer_def producer_ok_def batches_def)
  have "limits_pos sample_states" by (simp add: sample_states_def limits_pos_def BlockStates_new_def MIN_HISTORY_LIMIT_def)
  then show "mining_good (sample_mining\<lparr>date_exists := \<lambda>_. True\<rparr>) (producer_backend sample_producer)"
    using sample_evm_laws(2)
    by (simp add: mining_good_def sample_producer_def producer_backend_def sample_node_def sample_mining_def)
qed

lemma sample_pool_inv: "pool_inv ascending_orders (hash_rank sample_nonce) marker_rank sample_pool"
  by (rule reachable_pool_inv [OF sample_reachable])

theorem producer_refines_queue_witness:
  "batches (fst (snd (the (producer_poll_next sample_service (sample_producer, 1))))) = [[sample_pooled], []]"
proof -
  have poll: "producer_poll_next sample_service (sample_producer, 1) = Some (PollPending, sample_producer, 1)"
    by (simp add: producer_poll_next_def sample_producer_def spawn_mining_def sample_service_def node_mining_def)
  from producer_refines_queue [OF sample_producer_ok(1) this] show ?thesis by (simp add: poll sample_producer_ok)
qed

theorem advance_mines_in_order_witness:
  "advance sample_service ascending_orders sample_pool (sample_producer, 1012) =
     map_option (\<lambda>(pool, nd). (pool, BlockProducer_new nd, 1012))
       (mine_all sample_service 1012 ascending_orders [[sample_pooled], []] (sample_pool, sample_node None))"
proof -
  have "task_finished sample_service 1012 = (True, 1012)" by (simp add: sample_service_def node_mining_def)
  from advance_mines_in_order [OF sample_producer_ok(1) this] show ?thesis
    by (simp add: sample_producer_ok(2)) (simp add: sample_producer_def producer_backend_def)
qed


lemma sample_full_batch:
  "iter_take 1 (get_transactions (ready_transactions (inner sample_pool))) = [sample_tx 5 0 10]"
  using iter_take_prefix [OF sample_collect, of 1] by simp

theorem full_batch_keeps_spinning_witness:
  "service_loop sample_service queue_streams ascending_orders 1000
     \<lparr>sv_pool = sample_pool, sv_producer = sample_producer,
      sv_miner = Miner_new (Auto \<lparr>max_transactions = 1, has_pending_txs = Some True, rx = []\<rparr>), sv_world = 1\<rparr> = None"
proof -
  let ?m = "\<lparr>max_transactions = 1, has_pending_txs = Some True, rx = []\<rparr> :: tx_hash list ReadyTransactionMiner"
  have "block_mining sample_producer \<noteq> None" "task_finished sample_service 1 = (False, 1)"
    "poll_next queue_streams (rx ?m) = (PollPending, rx ?m)" "has_pending_txs ?m = Some True"
    "iter_take (max_transactions ?m) (get_transactions (ready_transactions (inner sample_pool))) = [sample_tx 5 0 10]"
    "length [sample_tx 5 0 10] = max_transactions ?m" "[sample_tx 5 0 10] \<noteq> []"
    using sample_full_batch
    by (simp_all add: sample_producer_def sample_service_def node_mining_def queue_streams_def)
  from full_batch_keeps_spinning [OF sample_producer_ok(1) this] show ?thesis by blast
qed


end
