(* ===== verification/Spec2Isabelle.thy ===== *)
theory Spec2Isabelle
  imports Pool_Properties Miner Time_Manager Block_States Backend_Snapshots Fee_Service Fuzz_Values Shrinker
    Fund_Me Savings_Bank Tokens Safe_Wallet Registries Tx_Validation Block_Executor Mining Node_Service
begin

text \<open>
  A verification development for the repository of Solidity projects and its copy of foundry-zksync, the
  development toolchain they use. The paths below are relative to src/; those that start with a crate name
  (anvil, evm, config) are below src/foundry-zksync/crates/.

  \<^bold>\<open>The program\<close>

  The largest part that is modelled is \<^emph>\<open>anvil\<close>, a local Ethereum node. The RPC layer submits transactions
  to the pool, which keeps those whose predecessors are missing in a pending queue and the others in a
  ready queue. The node service polls the miner, which takes batches from the ready queue, and hands them
  to the block producer. The backend executes a batch in a block: the clock gives the timestamp, the
  fee manager the base fee, the validator checks each transaction, the executor runs it on the EVM and
  builds receipts and header, the block is filed in the chain storage, and the state before it goes to the
  history of states. The pool is told which transactions were included and which were invalid. Snapshots
  and reverts rewind storage, database and clock together. Two further parts of the toolchain are the
  fuzzer's integers and the shrinking of failing call sequences. The Solidity part consists of small
  contracts.

  \<^bold>\<open>Conventions\<close>

  A Rust function becomes a HOL function of the same name (with a prefix where names clash) that takes and
  returns the state it changes. Machine integers are words of their width; arithmetic that wraps in a
  release build wraps here, \<open>saturating_*\<close> and \<open>checked_*\<close> are defined in \<open>Prelude\<close>. \<open>Result\<close> is a sum
  with the error on the left, and a panic or a loop that does not end is \<open>None\<close> of an option. A hash map
  is a finite map, and the order in which it is iterated is a parameter. Code outside the repository (the
  EVM, hashing, signatures, tries, channels, the wall clock, random draws, the price feed) is a record of
  operations, and what is assumed of it is a named predicate. A \<open>locale\<close> states the contract between a
  component and its clients and is interpreted on the definitions of the model.

  \<^bold>\<open>Theories\<close>

  \<^item> \<open>Prelude\<close>: machine integers, finite maps, lists; the locale \<open>op_system\<close> for components whose operations
    keep an invariant and return.
  \<^item> \<open>Transactions\<close> (anvil/core/src/eth/transaction/mod.rs): the six kinds of transactions, their accessors,
    the conversion of a request and the environment of the EVM.
  \<^item> \<open>Pool_Types\<close>, \<open>Pending_Pool\<close>, \<open>Ready_Pool\<close>, \<open>Tx_Pool\<close> (anvil/src/eth/pool): markers, both queues,
    the iterator over ready transactions and the pool. \<open>Ready_Pool_Inv\<close>, \<open>Ready_Pool_Links\<close> and
    \<open>Tx_Pool_Inv\<close> show that every operation keeps the invariant, \<open>Pool_Properties\<close> that no sequence of
    operations panics, what adding, mining and removing do, and in which order the miner sees transactions.
  \<^item> \<open>Miner\<close> (anvil/src/eth/miner.rs): the mining modes and what a poll returns.
  \<^item> \<open>Time_Manager\<close> (anvil/src/eth/backend/time.rs): the block clock; timestamps never decrease.
  \<^item> \<open>Block_States\<close> (anvil/src/eth/backend/mem/storage.rs, db.rs): the history of states as a sliding window
    over memory and disk, against an abstract window; round trips of the serialized states.
  \<^item> \<open>Chain_Storage\<close> (anvil/core/src/eth/block.rs, anvil/src/eth/backend/mem/storage.rs and mod.rs): blocks,
    the storage, recording, reverting, saving and loading.
  \<^item> \<open>State_Snapshots\<close>, \<open>Backend_Snapshots\<close> (evm/core/src/state_snapshot.rs, in_memory_db.rs, mem/mod.rs):
    snapshots of the database, and \<open>evm_snapshot\<close> and \<open>evm_revert\<close> over storage, database and clock.
  \<^item> \<open>Fee_Service\<close> (anvil/src/eth/fees.rs): base fee, blob fee, fee history and the fees of a request.
  \<^item> \<open>Tx_Validation\<close> (mem/mod.rs, error.rs, cheats.rs): the checks before a transaction is accepted or executed.
  \<^item> \<open>Block_Executor\<close> (anvil/src/eth/backend/executor.rs): executing the transactions of a block.
  \<^item> \<open>Mining\<close> (\<open>do_mine_block\<close> of mem/mod.rs): composes clock, fees, state history, executor and storage.
  \<^item> \<open>Node_Service\<close> (anvil/src/service.rs): the block producer and the loop of the service; the locale
    \<open>block_backend\<close> is interpreted on \<open>do_mine_block\<close>.
  \<^item> \<open>Fuzz_Values\<close> (evm/fuzz/src/strategies/uint.rs, int.rs): value trees; shrinking finds the least failing
    value (locale \<open>value_tree\<close>).
  \<^item> \<open>Shrinker\<close> (evm/evm/src/executors/invariant/shrink.rs): shrinking equals a greedy reference.
  \<^item> \<open>Contract_Env\<close>, \<open>Fund_Me\<close>, \<open>Savings_Bank\<close>, \<open>Tokens\<close>, \<open>Safe_Wallet\<close>, \<open>Registries\<close>: the contracts of
    foundry-fund-me-f23, foundry-simple-storage-f23 and revision, with calls that revert, ether transfers
    that call back, and invariants over all sequences of transactions (locale \<open>contract_system\<close>).
  \<^item> \<open>Spec2Isabelle\<close> (this theory): the property of the node as a whole.

  \<^bold>\<open>What is shown\<close>

  Invariants hold for every sequence of operations of a component. Where the code may panic or loop, the
  theorems say that it returns, or exactly when it does not. Optimised or stateful code is compared with a
  reference (the window of states, the queue of the block producer, greedy shrinking, the least failing
  value, the simple withdrawal). Some theorems show behaviour that contradicts a comment or the intent of the
  code; they are marked as errors.

  \<^bold>\<open>Bounds and fuel\<close>

  The only fuel is that of \<open>service_loop\<close>: two rounds are enough when no batch is full, and no number is enough while
  a full batch waits for a running task. The loops of the pool, the iterator and the miner are partial
  functions that are shown to return. All other recursion is structural or has a measure.

  \<^bold>\<open>Not modelled\<close>

  The rest of the RPC layer of anvil (api.rs), its configuration, forking and genesis code, the
  zksync-specific crates, the cheatcodes, compilers, formatters, linters, debuggers, verification services
  and command lines (cast, forge, chisel, cli, script and the others) are not modelled: they are mostly
  input and output, text formatting, or wrappers around packages outside the repository. Locks are left out
  where an operation holds them for its whole duration. Contracts that the compiler rejects (Raffle.sol,
  ERC-20.sol, Ownable.sol, AccessControl.sol, TIme-Wallet.sol), test contracts and deployment scripts have no behaviour to model.
\<close>

text \<open>
  C1. The node as a whole: transactions that end up in a block are on the chain and no longer in the pool. Mining a
  batch files each included transaction under the new block, and the pool, whatever it has received in the
  meantime, then has none of the invalid ones and none of the included ones that wait in its ready queue.
\<close>

theorem mined_transactions_move_to_chain:
  fixes nd :: "('s::linorder, 'db, 'st, 'disk, 'f, 'x, 'tr, 'l) node"
  assumes "do_mine_block ops mc now txs nd = Some (outcome, nd')" and "node_wf ops nd"
    and "no_collision (mo_chain ops) (nd_storage nd)" and "unmined (mo_chain ops) (nd_storage nd) txs"
    and "best_number (nd_storage nd) \<noteq> - 1" and "last_timestamp (nd_time nd) \<noteq> - 1" and "mc_keeper mc = None"
    and "reachable_pool ho try_send nonce_of pool"
  shows "\<exists>res pool'. on_mined_block ho outcome pool = Some (res, pool') \<and>
    (\<forall>tx\<in>set (invalid outcome). \<not> inner_contains (inner pool') (tx_hash_of tx)) \<and>
    (\<forall>tx\<in>set (included outcome). tx \<in> set txs \<and>
       (\<exists>m. get_transaction_by_hash (tx_hash_of tx) (nd_storage nd') = Some m \<and>
          mined_block_number m = best_number (nd_storage nd) + 1) \<and>
       (\<forall>rt. provides tx \<noteq> [] \<longrightarrow> fmlookup (ready_tx (ready_transactions (inner pool))) (tx_hash_of tx) = Some rt \<longrightarrow>
          rt_tx rt = tx \<longrightarrow> \<not> inner_contains (inner pool') (tx_hash_of tx)))"
proof -
  obtain r :: "('x, 'tr) ExecutedTransactions" where inc: "included outcome = executed_included r"
    and fresh: "fresh_block (mo_chain ops) (nd_storage nd) (info_block (executed_block r)) (info_transactions (executed_block r))
       (info_receipts (executed_block r))"
    and s': "nd_storage nd' = record_mined_block (mo_chain ops) (mc_merged mc) (mc_keeper mc) (best_number (nd_storage nd) + 1)
       (info_block (executed_block r)) (info_transactions (executed_block r)) (info_receipts (executed_block r)) (nd_storage nd)"
    and txs: "mset (executed_included r) + mset (executed_invalid r) \<subseteq># mset txs"
      "map transaction_hash (info_transactions (executed_block r)) = map tx_hash_of (executed_included r)"
    using assms(1-6) by (rule do_mine_block_wf)
  have "tx \<in> set txs \<and> (\<exists>m. get_transaction_by_hash (tx_hash_of tx) (nd_storage nd') = Some m \<and>
      mined_block_number m = best_number (nd_storage nd) + 1)" if tx: "tx \<in> set (included outcome)" for tx
  proof
    show "tx \<in> set txs"
      using tx inc txs(1) by (metis mset_subset_eqD mset_subset_eq_add_left set_mset_mset)
    show "\<exists>m. get_transaction_by_hash (tx_hash_of tx) (nd_storage nd') = Some m \<and>
        mined_block_number m = best_number (nd_storage nd) + 1"
      using executed_transaction_found [OF fresh txs(2), of tx "mc_merged mc" "best_number (nd_storage nd) + 1"] tx inc
      by (auto simp: s' assms(7))
  qed
  with on_mined_block_ok [OF reachable_pool_inv [OF assms(8)], of outcome] show ?thesis by blast
qed

theorem mined_transactions_move_to_chain_witness:
  "\<exists>outcome nd res pool.
     do_mine_block sample_mining sample_mining_config 1012 [sample_pooled] (sample_node None) = Some (outcome, nd) \<and>
     on_mined_block ascending_orders outcome sample_pool = Some (res, pool)"
proof -
  obtain outcome nd where mined:
    "do_mine_block sample_mining sample_mining_config 1012 [sample_pooled] (sample_node None) = Some (outcome, nd)"
    using sample_mines by fastforce
  have "best_number (nd_storage (sample_node None)) \<noteq> - 1" "last_timestamp (nd_time (sample_node None)) \<noteq> - 1"
    "mc_keeper sample_mining_config = None"
    by (simp_all add: sample_node_ok sample_mining_config_def)
  from mined_transactions_move_to_chain [OF mined sample_node_ok(1,2,6) this sample_reachable] mined
  show ?thesis by blast
qed

end
